(* ===== verification/RT_Prelude.thy ===== *)
theory RT_Prelude
  imports Main
begin

text \<open>
  Shared material of the development: the outcomes of a C++ call (return, exception, a call that
  blocks, \<^verbatim>\<open>std::terminate\<close>, undefined behaviour) and the state-passing programs over them,
  \<^verbatim>\<open>std::mutex\<close> as an optional owner, \<^verbatim>\<open>std::to_string\<close>, and the transition systems with their
  three proof interfaces: \<open>safety\<close> (an invariant holds in every reachable state), \<open>simulation\<close>
  (a detailed machine implements an abstract one) and \<open>ranked\<close> (one thread finishes within a
  bounded number of its own steps whatever the others do).
\<close>

section \<open>Collections of simplification rules\<close>

named_theorems effect_defs \<open>definitions of the state changes made by the atomic actions\<close>
named_theorems prog_simps \<open>equations that run a state-passing program\<close>

section \<open>Outcomes of a call\<close>

type_synonym tid = nat
type_synonym addr = nat

datatype error_category = Generic_category | System_category

text \<open>The exceptions the sources throw, and the ones a user callback may throw.\<close>

datatype exn =
    Runtime_error string
  | System_error int error_category string
  | Bad_function_call
  | Rcl_error string  \<comment> \<open>\<^verbatim>\<open>rclcpp::exceptions::RCLErrorBase\<close>\<close>
  | User_exn nat

text \<open>What \<^verbatim>\<open>std::thread::join\<close> throws on a thread that has been joined (22 is \<^verbatim>\<open>EINVAL\<close>).\<close>

abbreviation joined_already :: exn where
  "joined_already \<equiv> System_error 22 Generic_category ''Invalid argument''"

text \<open>How a call ends.\<close>

datatype 'a outcome =
    Return 'a
  | Throw exn
  | Block       \<comment> \<open>the call does not return from this state: it waits for another thread\<close>
  | Terminate   \<comment> \<open>\<^verbatim>\<open>std::terminate\<close>: an exception leaves a \<^verbatim>\<open>noexcept\<close> function or a thread\<close>
  | Undefined   \<comment> \<open>undefined behaviour: division by zero, null dereference\<close>

fun is_return :: "'a outcome \<Rightarrow> bool" where
  "is_return (Return _) = True"
| "is_return _ = False"

fun is_throw :: "'a outcome \<Rightarrow> bool" where
  "is_throw (Throw _) = True"
| "is_throw _ = False"

type_synonym ('s, 'a) prog = "'s \<Rightarrow> 'a outcome \<times> 's"

definition ret :: "'a \<Rightarrow> ('s, 'a) prog" where
  "ret x s = (Return x, s)"

definition throw :: "exn \<Rightarrow> ('s, 'a) prog" where
  "throw e s = (Throw e, s)"

definition get_state :: "('s \<Rightarrow> 'a) \<Rightarrow> ('s, 'a) prog" where
  "get_state f s = (Return (f s), s)"

definition modify :: "('s \<Rightarrow> 's) \<Rightarrow> ('s, unit) prog" where
  "modify f s = (Return (), f s)"

definition bindp :: "('s, 'a) prog \<Rightarrow> ('a \<Rightarrow> ('s, 'b) prog) \<Rightarrow> ('s, 'b) prog" where
  "bindp m f s =
     (case m s of
        (Return x, s') \<Rightarrow> f x s'
      | (Throw e, s') \<Rightarrow> (Throw e, s')
      | (Block, s') \<Rightarrow> (Block, s')
      | (Terminate, s') \<Rightarrow> (Terminate, s')
      | (Undefined, s') \<Rightarrow> (Undefined, s'))"

text \<open>
  A scope that holds a lock guard: acquire, run the body, and release on every way out of the
  scope, the exceptional one included. The release is \<^verbatim>\<open>noexcept\<close>.
\<close>

definition guarded :: "('s, unit) prog \<Rightarrow> ('s \<Rightarrow> 's) \<Rightarrow> ('s, 'a) prog \<Rightarrow> ('s, 'a) prog" where
  "guarded acquire release body =
     bindp acquire (\<lambda>_ s.
       (case body s of
          (Return x, s') \<Rightarrow> (Return x, release s')
        | (Throw e, s') \<Rightarrow> (Throw e, release s')
        | r \<Rightarrow> r))"

lemma run_simps [prog_simps, simp]:
  "ret x s = (Return x, s)"
  "throw e s = (Throw e, s)"
  "get_state f s = (Return (f s), s)"
  "modify g s = (Return (), g s)"
  by (simp_all add: ret_def throw_def get_state_def modify_def)

lemma bindp_simps [prog_simps]:
  "m s = (Return x, s') \<Longrightarrow> bindp m f s = f x s'"
  "m s = (Throw e, s') \<Longrightarrow> bindp m f s = (Throw e, s')"
  "m s = (Block, s') \<Longrightarrow> bindp m f s = (Block, s')"
  "m s = (Terminate, s') \<Longrightarrow> bindp m f s = (Terminate, s')"
  "m s = (Undefined, s') \<Longrightarrow> bindp m f s = (Undefined, s')"
  by (simp_all add: bindp_def)

lemma bindp_run [simp]:
  "bindp (ret x) f = f x"
  "bindp (throw e) f = throw e"
  "bindp (modify g) k s = k () (g s)"
  "bindp (get_state h) l s = l (h s) s"
  by (simp_all add: bindp_def fun_eq_iff)

lemma bindp_assoc: "bindp (bindp m f) g = bindp m (\<lambda>x. bindp (f x) g)"
  by (auto simp: bindp_def fun_eq_iff split: prod.splits outcome.splits)

lemma bindp_ret_right [simp]: "bindp m ret = m"
  by (auto simp: bindp_def fun_eq_iff split: prod.splits outcome.splits)

lemma bindp_ReturnE:
  assumes "bindp m f s = (Return y, t)"
  obtains x s' where "m s = (Return x, s')" "f x s' = (Return y, t)"
  using assms by (auto simp: bindp_def split: prod.splits outcome.splits)

lemma guarded_Return:
  "acquire s = (Return (), s1) \<Longrightarrow> body s1 = (Return x, s2) \<Longrightarrow>
     guarded acquire release body s = (Return x, release s2)"
  by (simp add: guarded_def bindp_simps)

lemma guarded_Throw:
  "acquire s = (Return (), s1) \<Longrightarrow> body s1 = (Throw e, s2) \<Longrightarrow>
     guarded acquire release body s = (Throw e, release s2)"
  by (simp add: guarded_def bindp_simps)

lemma guarded_acquire_fails:
  "acquire s = (Throw e, s1) \<Longrightarrow> guarded acquire release body s = (Throw e, s1)"
  "acquire s = (Block, s1) \<Longrightarrow> guarded acquire release body s = (Block, s1)"
  by (simp_all add: guarded_def bindp_simps)

section \<open>\<^verbatim>\<open>std::mutex\<close>\<close>

text \<open>
  \<^verbatim>\<open>std::mutex\<close> is its owner, if it has one. A blocking lock is a step that is enabled only while
  the mutex is free; \<open>mtx_try\<close> is \<^verbatim>\<open>try_lock\<close>, which reports whether it got the mutex.
\<close>

type_synonym 'o std_mutex = "'o option"

definition mtx_try :: "'o \<Rightarrow> 'o std_mutex \<Rightarrow> bool \<times> 'o std_mutex" where
  "mtx_try t m = (case m of None \<Rightarrow> (True, Some t) | Some _ \<Rightarrow> (False, m))"

lemma mtx_try_simps [simp]:
  "mtx_try t None = (True, Some t)"
  "mtx_try t (Some u) = (False, Some u)"
  by (simp_all add: mtx_try_def)

text \<open>
  In the machines of the development a thread's program counter says whether the thread holds
  the mutex. The two agree when exactly the owner is at a holding program counter; the rules
  below move one thread and keep the agreement.
\<close>

definition lock_agrees ::
    "('p \<Rightarrow> bool) \<Rightarrow> (tid \<Rightarrow> 'o) \<Rightarrow> (tid \<Rightarrow> 'p) \<Rightarrow> 'o std_mutex \<Rightarrow> bool" where
  "lock_agrees holds name pcs m \<longleftrightarrow> (\<forall>i. holds (pcs i) = (m = Some (name i)))"

lemma lock_agrees_keep:
  "lock_agrees h c f m \<Longrightarrow> h p = h (f i) \<Longrightarrow> lock_agrees h c (f(i := p)) m"
  by (simp add: lock_agrees_def)

lemma lock_agrees_take:
  "inj c \<Longrightarrow> lock_agrees h c f None \<Longrightarrow> h p \<Longrightarrow> lock_agrees h c (f(i := p)) (Some (c i))"
  by (auto simp: lock_agrees_def dest: injD)

lemma lock_agrees_drop:
  "inj c \<Longrightarrow> lock_agrees h c f m \<Longrightarrow> h (f i) \<Longrightarrow> \<not> h p \<Longrightarrow> lock_agrees h c (f(i := p)) None"
  by (auto simp: lock_agrees_def dest: injD)

lemma lock_agrees_try:
  "inj c \<Longrightarrow> lock_agrees h c f m \<Longrightarrow> \<not> h (f i) \<Longrightarrow> mtx_try (c i) m = (b, m') \<Longrightarrow> h p = b \<Longrightarrow>
     lock_agrees h c (f(i := p)) m'"
  by (cases m) (auto simp: lock_agrees_take lock_agrees_keep)

lemma lock_agrees_unique:
  "inj c \<Longrightarrow> lock_agrees h c f m \<Longrightarrow> h (f i) \<Longrightarrow> h (f j) \<Longrightarrow> i = j"
  by (auto simp: lock_agrees_def dest: injD)

lemma lock_agrees_owner: "lock_agrees h c f m \<Longrightarrow> h (f i) \<Longrightarrow> m = Some (c i)"
  by (simp add: lock_agrees_def)

text \<open>
  Clients and one thread of the object itself around one mutex. \<open>inside\<close> says whether that thread,
  whose name is \<open>keeper\<close>, is where it holds the mutex.
\<close>

definition monitor_ok ::
    "('p \<Rightarrow> bool) \<Rightarrow> (tid \<Rightarrow> 'o) \<Rightarrow> 'o \<Rightarrow> (tid \<Rightarrow> 'p) \<Rightarrow> bool \<Rightarrow> 'o std_mutex \<Rightarrow> bool" where
  "monitor_ok holds name keeper pcs inside m \<longleftrightarrow>
     lock_agrees holds name pcs m \<and> inside = (m = Some keeper)"

locale monitor =
  fixes holds :: "'p \<Rightarrow> bool" and name :: "tid \<Rightarrow> 'o" and keeper :: 'o
  assumes inj_name: "inj name" and keeper_apart: "name i \<noteq> keeper"
begin

abbreviation ok :: "(tid \<Rightarrow> 'p) \<Rightarrow> bool \<Rightarrow> 'o std_mutex \<Rightarrow> bool" where
  "ok \<equiv> monitor_ok holds name keeper"

lemma owner: "ok f b m \<Longrightarrow> holds (f i) \<Longrightarrow> m = Some (name i) \<and> \<not> b"
  using keeper_apart [of i] by (auto simp: monitor_ok_def lock_agrees_def)

lemma alone: "ok f b m \<Longrightarrow> holds (f i) \<Longrightarrow> j \<noteq> i \<Longrightarrow> \<not> holds (f j)"
  unfolding monitor_ok_def using lock_agrees_unique [OF inj_name] by blast

lemma free: "ok f b None \<Longrightarrow> \<not> b \<and> \<not> holds (f i)"
  by (simp add: monitor_ok_def lock_agrees_def)

lemma keep: "ok f b m \<Longrightarrow> holds p = holds (f i) \<Longrightarrow> ok (f(i := p)) b m"
  by (simp add: monitor_ok_def lock_agrees_keep)

lemma take: "ok f b None \<Longrightarrow> holds p \<Longrightarrow> ok (f(i := p)) b (Some (name i))"
  using keeper_apart [of i] by (auto simp: monitor_ok_def lock_agrees_take [OF inj_name])

lemma drop: "ok f b m \<Longrightarrow> holds (f i) \<Longrightarrow> \<not> holds p \<Longrightarrow> ok (f(i := p)) b None"
  using owner [of f b m i] by (auto simp: monitor_ok_def lock_agrees_drop [OF inj_name])

lemma attempt:
  assumes "ok f b m" "\<not> holds (f i)" "mtx_try (name i) m = (holds p, m')"
  shows "ok (f(i := p)) b m'"
proof (cases m)
  case None
  with assms have "holds p" "m' = Some (name i)" by auto
  with assms(1) None show ?thesis by (auto intro: take)
next
  case (Some u)
  with assms have "holds p = holds (f i)" "m' = m" by auto
  with assms(1) show ?thesis by (auto intro: keep)
qed

lemma keeper_take: "ok f b None \<Longrightarrow> ok f True (Some keeper)"
  using keeper_apart by (auto simp: monitor_ok_def lock_agrees_def)

lemma keeper_drop: "ok f True m \<Longrightarrow> ok f False None"
  using keeper_apart by (auto simp: monitor_ok_def lock_agrees_def)

lemma some_holder:
  assumes "ok f False m" "m \<noteq> None" "m \<in> insert (Some keeper) (range (Some \<circ> name))"
  obtains i where "holds (f i)"
  using assms by (auto simp: monitor_ok_def lock_agrees_def)

lemmas rules = keep take drop attempt

end

text \<open>Whether some thread is at a program counter, split at the thread that moves.\<close>

lemma ex_client_split: "(\<exists>j. P (f j)) = (P (f i) \<or> (\<exists>j. j \<noteq> i \<and> P (f j)))"
  by metis

lemma ex_client_upd: "(\<exists>j. P ((f(i := p)) j)) = (P p \<or> (\<exists>j. j \<noteq> i \<and> P (f j)))"
  by auto

text \<open>
  An object that one thread writes while others can look at it: between the begin and the end of
  the write it is \<open>Torn\<close>, and a read there is a data race.
\<close>

datatype 'v content = Whole 'v | Torn

section \<open>\<^verbatim>\<open>std::to_string\<close>\<close>

definition digit_char :: "nat \<Rightarrow> char" where
  "digit_char d = char_of (48 + d)"

fun nat_to_string :: "nat \<Rightarrow> string" where
  "nat_to_string n =
     (if n < 10 then [digit_char n] else nat_to_string (n div 10) @ [digit_char (n mod 10)])"

declare nat_to_string.simps [simp del]

definition to_string :: "int \<Rightarrow> string" where
  "to_string i = (if i < 0 then CHR ''-'' # nat_to_string (nat (- i)) else nat_to_string (nat i))"

fun digits_value :: "nat \<Rightarrow> string \<Rightarrow> nat" where
  "digits_value acc [] = acc"
| "digits_value acc (c # cs) = digits_value (10 * acc + (of_char c - 48)) cs"

lemma digits_value_append:
  "digits_value acc (cs @ ds) = digits_value (digits_value acc cs) ds"
  by (induction cs arbitrary: acc) auto

lemma digit_char_value [simp]: "d < 10 \<Longrightarrow> of_char (digit_char d) = (48 + d :: nat)"
  by (simp add: digit_char_def of_char_of take_bit_eq_mod)

lemma digits_value_nat_to_string [simp]: "digits_value 0 (nat_to_string n) = n"
proof (induction n rule: nat_to_string.induct)
  case (1 n)
  show ?case
  proof (cases "n < 10")
    case True
    then show ?thesis by (simp add: nat_to_string.simps [of n])
  next
    case False
    with 1 have "digits_value 0 (nat_to_string (n div 10)) = n div 10" by simp
    with False show ?thesis
      by (simp add: nat_to_string.simps [of n] digits_value_append)
  qed
qed

lemma nat_to_string_inject: "nat_to_string m = nat_to_string n \<longleftrightarrow> m = n"
  by (metis digits_value_nat_to_string)

lemma nat_to_string_not_Nil [simp]: "nat_to_string n \<noteq> []"
  by (subst nat_to_string.simps) simp

section \<open>Transition systems\<close>

inductive reach :: "('s \<Rightarrow> bool) \<Rightarrow> ('s \<Rightarrow> 's \<Rightarrow> bool) \<Rightarrow> 's \<Rightarrow> bool"
  for init :: "'s \<Rightarrow> bool" and step :: "'s \<Rightarrow> 's \<Rightarrow> bool" where
  reach_init: "init s \<Longrightarrow> reach init step s"
| reach_step: "reach init step s \<Longrightarrow> step s t \<Longrightarrow> reach init step t"

inductive steps :: "('s \<Rightarrow> 's \<Rightarrow> bool) \<Rightarrow> 's \<Rightarrow> 's \<Rightarrow> bool"
  for step :: "'s \<Rightarrow> 's \<Rightarrow> bool" where
  steps_refl: "steps step s s"
| steps_step: "step s t \<Longrightarrow> steps step t u \<Longrightarrow> steps step s u"

lemma steps_one: "step s t \<Longrightarrow> steps step s t"
  by (blast intro: steps.intros)

lemma steps_eq: "s = t \<Longrightarrow> steps step s t"
  by (simp add: steps_refl)

lemma steps_trans: "steps step s t \<Longrightarrow> steps step t u \<Longrightarrow> steps step s u"
  by (induction rule: steps.induct) (auto intro: steps.intros)

lemma reach_steps: "steps step s t \<Longrightarrow> reach init step s \<Longrightarrow> reach init step t"
  by (induction rule: steps.induct) (auto intro: reach.intros)

text \<open>An invariant of a machine, proved action by action.\<close>

locale safety =
  fixes init :: "'s \<Rightarrow> bool"
    and step :: "'s \<Rightarrow> 's \<Rightarrow> bool"
    and inv :: "'s \<Rightarrow> bool"
  assumes inv_init: "init s \<Longrightarrow> inv s"
    and inv_step: "inv s \<Longrightarrow> step s t \<Longrightarrow> inv t"
begin

lemma reach_inv: "reach init step s \<Longrightarrow> inv s"
  by (induction rule: reach.induct) (auto intro: inv_init inv_step)

lemma steps_inv: "steps step s t \<Longrightarrow> inv s \<Longrightarrow> inv t"
  by (induction rule: steps.induct) (auto intro: inv_step)

end

text \<open>
  An abstraction map under which every detailed step is an abstract step or invisible. The
  detailed machine's invariant comes with the interface, because the map is meaningful only
  on states that satisfy it.
\<close>

locale simulation = safety init step inv
  for init :: "'s \<Rightarrow> bool" and step :: "'s \<Rightarrow> 's \<Rightarrow> bool" and inv :: "'s \<Rightarrow> bool" +
  fixes ainit :: "'a \<Rightarrow> bool"
    and astep :: "'a \<Rightarrow> 'a \<Rightarrow> bool"
    and abs :: "'s \<Rightarrow> 'a"
  assumes abs_init: "init s \<Longrightarrow> ainit (abs s)"
    and abs_step: "inv s \<Longrightarrow> step s t \<Longrightarrow> abs t = abs s \<or> astep (abs s) (abs t)"
begin

lemma reach_abs: "reach init step s \<Longrightarrow> reach ainit astep (abs s)"
proof (induction rule: reach.induct)
  case (reach_init s)
  then show ?case by (blast intro: reach.reach_init abs_init)
next
  case (reach_step s t)
  from reach_step.hyps have "inv s" by (blast intro: reach_inv)
  with reach_step show ?case by (metis abs_step reach.reach_step)
qed

lemma steps_abs: "steps step s t \<Longrightarrow> inv s \<Longrightarrow> steps astep (abs s) (abs t)"
proof (induction rule: steps.induct)
  case (steps_refl s)
  then show ?case by (simp add: steps.steps_refl)
next
  case (steps_step s t u)
  then have "steps astep (abs t) (abs u)" by (blast intro: inv_step)
  with steps_step show ?case by (metis abs_step steps.steps_step)
qed

end

text \<open>
  Progress of one thread under interference. Each of its own steps lowers the rank, no step of
  the others raises it, so whatever the interleaving, the thread takes at most as many steps as
  the rank says before it is done.
\<close>

inductive own_steps :: "('s \<Rightarrow> 's \<Rightarrow> bool) \<Rightarrow> ('s \<Rightarrow> 's \<Rightarrow> bool) \<Rightarrow> nat \<Rightarrow> 's \<Rightarrow> 's \<Rightarrow> bool"
  for own env :: "'s \<Rightarrow> 's \<Rightarrow> bool" where
  own_none: "own_steps own env 0 s s"
| own_own: "own s t \<Longrightarrow> own_steps own env n t u \<Longrightarrow> own_steps own env (Suc n) s u"
| own_env: "env s t \<Longrightarrow> own_steps own env n t u \<Longrightarrow> own_steps own env n s u"

locale ranked =
  fixes own env :: "'s \<Rightarrow> 's \<Rightarrow> bool"
    and ok :: "'s \<Rightarrow> bool"
    and rank :: "'s \<Rightarrow> nat"
  assumes own_ok: "ok s \<Longrightarrow> own s t \<Longrightarrow> ok t"
    and env_ok: "ok s \<Longrightarrow> env s t \<Longrightarrow> ok t"
    and own_rank: "ok s \<Longrightarrow> own s t \<Longrightarrow> rank t < rank s"
    and env_rank: "ok s \<Longrightarrow> env s t \<Longrightarrow> rank t \<le> rank s"
begin

lemma own_steps_bounded: "own_steps own env n s t \<Longrightarrow> ok s \<Longrightarrow> n + rank t \<le> rank s \<and> ok t"
proof (induction rule: own_steps.induct)
  case (own_none s)
  then show ?case by simp
next
  case (own_own s t n u)
  then show ?case using own_ok own_rank by fastforce
next
  case (own_env s t n u)
  then show ?case using env_ok env_rank by fastforce
qed

end

end
