(* ===== verification/PI_Mutex.thy ===== *)
theory PI_Mutex
  imports RT_Prelude
begin

text \<open>
  \<^verbatim>\<open>detail::mutex<MutexType, MutexRobustness>\<close> (\<^verbatim>\<open>mutex.hpp\<close>): a wrapper around a pthread mutex
  with priority inheritance. The pthread functions are a parameter, a record of functions over
  the state of the operating system; the locale \<open>pthread_mutex\<close> states what POSIX and glibc
  document of them. The locale \<open>lockable\<close> is the contract of the C++ named requirement Lockable,
  which the box and the goal handle rely on; the wrapper provides it over any pthread that
  satisfies its laws.
\<close>

section \<open>The pthread interface\<close>

text \<open>\<^verbatim>\<open>error_mutex_type_t\<close>, \<^verbatim>\<open>recursive_mutex_type_t\<close>; \<^verbatim>\<open>stalled_robustness_t\<close>, \<^verbatim>\<open>robust_robustness_t\<close>.\<close>

datatype mutex_type = ERRORCHECK | RECURSIVE

datatype robustness = STALLED | ROBUST

datatype protocol = PRIO_NONE | PRIO_INHERIT | PRIO_PROTECT

text \<open>The values of the error codes on Linux.\<close>

definition EPERM :: int where "EPERM = 1"
definition EBUSY :: int where "EBUSY = 16"
definition EDEADLK :: int where "EDEADLK = 35"
definition EOWNERDEAD :: int where "EOWNERDEAD = 130"

lemmas errno_defs = EPERM_def EBUSY_def EDEADLK_def EOWNERDEAD_def

text \<open>
  Each function returns its code and the new state of the system; a lock may also not return
  from this state, because another thread holds the mutex.
\<close>

record 'w pthread_api =
  attr_init :: "'w \<Rightarrow> int \<times> 'w"
  attr_settype :: "mutex_type \<Rightarrow> 'w \<Rightarrow> int \<times> 'w"
  attr_setprotocol :: "protocol \<Rightarrow> 'w \<Rightarrow> int \<times> 'w"
  attr_setrobust :: "robustness \<Rightarrow> 'w \<Rightarrow> int \<times> 'w"
  attr_destroy :: "'w \<Rightarrow> int \<times> 'w"
  mutex_init :: "'w \<Rightarrow> int \<times> 'w"
  mutex_destroy :: "'w \<Rightarrow> int \<times> 'w"
  mutex_lock :: "tid \<Rightarrow> 'w \<Rightarrow> (int \<times> 'w) option"
  mutex_trylock :: "tid \<Rightarrow> 'w \<Rightarrow> int \<times> 'w"
  mutex_unlock :: "tid \<Rightarrow> 'w \<Rightarrow> int \<times> 'w"
  mutex_consistent :: "tid \<Rightarrow> 'w \<Rightarrow> int \<times> 'w"
  strerror :: "int \<Rightarrow> string"

text \<open>The state a wrapper works on: the system, and the lines written to \<^verbatim>\<open>std::cerr\<close>.\<close>

record 'w mstate =
  os :: 'w
  cerr :: "string list"

definition call :: "('w \<Rightarrow> int \<times> 'w) \<Rightarrow> ('w mstate, int) prog" where
  "call f s = (case f (os s) of (r, w) \<Rightarrow> (Return r, s\<lparr>os := w\<rparr>))"

definition call_blocking :: "('w \<Rightarrow> (int \<times> 'w) option) \<Rightarrow> ('w mstate, int) prog" where
  "call_blocking f s =
     (case f (os s) of None \<Rightarrow> (Block, s) | Some (r, w) \<Rightarrow> (Return r, s\<lparr>os := w\<rparr>))"

definition log_cerr :: "string \<Rightarrow> ('w mstate, unit) prog" where
  "log_cerr line = modify (\<lambda>s. s\<lparr>cerr := cerr s @ [line]\<rparr>)"

section \<open>Constructor and destructor\<close>

text \<open>A call of the constructor whose non-zero result is thrown as a \<^verbatim>\<open>std::system_error\<close>.\<close>

definition checked :: "('w \<Rightarrow> int \<times> 'w) \<Rightarrow> string \<Rightarrow> ('w mstate, unit) prog" where
  "checked f what =
     bindp (call f) (\<lambda>res. if res \<noteq> 0 then throw (System_error res System_category what) else ret ())"

text \<open>
  \<^verbatim>\<open>attr_cleanup\<close>, a \<^verbatim>\<open>unique_ptr\<close> whose deleter destroys the attribute when the constructor's
  scope is left, normally or by an exception. The deleter throws when the destruction fails;
  \<^verbatim>\<open>~unique_ptr\<close> is \<^verbatim>\<open>noexcept\<close>, so that the throw ends the process.
\<close>

definition attr_cleanup ::
    "'w pthread_api \<Rightarrow> ('w mstate, unit) prog \<Rightarrow> ('w mstate, unit) prog" where
  "attr_cleanup api body s =
     (let (r, s1) = body s; (res_destroy, w) = attr_destroy api (os s1); s2 = s1\<lparr>os := w\<rparr> in
      if is_return r \<or> is_throw r
      then (if res_destroy \<noteq> 0 then (Terminate, s2) else (r, s2))
      else (r, s1))"

definition mutex_ctor ::
    "'w pthread_api \<Rightarrow> mutex_type \<Rightarrow> robustness \<Rightarrow> ('w mstate, unit) prog" where
  "mutex_ctor api mtype rob =
     attr_cleanup api
      (bindp (checked (attr_init api) ''Failed to initialize mutex attribute'') (\<lambda>_.
       bindp (checked (attr_settype api mtype) ''Failed to set mutex type'') (\<lambda>_.
       bindp (checked (attr_setprotocol api PRIO_INHERIT) ''Failed to set mutex protocol'') (\<lambda>_.
       bindp (checked (attr_setrobust api rob) ''Failed to set mutex robustness'') (\<lambda>_.
       checked (mutex_init api) ''Failed to initialize mutex'')))))"

definition mutex_dtor :: "'w pthread_api \<Rightarrow> ('w mstate, unit) prog" where
  "mutex_dtor api =
     bindp (call (mutex_destroy api)) (\<lambda>res.
       if res \<noteq> 0 then log_cerr (''Failed to destroy mutex : '' @ strerror api res) else ret ())"

section \<open>Lock, unlock, try\_lock\<close>

text \<open>What \<^verbatim>\<open>lock\<close> and \<^verbatim>\<open>try_lock\<close> do when the previous owner died (the Linux branch).\<close>

definition make_consistent :: "'w pthread_api \<Rightarrow> tid \<Rightarrow> ('w mstate, unit) prog" where
  "make_consistent api t =
     bindp (call (mutex_consistent api t)) (\<lambda>res_consistent.
       if res_consistent \<noteq> 0
       then throw (Runtime_error (''Failed to make mutex consistent : '' @ strerror api res_consistent))
       else log_cerr
         ''Mutex owner died, but the mutex is consistent now. This shouldn't happen!'')"

definition lock :: "'w pthread_api \<Rightarrow> tid \<Rightarrow> ('w mstate, unit) prog" where
  "lock api t =
     bindp (call_blocking (mutex_lock api t)) (\<lambda>res.
       if res = 0 then ret ()
       else if res = EOWNERDEAD then make_consistent api t
       else if res = EDEADLK then throw (System_error res System_category ''Deadlock detected'')
       else throw (Runtime_error (''Failed to lock mutex : '' @ strerror api res)))"

definition unlock :: "'w pthread_api \<Rightarrow> tid \<Rightarrow> ('w mstate, unit) prog" where
  "unlock api t =
     bindp (call (mutex_unlock api t)) (\<lambda>res.
       if res \<noteq> 0 then log_cerr (''Failed to unlock mutex : '' @ strerror api res) else ret ())"

definition try_lock :: "'w pthread_api \<Rightarrow> tid \<Rightarrow> ('w mstate, bool) prog" where
  "try_lock api t =
     bindp (call (mutex_trylock api t)) (\<lambda>res.
       if res = 0 then ret True
       else if res = EBUSY then ret False
       else if res = EOWNERDEAD then bindp (make_consistent api t) (\<lambda>_. ret True)
       else if res = EDEADLK then throw (System_error res System_category ''Deadlock detected'')
       else throw (Runtime_error (''Failed to try lock mutex : '' @ strerror api res)))"

lemmas mutex_defs = lock_def unlock_def try_lock_def make_consistent_def call_def
  call_blocking_def log_cerr_def

text \<open>The operations as a template argument sees them.\<close>

record 's mutex_ops =
  op_lock :: "tid \<Rightarrow> ('s, unit) prog"
  op_try_lock :: "tid \<Rightarrow> ('s, bool) prog"
  op_unlock :: "tid \<Rightarrow> ('s, unit) prog"

definition detail_mutex :: "'w pthread_api \<Rightarrow> 'w mstate mutex_ops" where
  "detail_mutex api = \<lparr>op_lock = lock api, op_try_lock = try_lock api, op_unlock = unlock api\<rparr>"

section \<open>The contract of a lockable type\<close>

text \<open>
  The client's view: who holds the mutex, how often beyond the first time, and which states are
  usable. A usable state without an owner can be locked; one that another thread holds blocks a
  \<open>lock\<close> and turns a \<open>try_lock\<close> down; the owner's unlock undoes one lock. This is what the standard asks of
  a \<open>Lockable\<close> type.
\<close>

locale lockable =
  fixes M :: "'s mutex_ops"
    and holder :: "'s \<Rightarrow> (tid \<times> nat) option"
    and usable :: "'s \<Rightarrow> bool"
  assumes lock_free: "usable s \<Longrightarrow> holder s = None \<Longrightarrow>
      \<exists>s'. op_lock M t s = (Return (), s') \<and> usable s' \<and> holder s' = Some (t, 0)"
    and lock_other: "usable s \<Longrightarrow> holder s = Some (u, n) \<Longrightarrow> u \<noteq> t \<Longrightarrow> op_lock M t s = (Block, s)"
    and try_free: "usable s \<Longrightarrow> holder s = None \<Longrightarrow>
      \<exists>s'. op_try_lock M t s = (Return True, s') \<and> usable s' \<and> holder s' = Some (t, 0)"
    and try_other: "usable s \<Longrightarrow> holder s = Some (u, n) \<Longrightarrow> u \<noteq> t \<Longrightarrow>
      \<exists>s'. op_try_lock M t s = (Return False, s') \<and> usable s' \<and> holder s' = holder s"
    and unlock_last: "usable s \<Longrightarrow> holder s = Some (t, 0) \<Longrightarrow>
      \<exists>s'. op_unlock M t s = (Return (), s') \<and> usable s' \<and> holder s' = None"
    and unlock_inner: "usable s \<Longrightarrow> holder s = Some (t, Suc n) \<Longrightarrow>
      \<exists>s'. op_unlock M t s = (Return (), s') \<and> usable s' \<and> holder s' = Some (t, n)"

text \<open>
  What the standard leaves undefined and pthread reports: an unlock by a thread that does not hold
  the mutex, here without effect.
\<close>

locale checked_lockable = lockable M holder usable
  for M :: "'s mutex_ops" and holder :: "'s \<Rightarrow> (tid \<times> nat) option" and usable :: "'s \<Rightarrow> bool" +
  assumes unlock_foreign: "usable s \<Longrightarrow> (\<And>n. holder s \<noteq> Some (t, n)) \<Longrightarrow>
      \<exists>s'. op_unlock M t s = (Return (), s') \<and> usable s' \<and> holder s' = holder s"

text \<open>The two kinds differ in what a second lock by the owner does.\<close>

locale nonrecursive_lockable = checked_lockable M holder usable
  for M :: "'s mutex_ops" and holder :: "'s \<Rightarrow> (tid \<times> nat) option" and usable :: "'s \<Rightarrow> bool" +
  assumes lock_self_throws: "usable s \<Longrightarrow> holder s = Some (t, n) \<Longrightarrow>
      \<exists>e s'. op_lock M t s = (Throw e, s') \<and> usable s' \<and> holder s' = holder s"
    and try_self_throws: "usable s \<Longrightarrow> holder s = Some (t, n) \<Longrightarrow>
      \<exists>e s'. op_try_lock M t s = (Throw e, s') \<and> usable s' \<and> holder s' = holder s"

locale recursive_lockable = lockable M holder usable
  for M :: "'s mutex_ops" and holder :: "'s \<Rightarrow> (tid \<times> nat) option" and usable :: "'s \<Rightarrow> bool" +
  assumes lock_again: "usable s \<Longrightarrow> holder s = Some (t, n) \<Longrightarrow>
      \<exists>s'. op_lock M t s = (Return (), s') \<and> usable s' \<and> holder s' = Some (t, Suc n)"
    and try_again: "usable s \<Longrightarrow> holder s = Some (t, n) \<Longrightarrow>
      \<exists>s'. op_try_lock M t s = (Return True, s') \<and> usable s' \<and> holder s' = Some (t, Suc n)"

text \<open>
  Consequences every client shares. A call of any operation by any thread keeps the mutex usable,
  and calls of other threads leave the holder alone.
\<close>

datatype mutex_call = Call_lock tid | Call_try_lock tid | Call_unlock tid

fun caller :: "mutex_call \<Rightarrow> tid" where
  "caller (Call_lock t) = t"
| "caller (Call_try_lock t) = t"
| "caller (Call_unlock t) = t"

text \<open>The state a call leaves, and whether the call acquired the mutex.\<close>

fun exec_call :: "'s mutex_ops \<Rightarrow> mutex_call \<Rightarrow> 's \<Rightarrow> 's" where
  "exec_call M (Call_lock t) s = snd (op_lock M t s)"
| "exec_call M (Call_try_lock t) s = snd (op_try_lock M t s)"
| "exec_call M (Call_unlock t) s = snd (op_unlock M t s)"

fun acquires :: "'s mutex_ops \<Rightarrow> mutex_call \<Rightarrow> 's \<Rightarrow> bool" where
  "acquires M (Call_lock t) s = (fst (op_lock M t s) = Return ())"
| "acquires M (Call_try_lock t) s = (fst (op_try_lock M t s) = Return True)"
| "acquires M (Call_unlock t) s = False"

context checked_lockable
begin

lemma other_call:
  assumes "usable s" "holder s = Some (u, n)" "caller c \<noteq> u"
  shows "usable (exec_call M c s) \<and> holder (exec_call M c s) = Some (u, n) \<and> \<not> acquires M c s"
proof (cases c)
  case (Call_lock t)
  with assms lock_other [of s u n t] show ?thesis by simp
next
  case (Call_try_lock t)
  with assms try_other [of s u n t] show ?thesis by fastforce
next
  case (Call_unlock t)
  with assms unlock_foreign [of s t] show ?thesis by fastforce
qed

lemma other_calls:
  "usable s \<Longrightarrow> holder s = Some (u, n) \<Longrightarrow> u \<notin> caller ` set cs \<Longrightarrow>
     usable (fold (exec_call M) cs s) \<and> holder (fold (exec_call M) cs s) = Some (u, n)"
  by (induction cs arbitrary: s) (simp_all, metis other_call)

lemma unlock_usable: "usable s \<Longrightarrow> \<exists>s'. op_unlock M t s = (Return (), s') \<and> usable s'"
  by (metis nat.exhaust unlock_last unlock_inner unlock_foreign)

end

context nonrecursive_lockable
begin

lemma lock_outcome:
  assumes "usable s"
  obtains s' where "op_lock M t s = (Return (), s')" "usable s'" "holder s = None" "holder s' = Some (t, 0)"
    | "op_lock M t s = (Block, s)" "usable s" "holder s \<noteq> None"
    | e s' where "op_lock M t s = (Throw e, s')" "usable s'" "holder s' = holder s" "holder s \<noteq> None"
proof (cases "holder s")
  case None
  then show ?thesis using that lock_free [OF assms] by metis
next
  case (Some h)
  obtain u n where "holder s = Some (u, n)" using Some by (cases h) auto
  then show ?thesis
    using that lock_self_throws [OF assms] lock_other [OF assms] assms
    by (cases "u = t") (metis option.distinct(1))+
qed

lemma try_lock_outcome:
  assumes "usable s"
  obtains s' where "op_try_lock M t s = (Return True, s')" "usable s'" "holder s = None" "holder s' = Some (t, 0)"
    | s' where "op_try_lock M t s = (Return False, s')" "usable s'" "holder s' = holder s" "holder s \<noteq> None"
    | e s' where "op_try_lock M t s = (Throw e, s')" "usable s'" "holder s' = holder s" "holder s \<noteq> None"
proof (cases "holder s")
  case None
  then show ?thesis using that try_free [OF assms] by metis
next
  case (Some h)
  obtain u n where "holder s = Some (u, n)" using Some by (cases h) auto
  then show ?thesis
    using that try_self_throws [OF assms] try_other [OF assms]
    by (cases "u = t") (metis option.distinct(1))+
qed

lemma call_usable: "usable s \<Longrightarrow> usable (exec_call M c s)"
proof (cases c)
  case (Call_lock t)
  assume "usable s"
  then show ?thesis by (cases rule: lock_outcome [of s t]) (simp_all add: Call_lock)
next
  case (Call_try_lock t)
  assume "usable s"
  then show ?thesis by (cases rule: try_lock_outcome [of s t]) (simp_all add: Call_try_lock)
next
  case (Call_unlock t)
  assume "usable s"
  then show ?thesis using unlock_usable [of s t] by (auto simp: Call_unlock)
qed

end

text \<open>Repeated calls of one operation, stopping at the first that does not return.\<close>

fun repeat_prog :: "nat \<Rightarrow> ('s, unit) prog \<Rightarrow> ('s, unit) prog" where
  "repeat_prog 0 m = ret ()"
| "repeat_prog (Suc k) m = bindp m (\<lambda>_. repeat_prog k m)"

context recursive_lockable
begin

lemma lock_many:
  "usable s \<Longrightarrow> holder s = Some (t, n) \<Longrightarrow>
     \<exists>s'. repeat_prog k (op_lock M t) s = (Return (), s') \<and> usable s' \<and> holder s' = Some (t, n + k)"
proof (induction k arbitrary: s n)
  case 0
  then show ?case by simp
next
  case (Suc k)
  obtain s1 where s1: "op_lock M t s = (Return (), s1)" "usable s1" "holder s1 = Some (t, Suc n)"
    using lock_again [OF Suc.prems] by blast
  show ?case using Suc.IH [OF s1(2,3)] s1(1) by (simp add: bindp_simps(1))
qed

lemma unlock_many:
  "usable s \<Longrightarrow> holder s = Some (t, n) \<Longrightarrow>
     \<exists>s'. repeat_prog (Suc n) (op_unlock M t) s = (Return (), s') \<and> usable s' \<and> holder s' = None"
proof (induction n arbitrary: s)
  case 0
  then show ?case using unlock_last [OF 0] by (auto simp: bindp_simps)
next
  case (Suc n)
  obtain s1 where s1: "op_unlock M t s = (Return (), s1)" "usable s1" "holder s1 = Some (t, n)"
    using unlock_inner [OF Suc.prems] by blast
  show ?case
    using Suc.IH [OF s1(2,3)] s1(1)
    by (simp del: repeat_prog.simps add: repeat_prog.simps(2) [of "Suc n"] bindp_simps(1))
qed

end

section \<open>What pthread documents\<close>

text \<open>
  The states of a robust pthread mutex. After its owner died, the next lock succeeds with
  \<^verbatim>\<open>EOWNERDEAD\<close> in an inconsistent state; \<^verbatim>\<open>pthread_mutex_consistent\<close> repairs it, and an unlock
  without the repair makes the mutex unusable for good.
\<close>

datatype pm_state =
    Free
  | Held tid nat
  | Owner_dead
  | Inconsistent tid
  | Not_recoverable

locale pthread_mutex =
  fixes api :: "'w pthread_api" and view :: "'w \<Rightarrow> pm_state"
  assumes p_lock_free: "view w = Free \<Longrightarrow> \<exists>w'. mutex_lock api t w = Some (0, w') \<and> view w' = Held t 0"
    and p_lock_other: "view w = Held u n \<Longrightarrow> u \<noteq> t \<Longrightarrow> mutex_lock api t w = None"
    and p_lock_dead: "view w = Owner_dead \<Longrightarrow>
      \<exists>w'. mutex_lock api t w = Some (EOWNERDEAD, w') \<and> view w' = Inconsistent t"
    and p_try_free: "view w = Free \<Longrightarrow> \<exists>w'. mutex_trylock api t w = (0, w') \<and> view w' = Held t 0"
    and p_try_other: "view w = Held u n \<Longrightarrow> u \<noteq> t \<Longrightarrow>
      \<exists>w'. mutex_trylock api t w = (EBUSY, w') \<and> view w' = Held u n"
    and p_try_dead: "view w = Owner_dead \<Longrightarrow>
      \<exists>w'. mutex_trylock api t w = (EOWNERDEAD, w') \<and> view w' = Inconsistent t"
    and p_unlock_last: "view w = Held t 0 \<Longrightarrow> \<exists>w'. mutex_unlock api t w = (0, w') \<and> view w' = Free"
    and p_unlock_inner: "view w = Held t (Suc n) \<Longrightarrow>
      \<exists>w'. mutex_unlock api t w = (0, w') \<and> view w' = Held t n"
    and p_unlock_other: "view w \<noteq> Inconsistent t \<Longrightarrow> (\<And>n. view w \<noteq> Held t n) \<Longrightarrow>
      \<exists>w'. mutex_unlock api t w = (EPERM, w') \<and> view w' = view w"
    and p_consistent: "view w = Inconsistent t \<Longrightarrow>
      \<exists>w'. mutex_consistent api t w = (0, w') \<and> view w' = Held t 0"

locale errorcheck_mutex = pthread_mutex api view
  for api :: "'w pthread_api" and view :: "'w \<Rightarrow> pm_state" +
  assumes p_lock_self: "view w = Held t n \<Longrightarrow>
      \<exists>w'. mutex_lock api t w = Some (EDEADLK, w') \<and> view w' = Held t n"
    and p_try_self: "view w = Held t n \<Longrightarrow>
      \<exists>w'. mutex_trylock api t w = (EDEADLK, w') \<and> view w' = Held t n"

locale recursive_mutex = pthread_mutex api view
  for api :: "'w pthread_api" and view :: "'w \<Rightarrow> pm_state" +
  assumes p_lock_rec: "view w = Held t n \<Longrightarrow>
      \<exists>w'. mutex_lock api t w = Some (0, w') \<and> view w' = Held t (Suc n)"
    and p_try_rec: "view w = Held t n \<Longrightarrow>
      \<exists>w'. mutex_trylock api t w = (0, w') \<and> view w' = Held t (Suc n)"

section \<open>The wrapper is lockable\<close>

fun pm_holder :: "pm_state \<Rightarrow> (tid \<times> nat) option" where
  "pm_holder (Held t n) = Some (t, n)"
| "pm_holder _ = None"

fun pm_usable :: "pm_state \<Rightarrow> bool" where
  "pm_usable Free = True"
| "pm_usable (Held _ _) = True"
| "pm_usable Owner_dead = True"
| "pm_usable _ = False"

lemma pm_holder_Some: "pm_holder v = Some (t, n) \<longleftrightarrow> v = Held t n"
  by (cases v) auto

lemma pm_holder_None: "pm_usable v \<Longrightarrow> pm_holder v = None \<longleftrightarrow> v = Free \<or> v = Owner_dead"
  by (cases v) auto

lemma detail_mutex_simps [simp]:
  "op_lock (detail_mutex api) = lock api"
  "op_try_lock (detail_mutex api) = try_lock api"
  "op_unlock (detail_mutex api) = unlock api"
  by (simp_all add: detail_mutex_def)

text \<open>How one pthread result becomes a result of the wrapper.\<close>

lemma lock_result:
  "mutex_lock api t (os s) = Some (0, w) \<Longrightarrow> lock api t s = (Return (), s\<lparr>os := w\<rparr>)"
  "mutex_lock api t (os s) = None \<Longrightarrow> lock api t s = (Block, s)"
  "mutex_lock api t (os s) = Some (EDEADLK, w) \<Longrightarrow>
     lock api t s = (Throw (System_error EDEADLK System_category ''Deadlock detected''), s\<lparr>os := w\<rparr>)"
  "mutex_lock api t (os s) = Some (EOWNERDEAD, w) \<Longrightarrow>
     lock api t s = make_consistent api t (s\<lparr>os := w\<rparr>)"
  by (simp_all add: lock_def call_blocking_def bindp_def errno_defs)

lemma try_lock_result:
  "mutex_trylock api t (os s) = (0, w) \<Longrightarrow> try_lock api t s = (Return True, s\<lparr>os := w\<rparr>)"
  "mutex_trylock api t (os s) = (EBUSY, w) \<Longrightarrow> try_lock api t s = (Return False, s\<lparr>os := w\<rparr>)"
  "mutex_trylock api t (os s) = (EDEADLK, w) \<Longrightarrow> try_lock api t s =
     (Throw (System_error EDEADLK System_category ''Deadlock detected''), s\<lparr>os := w\<rparr>)"
  "mutex_trylock api t (os s) = (EOWNERDEAD, w) \<Longrightarrow>
     try_lock api t s = bindp (make_consistent api t) (\<lambda>_. ret True) (s\<lparr>os := w\<rparr>)"
  by (simp_all add: try_lock_def call_def bindp_def errno_defs)

lemma unlock_result:
  "mutex_unlock api t (os s) = (0, w) \<Longrightarrow> unlock api t s = (Return (), s\<lparr>os := w\<rparr>)"
  "mutex_unlock api t (os s) = (r, w) \<Longrightarrow> r \<noteq> 0 \<Longrightarrow> unlock api t s =
     (Return (), s\<lparr>os := w, cerr := cerr s @ [''Failed to unlock mutex : '' @ strerror api r]\<rparr>)"
  by (simp_all add: unlock_def call_def bindp_def log_cerr_def)

lemma make_consistent_result:
  "mutex_consistent api t (os s) = (0, w) \<Longrightarrow> make_consistent api t s =
     (Return (), s\<lparr>os := w,
        cerr := cerr s @ [''Mutex owner died, but the mutex is consistent now. This shouldn't happen!'']\<rparr>)"
  by (simp add: make_consistent_def call_def bindp_def log_cerr_def)

context pthread_mutex
begin

lemma lock_dead:
  assumes "view (os s) = Owner_dead"
  shows "\<exists>s'. lock api t s = (Return (), s') \<and> view (os s') = Held t 0 \<and>
    cerr s' = cerr s @ [''Mutex owner died, but the mutex is consistent now. This shouldn't happen!'']"
proof -
  obtain w where w: "mutex_lock api t (os s) = Some (EOWNERDEAD, w)" "view w = Inconsistent t"
    using p_lock_dead [OF assms] by blast
  obtain w' where w': "mutex_consistent api t w = (0, w')" "view w' = Held t 0"
    using p_consistent [OF w(2)] by blast
  show ?thesis using w' by (simp add: lock_result(4) [OF w(1)] make_consistent_result)
qed

lemma try_lock_dead:
  assumes "view (os s) = Owner_dead"
  shows "\<exists>s'. try_lock api t s = (Return True, s') \<and> view (os s') = Held t 0"
proof -
  obtain w where w: "mutex_trylock api t (os s) = (EOWNERDEAD, w)" "view w = Inconsistent t"
    using p_try_dead [OF assms] by blast
  obtain w' where w': "mutex_consistent api t w = (0, w')" "view w' = Held t 0"
    using p_consistent [OF w(2)] by blast
  show ?thesis using w' by (simp add: try_lock_result(4) [OF w(1)] make_consistent_result bindp_simps)
qed

lemma wrapper_checked:
  "checked_lockable (detail_mutex api) (\<lambda>s. pm_holder (view (os s))) (\<lambda>s. pm_usable (view (os s)))"
proof
  fix s :: "'w mstate" and t u :: tid and n :: nat
  assume u: "pm_usable (view (os s))"
  {
    assume "pm_holder (view (os s)) = None"
    then consider "view (os s) = Free" | "view (os s) = Owner_dead"
      using pm_holder_None [OF u] by blast
    then show "\<exists>s'. op_lock (detail_mutex api) t s = (Return (), s') \<and> pm_usable (view (os s')) \<and>
        pm_holder (view (os s')) = Some (t, 0)"
      using lock_dead p_lock_free by cases (fastforce dest: lock_result(1))+
  }
  {
    assume "pm_holder (view (os s)) = None"
    then consider "view (os s) = Free" | "view (os s) = Owner_dead"
      using pm_holder_None [OF u] by blast
    then show "\<exists>s'. op_try_lock (detail_mutex api) t s = (Return True, s') \<and>
        pm_usable (view (os s')) \<and> pm_holder (view (os s')) = Some (t, 0)"
      using try_lock_dead p_try_free by cases (fastforce dest: try_lock_result(1))+
  }
  {
    assume "pm_holder (view (os s)) = Some (u, n)" "u \<noteq> t"
    then show "op_lock (detail_mutex api) t s = (Block, s)"
      using p_lock_other by (simp add: pm_holder_Some lock_result(2))
  }
  {
    assume "pm_holder (view (os s)) = Some (u, n)" "u \<noteq> t"
    then show "\<exists>s'. op_try_lock (detail_mutex api) t s = (Return False, s') \<and>
        pm_usable (view (os s')) \<and> pm_holder (view (os s')) = pm_holder (view (os s))"
      using p_try_other by (fastforce simp: pm_holder_Some dest: try_lock_result(2))
  }
  {
    assume "pm_holder (view (os s)) = Some (t, 0)"
    then show "\<exists>s'. op_unlock (detail_mutex api) t s = (Return (), s') \<and>
        pm_usable (view (os s')) \<and> pm_holder (view (os s')) = None"
      using p_unlock_last by (fastforce simp: pm_holder_Some dest: unlock_result(1))
  }
  {
    assume "pm_holder (view (os s)) = Some (t, Suc n)"
    then show "\<exists>s'. op_unlock (detail_mutex api) t s = (Return (), s') \<and>
        pm_usable (view (os s')) \<and> pm_holder (view (os s')) = Some (t, n)"
      using p_unlock_inner by (fastforce simp: pm_holder_Some dest: unlock_result(1))
  }
  {
    assume "\<And>n. pm_holder (view (os s)) \<noteq> Some (t, n)"
    then have "\<And>n. view (os s) \<noteq> Held t n" and "view (os s) \<noteq> Inconsistent t"
      using u by (auto simp: pm_holder_Some)
    then obtain w where w: "mutex_unlock api t (os s) = (EPERM, w)" "view w = view (os s)"
      using p_unlock_other by blast
    then show "\<exists>s'. op_unlock (detail_mutex api) t s = (Return (), s') \<and>
        pm_usable (view (os s')) \<and> pm_holder (view (os s')) = pm_holder (view (os s))"
      using u by (simp add: unlock_result(2) [OF w(1)] EPERM_def)
  }
qed

lemma wrapper_lockable:
  "lockable (detail_mutex api) (\<lambda>s. pm_holder (view (os s))) (\<lambda>s. pm_usable (view (os s)))"
  using wrapper_checked by (simp add: checked_lockable_def)

end

sublocale errorcheck_mutex \<subseteq> nonrecursive_lockable "detail_mutex api"
  "\<lambda>s. pm_holder (view (os s))" "\<lambda>s. pm_usable (view (os s))"
proof (intro nonrecursive_lockable.intro wrapper_checked nonrecursive_lockable_axioms.intro)
  fix s :: "'w mstate" and t :: tid and n :: nat
  assume "pm_holder (view (os s)) = Some (t, n)"
  then have v: "view (os s) = Held t n" by (simp add: pm_holder_Some)
  show "\<exists>e s'. op_lock (detail_mutex api) t s = (Throw e, s') \<and> pm_usable (view (os s')) \<and>
      pm_holder (view (os s')) = pm_holder (view (os s))"
    using p_lock_self [OF v] v by (fastforce dest: lock_result(3))
  show "\<exists>e s'. op_try_lock (detail_mutex api) t s = (Throw e, s') \<and> pm_usable (view (os s')) \<and>
      pm_holder (view (os s')) = pm_holder (view (os s))"
    using p_try_self [OF v] v by (fastforce dest: try_lock_result(3))
qed

sublocale recursive_mutex \<subseteq> recursive_lockable "detail_mutex api"
  "\<lambda>s. pm_holder (view (os s))" "\<lambda>s. pm_usable (view (os s))"
proof (intro recursive_lockable.intro wrapper_lockable recursive_lockable_axioms.intro)
  fix s :: "'w mstate" and t :: tid and n :: nat
  assume "pm_holder (view (os s)) = Some (t, n)"
  then have v: "view (os s) = Held t n" by (simp add: pm_holder_Some)
  show "\<exists>s'. op_lock (detail_mutex api) t s = (Return (), s') \<and> pm_usable (view (os s')) \<and>
      pm_holder (view (os s')) = Some (t, Suc n)"
    using p_lock_rec [OF v] by (fastforce dest: lock_result(1))
  show "\<exists>s'. op_try_lock (detail_mutex api) t s = (Return True, s') \<and> pm_usable (view (os s')) \<and>
      pm_holder (view (os s')) = Some (t, Suc n)"
    using p_try_rec [OF v] by (fastforce dest: try_lock_result(1))
qed

section \<open>A pthread that satisfies the laws\<close>

text \<open>
  The documented behaviour of one robust mutex as functions on its state, for each of the two
  types: the laws are satisfiable, and the contracts hold of the wrapper over it.
\<close>

fun posix_lock :: "mutex_type \<Rightarrow> tid \<Rightarrow> pm_state \<Rightarrow> (int \<times> pm_state) option" where
  "posix_lock k t Free = Some (0, Held t 0)"
| "posix_lock k t (Held u n) =
     (if u \<noteq> t then None
      else case k of ERRORCHECK \<Rightarrow> Some (EDEADLK, Held u n) | RECURSIVE \<Rightarrow> Some (0, Held u (Suc n)))"
| "posix_lock k t Owner_dead = Some (EOWNERDEAD, Inconsistent t)"
| "posix_lock k t (Inconsistent u) = None"
| "posix_lock k t Not_recoverable = Some (131, Not_recoverable)"

fun posix_trylock :: "mutex_type \<Rightarrow> tid \<Rightarrow> pm_state \<Rightarrow> int \<times> pm_state" where
  "posix_trylock k t Free = (0, Held t 0)"
| "posix_trylock k t (Held u n) =
     (if u \<noteq> t then (EBUSY, Held u n)
      else case k of ERRORCHECK \<Rightarrow> (EDEADLK, Held u n) | RECURSIVE \<Rightarrow> (0, Held u (Suc n)))"
| "posix_trylock k t Owner_dead = (EOWNERDEAD, Inconsistent t)"
| "posix_trylock k t (Inconsistent u) = (EBUSY, Inconsistent u)"
| "posix_trylock k t Not_recoverable = (131, Not_recoverable)"

fun posix_unlock :: "tid \<Rightarrow> pm_state \<Rightarrow> int \<times> pm_state" where
  "posix_unlock t (Held u n) =
     (if u \<noteq> t then (EPERM, Held u n) else (0, (case n of 0 \<Rightarrow> Free | Suc k \<Rightarrow> Held u k)))"
| "posix_unlock t (Inconsistent u) =
     (if u \<noteq> t then (EPERM, Inconsistent u) else (0, Not_recoverable))"
| "posix_unlock t v = (EPERM, v)"

fun posix_consistent :: "tid \<Rightarrow> pm_state \<Rightarrow> int \<times> pm_state" where
  "posix_consistent t (Inconsistent u) = (if u = t then (0, Held t 0) else (22, Inconsistent u))"
| "posix_consistent t v = (22, v)"

definition posix_api :: "mutex_type \<Rightarrow> pm_state pthread_api" where
  "posix_api k = \<lparr>attr_init = (\<lambda>w. (0, w)), attr_settype = (\<lambda>_ w. (0, w)),
     attr_setprotocol = (\<lambda>_ w. (0, w)), attr_setrobust = (\<lambda>_ w. (0, w)),
     attr_destroy = (\<lambda>w. (0, w)), mutex_init = (\<lambda>_. (0, Free)), mutex_destroy = (\<lambda>w. (0, w)),
     mutex_lock = posix_lock k, mutex_trylock = posix_trylock k, mutex_unlock = posix_unlock,
     mutex_consistent = posix_consistent, strerror = (\<lambda>r. ''error '' @ to_string r)\<rparr>"

lemma posix_laws: "pthread_mutex (posix_api k) (\<lambda>w. w)"
proof
  fix w :: pm_state and t :: tid
  assume "w \<noteq> Inconsistent t" "\<And>n. w \<noteq> Held t n"
  then show "\<exists>w'. mutex_unlock (posix_api k) t w = (EPERM, w') \<and> w' = w"
    by (cases w) (auto simp: posix_api_def)
qed (auto simp: posix_api_def)

interpretation prio_inherit_mutex: errorcheck_mutex "posix_api ERRORCHECK" "\<lambda>w. w"
  by (intro errorcheck_mutex.intro posix_laws errorcheck_mutex_axioms.intro)
    (auto simp: posix_api_def)

interpretation prio_inherit_recursive_mutex: recursive_mutex "posix_api RECURSIVE" "\<lambda>w. w"
  by (intro recursive_mutex.intro posix_laws recursive_mutex_axioms.intro)
    (auto simp: posix_api_def)

definition mstate_of :: "pm_state \<Rightarrow> pm_state mstate" where
  "mstate_of v = \<lparr>os = v, cerr = []\<rparr>"

lemma mstate_of_simps [simp]: "os (mstate_of v) = v" "cerr (mstate_of v) = []"
  by (simp_all add: mstate_of_def)

section \<open>Properties\<close>

text \<open>The first of a list of calls that fails: its code and its message.\<close>

fun first_failure ::
    "(('w \<Rightarrow> int \<times> 'w) \<times> string) list \<Rightarrow> 'w \<Rightarrow> (int \<times> string) option \<times> 'w" where
  "first_failure [] w = (None, w)"
| "first_failure ((f, what) # fs) w =
     (case f w of (r, w') \<Rightarrow> if r \<noteq> 0 then (Some (r, what), w') else first_failure fs w')"

lemma mstate_os_os [simp]: "s\<lparr>os := w, os := w'\<rparr> = s\<lparr>os := w'\<rparr>" "s\<lparr>os := os s\<rparr> = (s :: 'w mstate)"
  by simp_all

lemma checked_first_failure:
  assumes "\<And>s. body s = (case first_failure fs (os s) of
      (None, w) \<Rightarrow> (Return (), s\<lparr>os := w\<rparr>)
    | (Some (r, m), w) \<Rightarrow> (Throw (System_error r System_category m), s\<lparr>os := w\<rparr>))"
  shows "bindp (checked f what) (\<lambda>_. body) s = (case first_failure ((f, what) # fs) (os s) of
      (None, w) \<Rightarrow> (Return (), s\<lparr>os := w\<rparr>)
    | (Some (r, m), w) \<Rightarrow> (Throw (System_error r System_category m), s\<lparr>os := w\<rparr>))"
  by (auto simp: checked_def call_def bindp_def assms split: prod.splits option.splits)

lemma checked_last:
  "checked f what s = (case first_failure [(f, what)] (os s) of
      (None, w) \<Rightarrow> (Return (), s\<lparr>os := w\<rparr>)
    | (Some (r, m), w) \<Rightarrow> (Throw (System_error r System_category m), s\<lparr>os := w\<rparr>))"
  by (auto simp: checked_def call_def bindp_def split: prod.splits)

lemma mutex_ctor_paths:
  "mutex_ctor api mtype rob s =
     (let (failure, w) = first_failure
        [(attr_init api, ''Failed to initialize mutex attribute''),
         (attr_settype api mtype, ''Failed to set mutex type''),
         (attr_setprotocol api PRIO_INHERIT, ''Failed to set mutex protocol''),
         (attr_setrobust api rob, ''Failed to set mutex robustness''),
         (mutex_init api, ''Failed to initialize mutex'')] (os s);
        (res_destroy, w') = attr_destroy api w
      in (if res_destroy \<noteq> 0 then Terminate
          else case failure of
            None \<Rightarrow> Return ()
          | Some (r, what) \<Rightarrow> Throw (System_error r System_category what),
          s\<lparr>os := w'\<rparr>))"
proof -
  note body = checked_first_failure [OF checked_first_failure [OF checked_first_failure
    [OF checked_first_failure [OF checked_last]]]]
  show ?thesis
    unfolding mutex_ctor_def attr_cleanup_def body Let_def
    by (simp only: split: prod.split option.split) (auto split: prod.split)
qed

text \<open>
  The constructor, on every path: it makes the five calls in order with the class's type and
  robustness and the priority inheritance protocol, stops at the first that fails with a
  \<^verbatim>\<open>std::system_error\<close> carrying its code and message, and destroys the attribute exactly once, after
  the last call made. When that destruction fails, the process ends instead of an exception being
  thrown.
\<close>

theorem mutex_ctor_outcome:
  "mutex_ctor api mtype rob s =
     (let (failure, w) = first_failure
        [(attr_init api, ''Failed to initialize mutex attribute''),
         (attr_settype api mtype, ''Failed to set mutex type''),
         (attr_setprotocol api PRIO_INHERIT, ''Failed to set mutex protocol''),
         (attr_setrobust api rob, ''Failed to set mutex robustness''),
         (mutex_init api, ''Failed to initialize mutex'')] (os s);
        (res_destroy, w') = attr_destroy api w
      in (if res_destroy \<noteq> 0 then Terminate
          else case failure of
            None \<Rightarrow> Return ()
          | Some (r, what) \<Rightarrow> Throw (System_error r System_category what),
          s\<lparr>os := w'\<rparr>))"
  by (rule mutex_ctor_paths)

text \<open>
  C29. Robustness: when the owner died, the next \<^verbatim>\<open>lock\<close> of any thread returns normally with the
  mutex consistent and held by that thread, and reports it on \<^verbatim>\<open>std::cerr\<close>; its \<^verbatim>\<open>unlock\<close> frees the
  mutex again, so that the death leaves no trace in the mutex.
\<close>

theorem lock_recovers_dead_owner:
  assumes "pthread_mutex api view" "view (os s) = Owner_dead"
  shows "\<exists>s1 s2. lock api t s = (Return (), s1) \<and> view (os s1) = Held t 0 \<and>
    length (cerr s1) = length (cerr s) + 1 \<and> unlock api t s1 = (Return (), s2) \<and> view (os s2) = Free"
proof -
  obtain s1 where s1: "lock api t s = (Return (), s1)" "view (os s1) = Held t 0"
      "cerr s1 = cerr s @ [''Mutex owner died, but the mutex is consistent now. This shouldn't happen!'']"
    using pthread_mutex.lock_dead [OF assms] by blast
  obtain w where w: "mutex_unlock api t (os s1) = (0, w)" "view w = Free"
    using pthread_mutex.p_unlock_last [OF assms(1) s1(2)] by blast
  show ?thesis
    using s1 w by (intro exI [of _ s1] exI [of _ "s1\<lparr>os := w\<rparr>"]) (simp add: unlock_result(1))
qed

theorem lock_recovers_dead_owner_witness:
  "pthread_mutex (posix_api ERRORCHECK) (\<lambda>w. w) \<and>
   (\<exists>s1 s2. lock (posix_api ERRORCHECK) 4 (mstate_of Owner_dead) = (Return (), s1) \<and>
     os s1 = Held 4 0 \<and> length (cerr s1) = 1 \<and>
     unlock (posix_api ERRORCHECK) 4 s1 = (Return (), s2) \<and> os s2 = Free)"
  using lock_recovers_dead_owner [OF posix_laws, of "mstate_of Owner_dead" ERRORCHECK 4] posix_laws
  by simp

text \<open>
  The error-checking mutex turns a self-deadlock into an exception: a second \<^verbatim>\<open>lock\<close> or
  \<^verbatim>\<open>try_lock\<close> by the holder throws \<^verbatim>\<open>std::system_error\<close> "Deadlock detected", and the mutex is held
  exactly as before.
\<close>

theorem relock_throws:
  assumes "errorcheck_mutex api view" "view (os s) = Held t n"
  shows "\<exists>s1 s2. lock api t s = (Throw (System_error EDEADLK System_category ''Deadlock detected''), s1) \<and>
    try_lock api t s = (Throw (System_error EDEADLK System_category ''Deadlock detected''), s2) \<and>
    view (os s1) = Held t n \<and> view (os s2) = Held t n"
proof -
  obtain w where "mutex_lock api t (os s) = Some (EDEADLK, w)" "view w = Held t n"
    using errorcheck_mutex.p_lock_self [OF assms] by blast
  moreover obtain w' where "mutex_trylock api t (os s) = (EDEADLK, w')" "view w' = Held t n"
    using errorcheck_mutex.p_try_self [OF assms] by blast
  ultimately show ?thesis by (simp add: lock_result(3) try_lock_result(3))
qed

theorem relock_throws_witness:
  "errorcheck_mutex (posix_api ERRORCHECK) (\<lambda>w. w) \<and>
   (\<exists>s1. lock (posix_api ERRORCHECK) 4 (mstate_of (Held 4 0)) =
      (Throw (System_error 35 System_category ''Deadlock detected''), s1) \<and> os s1 = Held 4 0)"
  using relock_throws [OF prio_inherit_mutex.errorcheck_mutex_axioms, of "mstate_of (Held 4 0)" 4 0]
    prio_inherit_mutex.errorcheck_mutex_axioms
  by (auto simp: EDEADLK_def)

text \<open>
  C7. Mutual exclusion: while a thread holds the mutex, no sequence of \<^verbatim>\<open>lock\<close>, \<^verbatim>\<open>try_lock\<close> and
  \<^verbatim>\<open>unlock\<close> calls by other threads takes the mutex from it, and none of their attempts to acquire
  it succeeds; an \<^verbatim>\<open>unlock\<close> by a thread that does not hold it has no effect.
\<close>

theorem mutex_exclusion:
  assumes "errorcheck_mutex api view \<or> recursive_mutex api view"
    and "view (os s) = Held u n" "u \<notin> caller ` set cs" "caller c \<noteq> u"
  shows "view (os (fold (exec_call (detail_mutex api)) cs s)) = Held u n \<and>
    \<not> acquires (detail_mutex api) c (fold (exec_call (detail_mutex api)) cs s)"
proof -
  have "checked_lockable (detail_mutex api) (\<lambda>s. pm_holder (view (os s))) (\<lambda>s. pm_usable (view (os s)))"
    using assms(1) by (auto intro!: pthread_mutex.wrapper_checked
        simp: errorcheck_mutex_def recursive_mutex_def)
  then show ?thesis
    using checked_lockable.other_calls [of _ _ _ s u n cs]
      checked_lockable.other_call [of _ _ _ "fold (exec_call (detail_mutex api)) cs s" u n c] assms(2-)
    by (fastforce simp: pm_holder_Some)
qed

theorem mutex_exclusion_witness:
  "\<not> acquires (detail_mutex (posix_api ERRORCHECK)) (Call_try_lock 2)
     (fold (exec_call (detail_mutex (posix_api ERRORCHECK)))
       [Call_lock 2, Call_try_lock 3, Call_unlock 3] (mstate_of (Held 4 0)))"
  using mutex_exclusion [of "posix_api ERRORCHECK" "\<lambda>w. w" "mstate_of (Held 4 0)" 4 0
      "[Call_lock 2, Call_try_lock 3, Call_unlock 3]" "Call_try_lock 2"]
    prio_inherit_mutex.errorcheck_mutex_axioms
  by simp

context recursive_mutex
begin

lemma wrapper_recursive:
  "recursive_lockable (detail_mutex api) (\<lambda>s. pm_holder (view (os s))) (\<lambda>s. pm_usable (view (os s)))"
  by unfold_locales

lemma balance:
  assumes "view (os s) = Free"
  shows "\<exists>s1 s2. repeat_prog (Suc k) (lock api t) s = (Return (), s1) \<and> view (os s1) = Held t k \<and>
    repeat_prog (Suc k) (unlock api t) s1 = (Return (), s2) \<and>
    pm_holder (view (os s2)) = None \<and> pm_usable (view (os s2))"
proof -
  obtain s0 where s0: "lock api t s = (Return (), s0)" "view (os s0) = Held t 0"
    using p_lock_free [OF assms] by (fastforce dest: lock_result(1))
  obtain s1 where s1: "repeat_prog k (lock api t) s0 = (Return (), s1)"
      "pm_usable (view (os s1))" "view (os s1) = Held t k"
    using recursive_lockable.lock_many [OF wrapper_recursive, of s0 t 0 k] s0(2)
    by (auto simp: pm_holder_Some)
  obtain s2 where s2: "repeat_prog (Suc k) (unlock api t) s1 = (Return (), s2)"
      "pm_usable (view (os s2))" "pm_holder (view (os s2)) = None"
    using recursive_lockable.unlock_many [OF wrapper_recursive, of s1 t k] s1(2,3)
    by (auto simp del: repeat_prog.simps)
  have "repeat_prog (Suc k) (lock api t) s = (Return (), s1)"
    using s0(1) s1(1) by (simp add: bindp_simps(1))
  with s1 s2 show ?thesis by (intro exI [of _ s1] exI [of _ s2]) (simp del: repeat_prog.simps)
qed

end

text \<open>
  The recursive mutex counts: a thread that locked a free mutex once and then \<open>k\<close> more times
  holds it \<open>k\<close> levels deep, and exactly \<open>k + 1\<close> unlocks free it.
\<close>

theorem recursive_balance:
  assumes "recursive_mutex api view" "view (os s) = Free"
  shows "\<exists>s1 s2. repeat_prog (Suc k) (lock api t) s = (Return (), s1) \<and> view (os s1) = Held t k \<and>
    repeat_prog (Suc k) (unlock api t) s1 = (Return (), s2) \<and>
    pm_holder (view (os s2)) = None \<and> pm_usable (view (os s2))"
  using recursive_mutex.balance [OF assms] .

theorem recursive_balance_witness:
  "\<exists>s1 s2. repeat_prog 3 (lock (posix_api RECURSIVE) 4) (mstate_of Free) = (Return (), s1) \<and>
     os s1 = Held 4 2 \<and> repeat_prog 3 (unlock (posix_api RECURSIVE) 4) s1 = (Return (), s2) \<and>
     pm_holder (os s2) = None \<and> pm_usable (os s2)"
  using recursive_balance [OF prio_inherit_recursive_mutex.recursive_mutex_axioms, of "mstate_of Free" 2 4]
  by (simp add: numeral_eq_Suc)

datatype pm_event = Event_call mutex_call | Event_death

fun posix_event :: "mutex_type \<Rightarrow> pm_event \<Rightarrow> pm_state mstate \<Rightarrow> pm_state mstate" where
  "posix_event k (Event_call c) s = exec_call (detail_mutex (posix_api k)) c s"
| "posix_event k Event_death s =
     (case os s of Held _ _ \<Rightarrow> s\<lparr>os := Owner_dead\<rparr> | _ \<Rightarrow> s)"

lemma posix_event_usable: "pm_usable (os s) \<Longrightarrow> pm_usable (os (posix_event ERRORCHECK e s))"
proof (cases e)
  case (Event_call c)
  assume "pm_usable (os s)"
  then show ?thesis using prio_inherit_mutex.call_usable [of s c] Event_call by simp
next
  case Event_death
  assume "pm_usable (os s)"
  then show ?thesis using Event_death by (cases "os s") simp_all
qed

text \<open>
  The wrapper keeps a robust mutex usable: no sequence of calls by any threads, interrupted
  anywhere by the death of the holder, makes the mutex unrecoverable or leaves it inconsistent.
\<close>

theorem mutex_stays_usable:
  "pm_usable (os (fold (posix_event ERRORCHECK) es (mstate_of Free)))"
proof -
  have "pm_usable (os s) \<Longrightarrow> pm_usable (os (fold (posix_event ERRORCHECK) es s))" for s
    by (induction es arbitrary: s) (simp_all add: posix_event_usable)
  then show ?thesis by simp
qed

text \<open>
  A failing \<^verbatim>\<open>pthread_mutexattr_init\<close> does not always reach the caller as the
  \<^verbatim>\<open>std::system_error\<close> the constructor throws: the deleter still runs, on an attribute that was never
  initialised, and if that destruction reports an error the process is terminated.
\<close>

theorem ctor_failure_terminates:
  assumes "attr_init api (os s) = (r, w)" "r \<noteq> 0" "attr_destroy api w = (r', w')" "r' \<noteq> 0"
  shows "fst (mutex_ctor api mtype rob s) = Terminate"
  using assms by (simp add: mutex_ctor_paths)

theorem ctor_failure_terminates_witness:
  "fst (mutex_ctor ((posix_api ERRORCHECK)\<lparr>attr_init := (\<lambda>w. (12, w)), attr_destroy := (\<lambda>w. (22, w))\<rparr>)
     ERRORCHECK ROBUST (mstate_of Free)) = Terminate"
  by (rule ctor_failure_terminates [where r = 12 and r' = 22]) simp_all

end
