(* ===== verification/Std_Mutex.thy ===== *)
theory Std_Mutex
  imports PI_Mutex
begin

text \<open>
  \<^verbatim>\<open>std::mutex\<close> and \<^verbatim>\<open>std::recursive_mutex\<close> as mutex types: the defaults of the box
  (\<^verbatim>\<open>DEFAULT_MUTEX\<close>, \<^verbatim>\<open>RECURSIVE_MUTEX\<close> in \<^verbatim>\<open>realtime_thread_safe_box.hpp\<close>) and of the goal handle
  (\<^verbatim>\<open>rt_server_goal_handle_mutex\<close>) where \<^verbatim>\<open>mutex.hpp\<close> does not exist. They satisfy the contract the
  clients are proved over, but what \<^verbatim>\<open>mutex.hpp\<close> reports is undefined for them: a second lock by
  the owner of a \<^verbatim>\<open>std::mutex\<close>, and an unlock by a thread that does not hold the mutex.
\<close>

section \<open>\<^verbatim>\<open>std::mutex\<close>\<close>

fun std_lock :: "tid \<Rightarrow> (tid std_mutex, unit) prog" where
  "std_lock t None = (Return (), Some t)"
| "std_lock t (Some u) = (if u = t then Undefined else Block, Some u)"

fun std_try_lock :: "tid \<Rightarrow> (tid std_mutex, bool) prog" where
  "std_try_lock t None = (Return True, Some t)"
| "std_try_lock t (Some u) = (if u = t then Undefined else Return False, Some u)"

definition std_unlock :: "tid \<Rightarrow> (tid std_mutex, unit) prog" where
  "std_unlock t m = (if m = Some t then (Return (), None) else (Undefined, m))"

definition std_mutex_ops :: "tid std_mutex mutex_ops" where
  "std_mutex_ops = \<lparr>op_lock = std_lock, op_try_lock = std_try_lock, op_unlock = std_unlock\<rparr>"

definition std_holder :: "tid std_mutex \<Rightarrow> (tid \<times> nat) option" where
  "std_holder = map_option (\<lambda>t. (t, 0))"

interpretation std_mutex: lockable std_mutex_ops std_holder "\<lambda>_. True"
proof
  show "op_lock std_mutex_ops t s = (Block, s)" if "std_holder s = Some (u, n)" "u \<noteq> t" for s u n t
    using that by (cases s) (simp_all add: std_mutex_ops_def std_holder_def)
  show "\<exists>s'. op_try_lock std_mutex_ops t s = (Return False, s') \<and> True \<and> std_holder s' = std_holder s"
    if "std_holder s = Some (u, n)" "u \<noteq> t" for s u n t
    using that by (cases s) (simp_all add: std_mutex_ops_def std_holder_def)
qed (auto simp: std_mutex_ops_def std_holder_def std_unlock_def)

section \<open>\<^verbatim>\<open>std::recursive_mutex\<close>\<close>

text \<open>The owner and how often it has locked the mutex beyond the first time.\<close>

type_synonym recursive_state = "(tid \<times> nat) option"

fun rec_lock :: "tid \<Rightarrow> (recursive_state, unit) prog" where
  "rec_lock t None = (Return (), Some (t, 0))"
| "rec_lock t (Some (u, n)) = (if u = t then (Return (), Some (u, Suc n)) else (Block, Some (u, n)))"

fun rec_try_lock :: "tid \<Rightarrow> (recursive_state, bool) prog" where
  "rec_try_lock t None = (Return True, Some (t, 0))"
| "rec_try_lock t (Some (u, n)) =
     (if u = t then (Return True, Some (u, Suc n)) else (Return False, Some (u, n)))"

fun rec_unlock :: "tid \<Rightarrow> (recursive_state, unit) prog" where
  "rec_unlock t None = (Undefined, None)"
| "rec_unlock t (Some (u, n)) =
     (if u = t then (Return (), (case n of 0 \<Rightarrow> None | Suc k \<Rightarrow> Some (u, k))) else (Undefined, Some (u, n)))"

definition std_recursive_ops :: "recursive_state mutex_ops" where
  "std_recursive_ops = \<lparr>op_lock = rec_lock, op_try_lock = rec_try_lock, op_unlock = rec_unlock\<rparr>"

interpretation std_recursive_mutex: recursive_lockable std_recursive_ops "\<lambda>s. s" "\<lambda>_. True"
  by unfold_locales (auto simp: std_recursive_ops_def)

text \<open>Neither reports what the pthread mutex reports.\<close>

lemma std_unreported:
  "fst (op_lock std_mutex_ops t (Some t)) = Undefined"
  "fst (op_unlock std_mutex_ops t (Some (Suc t))) = Undefined"
  "fst (op_unlock std_recursive_ops t (Some (Suc t, n))) = Undefined"
  by (simp_all add: std_mutex_ops_def std_recursive_ops_def std_unlock_def)

end
