(* ===== verification/Lock_Guard.thy ===== *)
theory Lock_Guard
  imports PI_Mutex
begin

text \<open>
  \<^verbatim>\<open>std::lock_guard\<close> and \<^verbatim>\<open>std::unique_lock\<close> with \<^verbatim>\<open>try_lock\<close> around a body, for a client that keeps
  the mutex in a part of its state, and the locale \<open>lock_client\<close> with what the guards give every
  such client: the box and the goal handle are its instances.
\<close>

definition on_part :: "('c \<Rightarrow> 's) \<Rightarrow> ('s \<Rightarrow> 'c \<Rightarrow> 'c) \<Rightarrow> ('s, 'a) prog \<Rightarrow> ('c, 'a) prog" where
  "on_part part put p c = (case p (part c) of (r, m) \<Rightarrow> (r, put m c))"

definition part_release :: "'s mutex_ops \<Rightarrow> tid \<Rightarrow> ('c \<Rightarrow> 's) \<Rightarrow> ('s \<Rightarrow> 'c \<Rightarrow> 'c) \<Rightarrow> 'c \<Rightarrow> 'c" where
  "part_release M t part put c = put (snd (op_unlock M t (part c))) c"

text \<open>\<^verbatim>\<open>lock_guard guard(mutex)\<close>; \<^verbatim>\<open>unique_lock\<close> with \<^verbatim>\<open>if (!guard.try_lock()) return failed;\<close>.\<close>

definition lock_guard ::
    "'s mutex_ops \<Rightarrow> tid \<Rightarrow> ('c \<Rightarrow> 's) \<Rightarrow> ('s \<Rightarrow> 'c \<Rightarrow> 'c) \<Rightarrow> ('c, 'a) prog \<Rightarrow> ('c, 'a) prog" where
  "lock_guard M t part put body =
     guarded (on_part part put (op_lock M t)) (part_release M t part put) body"

definition try_lock_guard ::
    "'s mutex_ops \<Rightarrow> tid \<Rightarrow> ('c \<Rightarrow> 's) \<Rightarrow> ('s \<Rightarrow> 'c \<Rightarrow> 'c) \<Rightarrow> 'a \<Rightarrow> ('c, 'a) prog \<Rightarrow> ('c, 'a) prog" where
  "try_lock_guard M t part put failed body =
     bindp (on_part part put (op_try_lock M t)) (\<lambda>locked.
       if \<not> locked then ret failed else guarded (ret ()) (part_release M t part put) body)"

text \<open>The guard when the operation on the mutex is turned down, waits or throws.\<close>

lemma guard_runs:
  "op_try_lock M t (part c) = (Return True, m) \<Longrightarrow>
     try_lock_guard M t part put failed body c = guarded (ret ()) (part_release M t part put) body (put m c)"
  "op_try_lock M t (part c) = (Return False, m) \<Longrightarrow>
     try_lock_guard M t part put failed body c = (Return failed, put m c)"
  "op_lock M t (part c) = (Block, m) \<Longrightarrow> lock_guard M t part put body c = (Block, put m c)"
  "op_lock M t (part c) = (Throw e, m) \<Longrightarrow> lock_guard M t part put body c = (Throw e, put m c)"
  "op_try_lock M t (part c) = (Throw e, m) \<Longrightarrow>
     try_lock_guard M t part put failed body c = (Throw e, put m c)"
  by (simp_all add: try_lock_guard_def lock_guard_def guarded_def bindp_def on_part_def)

text \<open>A body that, from a state, does not touch the mutex and ends normally or by an exception.\<close>

definition neutral_at :: "('s \<Rightarrow> 'c \<Rightarrow> 'c) \<Rightarrow> 'c \<Rightarrow> ('c, 'a) prog \<Rightarrow> bool" where
  "neutral_at put c body \<longleftrightarrow> (is_return (fst (body c)) \<or> is_throw (fst (body c))) \<and>
     (\<forall>m. body (put m c) = (fst (body c), put m (snd (body c))))"

definition neutral :: "('s \<Rightarrow> 'c \<Rightarrow> 'c) \<Rightarrow> ('c, 'a) prog \<Rightarrow> bool" where
  "neutral put body \<longleftrightarrow> (\<forall>c. neutral_at put c body)"

lemma neutral_at_ends:
  "neutral_at put c p \<Longrightarrow> (\<exists>x. fst (p c) = Return x) \<or> (\<exists>e. fst (p c) = Throw e)"
  unfolding neutral_at_def by (metis is_return.elims(2) is_throw.elims(2))

lemma neutral_at_put: "neutral_at put c p \<Longrightarrow> p (put m c) = (fst (p c), put m (snd (p c)))"
  by (simp add: neutral_at_def)

lemma neutral_at_bind:
  assumes "neutral_at put c p" "\<And>x. fst (p c) = Return x \<Longrightarrow> neutral_at put (snd (p c)) (q x)"
  shows "neutral_at put c (bindp p q)"
proof -
  have "(is_return (fst (bindp p q c)) \<or> is_throw (fst (bindp p q c))) \<and>
      bindp p q (put m c) = (fst (bindp p q c), put m (snd (bindp p q c)))" for m
  proof -
    obtain r c' where r: "p c = (r, c')" by fastforce
    with neutral_at_ends [OF assms(1)] consider x where "r = Return x" | e where "r = Throw e"
      by auto
    then show ?thesis
    proof cases
      case (1 x)
      with assms(2) [of x] r neutral_at_put [OF assms(1), of m] show ?thesis
        by (simp add: neutral_at_def bindp_simps)
    next
      case (2 e)
      with r neutral_at_put [OF assms(1), of m] show ?thesis by (simp add: bindp_simps)
    qed
  qed
  then show ?thesis unfolding neutral_at_def by blast
qed

lemmas neutral_defs = neutral_def neutral_at_def

lemma neutral_ret [intro]: "neutral put (ret x)"
  by (simp add: neutral_defs)

lemma neutral_throw [intro]: "neutral put (throw e)"
  by (simp add: neutral_defs)

lemma neutral_modify [intro]: "(\<And>c m. h (put m c) = put m (h c)) \<Longrightarrow> neutral put (modify h)"
  by (simp add: neutral_defs)

lemma neutral_get_state [intro]: "(\<And>c m. k (put m c) = k c) \<Longrightarrow> neutral put (get_state k)"
  by (simp add: neutral_defs)

lemma neutral_if [intro]: "neutral put p \<Longrightarrow> neutral put q \<Longrightarrow> neutral put (if b then p else q)"
  by simp

lemma neutral_bind [intro]: "neutral put p \<Longrightarrow> (\<And>x. neutral put (q x)) \<Longrightarrow> neutral put (bindp p q)"
  unfolding neutral_def by (blast intro: neutral_at_bind)

locale lock_client = lockable M holder usable
  for M :: "'s mutex_ops" and holder :: "'s \<Rightarrow> (tid \<times> nat) option" and usable :: "'s \<Rightarrow> bool" +
  fixes part :: "'c \<Rightarrow> 's" and put :: "'s \<Rightarrow> 'c \<Rightarrow> 'c"
  assumes part_put: "part (put m c) = m"
    and put_put: "put m (put n c) = put m c"
    and put_part: "put (part c) c = c"
begin

lemma guarded_neutral:
  assumes "acquire c = (Return (), put m c)" "usable m" "holder m = Some (t, 0)"
    and "neutral_at put c body"
  shows "\<exists>m'. guarded acquire (part_release M t part put) body c =
      (fst (body c), put m' (snd (body c))) \<and> usable m' \<and> holder m' = None"
proof -
  obtain m' where m': "op_unlock M t m = (Return (), m')" "usable m'" "holder m' = None"
    using unlock_last [OF assms(2,3)] by blast
  have "guarded acquire (part_release M t part put) body c = (fst (body c), put m' (snd (body c)))"
    using neutral_at_ends [OF assms(4)] neutral_at_put [OF assms(4), of m] m'
    by (auto simp: guarded_def bindp_def assms(1) part_release_def part_put put_put)
  with m' show ?thesis by blast
qed

lemma guard_free_at:
  assumes "usable (part c)" "holder (part c) = None" "neutral_at put c body"
  shows "\<exists>m'. lock_guard M t part put body c = (fst (body c), put m' (snd (body c))) \<and>
    usable m' \<and> holder m' = None"
proof -
  obtain m where m: "op_lock M t (part c) = (Return (), m)" "usable m" "holder m = Some (t, 0)"
    using lock_free [OF assms(1,2)] by blast
  show ?thesis
    unfolding lock_guard_def
    using guarded_neutral [of "on_part part put (op_lock M t)" c m t body] m assms(3)
    by (simp add: on_part_def)
qed

lemma guard_free:
  assumes "usable (part c)" "holder (part c) = None" "neutral put body"
  shows "\<exists>m'. lock_guard M t part put body c = (fst (body c), put m' (snd (body c))) \<and>
    usable m' \<and> holder m' = None"
  using assms by (intro guard_free_at) (simp_all add: neutral_def)

lemma neutral_at_put_state: "neutral put body \<Longrightarrow> neutral_at put (put m c) body"
  by (simp add: neutral_def)

lemma try_guard_free:
  assumes "usable (part c)" "holder (part c) = None" "neutral put body"
  shows "\<exists>m'. try_lock_guard M t part put failed body c = (fst (body c), put m' (snd (body c))) \<and>
    usable m' \<and> holder m' = None"
proof -
  obtain m where m: "op_try_lock M t (part c) = (Return True, m)" "usable m" "holder m = Some (t, 0)"
    using try_free [OF assms(1,2)] by blast
  show ?thesis
    using guarded_neutral [of "ret ()" "put m c" m t body] m neutral_at_put_state [OF assms(3), of m c] assms(3)
      neutral_at_put [of put c body m]
    by (simp add: guard_runs(1) [where part = part, OF m(1)] put_put neutral_def)
qed

lemma guard_other:
  assumes "usable (part c)" "holder (part c) = Some (u, n)" "u \<noteq> t"
  shows "lock_guard M t part put body c = (Block, c)"
  using lock_other [OF assms] by (simp add: guard_runs(3) put_part)

lemma try_guard_other:
  assumes "usable (part c)" "holder (part c) = Some (u, n)" "u \<noteq> t"
  shows "\<exists>m'. try_lock_guard M t part put failed body c = (Return failed, put m' c) \<and>
    usable m' \<and> holder m' = Some (u, n)"
proof -
  obtain m where "op_try_lock M t (part c) = (Return False, m)" "usable m" "holder m = holder (part c)"
    using try_other [OF assms] by blast
  then show ?thesis using assms(2) by (auto simp: guard_runs(2))
qed

end

end
