(* ===== verification/Thread_Safe_Box.thy ===== *)
theory Thread_Safe_Box
  imports Lock_Guard Std_Mutex
begin

text \<open>
  \<^verbatim>\<open>RealtimeThreadSafeBox<T, mutex_type>\<close> (\<^verbatim>\<open>realtime_thread_safe_box.hpp\<close>): a value behind a mutex
  whose type is a template argument, here a record of lock operations that satisfies the contract
  \<open>lockable\<close>. The first part gives each member function as a program that runs alone from a given
  state of the mutex; the second part interleaves the functions of any number of threads at their
  lock operations and at the beginning and end of every write.
\<close>

section \<open>The box and its member functions\<close>

text \<open>
  \<^verbatim>\<open>value_\<close>, \<^verbatim>\<open>lock_\<close>, and the variables that the caller's callbacks capture. A callback that
  takes \<^verbatim>\<open>T &\<close> gives the new value, the new captures and the exception it leaves by, if any; one
  that takes \<^verbatim>\<open>const T &\<close> leaves the value alone. \<open>None\<close> is an empty \<^verbatim>\<open>std::function\<close>.
\<close>

record ('s, 'v, 'u) box =
  val :: 'v
  lck :: 's
  captured :: 'u

type_synonym ('v, 'u) callback = "'v \<Rightarrow> 'u \<Rightarrow> 'v \<times> 'u \<times> exn option"
type_synonym ('v, 'u) const_callback = "'v \<Rightarrow> 'u \<Rightarrow> 'u \<times> exn option"

definition box_ctor :: "'s \<Rightarrow> 'u \<Rightarrow> 'v \<Rightarrow> ('s, 'v, 'u) box" where
  "box_ctor fresh u init = \<lparr>val = init, lck = fresh, captured = u\<rparr>"

abbreviation put_lck :: "'s \<Rightarrow> ('s, 'v, 'u) box \<Rightarrow> ('s, 'v, 'u) box" where
  "put_lck m b \<equiv> b\<lparr>lck := m\<rparr>"

text \<open>
  \<^verbatim>\<open>std::lock_guard guard(lock_)\<close> around a body, and \<^verbatim>\<open>unique_lock(lock_, defer_lock)\<close> with
  \<^verbatim>\<open>if (!guard.try_lock()) return failed;\<close> before it.
\<close>

definition with_lock ::
    "'s mutex_ops \<Rightarrow> tid \<Rightarrow> (('s, 'v, 'u) box, 'a) prog \<Rightarrow> (('s, 'v, 'u) box, 'a) prog" where
  "with_lock M t body = lock_guard M t lck put_lck body"

definition with_try_lock ::
    "'s mutex_ops \<Rightarrow> tid \<Rightarrow> 'a \<Rightarrow> (('s, 'v, 'u) box, 'a) prog \<Rightarrow> (('s, 'v, 'u) box, 'a) prog" where
  "with_try_lock M t failed body = try_lock_guard M t lck put_lck failed body"

definition run_callback :: "('v, 'u) callback option \<Rightarrow> (('s, 'v, 'u) box, unit) prog" where
  "run_callback func b =
     (case func of
        None \<Rightarrow> (Throw Bad_function_call, b)
      | Some f \<Rightarrow> (case f (val b) (captured b) of (v, u, e) \<Rightarrow>
          ((case e of None \<Rightarrow> Return () | Some e \<Rightarrow> Throw e), b\<lparr>val := v, captured := u\<rparr>)))"

definition run_const_callback ::
    "('v, 'u) const_callback option \<Rightarrow> (('s, 'v, 'u) box, unit) prog" where
  "run_const_callback func = run_callback (map_option (\<lambda>f v u. (v, f v u)) func)"

definition try_set :: "'s mutex_ops \<Rightarrow> tid \<Rightarrow> 'v \<Rightarrow> (('s, 'v, 'u) box, bool) prog" where
  "try_set M t v = with_try_lock M t False (bindp (modify (val_update (\<lambda>_. v))) (\<lambda>_. ret True))"

definition try_set_func ::
    "'s mutex_ops \<Rightarrow> tid \<Rightarrow> ('v, 'u) callback option \<Rightarrow> (('s, 'v, 'u) box, bool) prog" where
  "try_set_func M t func = with_try_lock M t False (bindp (run_callback func) (\<lambda>_. ret True))"

definition try_get :: "'s mutex_ops \<Rightarrow> tid \<Rightarrow> (('s, 'v, 'u) box, 'v option) prog" where
  "try_get M t = with_try_lock M t None (bindp (get_state val) (\<lambda>v. ret (Some v)))"

definition try_get_func ::
    "'s mutex_ops \<Rightarrow> tid \<Rightarrow> ('v, 'u) const_callback option \<Rightarrow> (('s, 'v, 'u) box, bool) prog" where
  "try_get_func M t func = with_try_lock M t False (bindp (run_const_callback func) (\<lambda>_. ret True))"

definition set_val :: "'s mutex_ops \<Rightarrow> tid \<Rightarrow> 'v \<Rightarrow> (('s, 'v, 'u) box, unit) prog" where
  "set_val M t v = with_lock M t (modify (val_update (\<lambda>_. v)))"

definition set_func ::
    "'s mutex_ops \<Rightarrow> tid \<Rightarrow> ('v, 'u) callback \<Rightarrow> (('s, 'v, 'u) box, unit) prog" where
  "set_func M t func = with_lock M t (run_callback (Some func))"

text \<open>\<^verbatim>\<open>set(nullptr)\<close> of a pointer-valued box; \<open>None\<close> is the null pointer.\<close>

definition set_null :: "'s mutex_ops \<Rightarrow> tid \<Rightarrow> (('s, 'p option, 'u) box, unit) prog" where
  "set_null M t = with_lock M t (modify (val_update (\<lambda>_. None)))"

text \<open>
  The overload that takes their place on Windows, for every \<^verbatim>\<open>std::function\<close>: \<open>null\<close> is the null
  pointer if \<^verbatim>\<open>T\<close> is a pointer type, which an empty function then stands for.
\<close>

definition set_std_func ::
    "'s mutex_ops \<Rightarrow> tid \<Rightarrow> 'v option \<Rightarrow> ('v, 'u) callback option \<Rightarrow> (('s, 'v, 'u) box, unit) prog" where
  "set_std_func M t null func =
     with_lock M t
       (if func = None
        then (case null of Some p \<Rightarrow> modify (val_update (\<lambda>_. p)) | None \<Rightarrow> run_callback func)
        else run_callback func)"

definition get_val :: "'s mutex_ops \<Rightarrow> tid \<Rightarrow> (('s, 'v, 'u) box, 'v) prog" where
  "get_val M t = with_lock M t (get_state val)"

definition get_func ::
    "'s mutex_ops \<Rightarrow> tid \<Rightarrow> ('v, 'u) const_callback option \<Rightarrow> (('s, 'v, 'u) box, unit) prog" where
  "get_func M t func = with_lock M t (run_const_callback func)"

text \<open>\<^verbatim>\<open>get(T & in)\<close> writes the value to a variable of the caller, here among the captures.\<close>

definition get_into ::
    "'s mutex_ops \<Rightarrow> tid \<Rightarrow> ('v \<Rightarrow> 'u \<Rightarrow> 'u) \<Rightarrow> (('s, 'v, 'u) box, unit) prog" where
  "get_into M t store = with_lock M t (modify (\<lambda>b. b\<lparr>captured := store (val b) (captured b)\<rparr>))"

text \<open>The assignment from \<^verbatim>\<open>T\<close> and the two conversions.\<close>

definition assign_val :: "'s mutex_ops \<Rightarrow> tid \<Rightarrow> 'v \<Rightarrow> (('s, 'v, 'u) box, unit) prog" where
  "assign_val M t v = set_val M t v"

definition to_val :: "'s mutex_ops \<Rightarrow> tid \<Rightarrow> (('s, 'v, 'u) box, 'v) prog" where
  "to_val M t = get_val M t"

text \<open>Direct access to the mutex.\<close>

definition get_mutex :: "('s, 'v, 'u) box \<Rightarrow> 's" where
  "get_mutex b = lck b"

definition to_optional :: "'s mutex_ops \<Rightarrow> tid \<Rightarrow> (('s, 'v, 'u) box, 'v option) prog" where
  "to_optional M t = try_get M t"

lemmas box_defs = try_set_def try_set_func_def try_get_def try_get_func_def set_val_def
  set_func_def set_null_def get_val_def get_func_def get_into_def assign_val_def to_val_def
  to_optional_def

section \<open>Copying and assigning boxes\<close>

text \<open>
  Boxes live at addresses, so that a box can be assigned to itself. The copy constructor locks the
  source; \<open>moved\<close> is what moving leaves behind in the source (the identity when copying).
\<close>


type_synonym ('s, 'v, 'u) boxes = "addr \<Rightarrow> ('s, 'v, 'u) box"

definition at_box :: "addr \<Rightarrow> (('s, 'v, 'u) box, 'a) prog \<Rightarrow> (('s, 'v, 'u) boxes, 'a) prog" where
  "at_box a p bs = (case p (bs a) of (r, b) \<Rightarrow> (r, bs(a := b)))"

definition copy_ctor ::
    "'s mutex_ops \<Rightarrow> tid \<Rightarrow> ('v \<Rightarrow> 'v) \<Rightarrow> 's \<Rightarrow> 'u \<Rightarrow> (('s, 'v, 'u) box, ('s, 'v, 'u) box) prog" where
  "copy_ctor M t moved fresh u =
     with_lock M t (bindp (get_state val) (\<lambda>v.
       bindp (modify (val_update moved)) (\<lambda>_. ret (box_ctor fresh u v))))"

text \<open>\<^verbatim>\<open>operator=\<close>: lock the other box, then this one, and copy.\<close>

definition assign_box ::
    "'s mutex_ops \<Rightarrow> tid \<Rightarrow> ('v \<Rightarrow> 'v) \<Rightarrow> addr \<Rightarrow> addr \<Rightarrow> (('s, 'v, 'u) boxes, unit) prog" where
  "assign_box M t moved self other =
     (if other = self then ret ()
      else guarded (at_box other (on_part lck put_lck (op_lock M t)))
         (\<lambda>bs. bs(other := part_release M t lck put_lck (bs other)))
       (guarded (at_box self (on_part lck put_lck (op_lock M t)))
         (\<lambda>bs. bs(self := part_release M t lck put_lck (bs self)))
         (modify (\<lambda>bs. bs(self := (bs self)\<lparr>val := val (bs other)\<rparr>,
                           other := (bs other)\<lparr>val := moved (val (bs other))\<rparr>)))))"

section \<open>One member function at a time\<close>

lemma run_callback_cases:
  "(\<exists>b'. run_callback func b = (Return (), b')) \<or> (\<exists>e b'. run_callback func b = (Throw e, b'))"
  by (auto simp: run_callback_def split: option.split prod.split)

lemma run_callback_neutral [intro]: "neutral put_lck (run_callback func)"
  by (auto simp: neutral_defs run_callback_def split: option.splits prod.splits)

lemma box_bodies [intro]:
  "neutral put_lck (modify (val_update f))"
  "neutral put_lck (get_state val)"
  "neutral put_lck (run_const_callback fc)"
  "neutral put_lck (modify (\<lambda>b. b\<lparr>captured := store (val b) (captured b)\<rparr>))"
  by (auto simp: run_const_callback_def)

lemma box_client: "lockable M holder usable \<Longrightarrow> lock_client M holder usable lck put_lck"
  by (simp add: lock_client_def lock_client_axioms_def)

interpretation prio_inherit_box: lock_client "detail_mutex (posix_api ERRORCHECK)"
    "\<lambda>s. pm_holder (os s)" "\<lambda>s. pm_usable (os s)" lck put_lck
  by (rule box_client [OF prio_inherit_mutex.lockable_axioms])

interpretation std_box: lock_client std_mutex_ops std_holder "\<lambda>_. True" lck put_lck
  by (rule box_client [OF std_mutex.lockable_axioms])

interpretation std_recursive_box: lock_client std_recursive_ops "\<lambda>s. s" "\<lambda>_. True" lck put_lck
  by (rule box_client [OF std_recursive_mutex.lockable_axioms])

lemma with_lock_free:
  assumes "lockable M holder usable" "usable (lck b)" "holder (lck b) = None" "neutral put_lck body"
  shows "\<exists>m'. with_lock M t body b = (fst (body b), (snd (body b))\<lparr>lck := m'\<rparr>) \<and>
    usable m' \<and> holder m' = None"
  unfolding with_lock_def by (rule lock_client.guard_free [OF box_client [OF assms(1)] assms(2-4)])

lemma with_try_lock_free:
  assumes "lockable M holder usable" "usable (lck b)" "holder (lck b) = None" "neutral put_lck body"
  shows "\<exists>m'. with_try_lock M t failed body b = (fst (body b), (snd (body b))\<lparr>lck := m'\<rparr>) \<and>
    usable m' \<and> holder m' = None"
  unfolding with_try_lock_def
  by (rule lock_client.try_guard_free [OF box_client [OF assms(1)] assms(2-4)])

lemma with_lock_other:
  assumes "lockable M holder usable" "usable (lck b)" "holder (lck b) = Some (u, n)" "u \<noteq> t"
  shows "with_lock M t body b = (Block, b)"
  unfolding with_lock_def by (rule lock_client.guard_other [OF box_client [OF assms(1)] assms(2-4)])

lemma with_try_lock_other:
  assumes "lockable M holder usable" "usable (lck b)" "holder (lck b) = Some (u, n)" "u \<noteq> t"
  shows "\<exists>m'. with_try_lock M t failed body b = (Return failed, b\<lparr>lck := m'\<rparr>) \<and>
    usable m' \<and> holder m' = Some (u, n)"
  unfolding with_try_lock_def
  by (rule lock_client.try_guard_other [OF box_client [OF assms(1)] assms(2-4)])

text \<open>
  C35. Blocking access to a box nobody holds: \<^verbatim>\<open>set\<close> followed by \<^verbatim>\<open>get\<close>, by the conversion to
  \<^verbatim>\<open>T\<close> or by \<^verbatim>\<open>get(T &)\<close>, from any threads, gives the value that was set, and every call leaves the
  mutex free.
\<close>

theorem box_set_get:
  assumes "lockable M holder usable" "usable (lck b)" "holder (lck b) = None"
  shows "\<exists>b1 b2 b3. set_val M t v b = (Return (), b1) \<and> val b1 = v \<and> captured b1 = captured b \<and>
    get_val M u b1 = (Return v, b2) \<and> val b2 = v \<and> to_val M u b1 = (Return v, b2) \<and>
    get_into M u store b2 = (Return (), b3) \<and> captured b3 = store v (captured b) \<and>
    holder (lck b1) = None \<and> holder (lck b2) = None \<and> holder (lck b3) = None \<and> usable (lck b3)"
proof -
  note free = with_lock_free [OF assms(1)]
  obtain m1 where 1: "set_val M t v b = (Return (), b\<lparr>val := v, lck := m1\<rparr>)" "usable m1" "holder m1 = None"
    using free [OF assms(2,3), of "modify (val_update (\<lambda>_. v))" t] by (auto simp: set_val_def)
  define b1 where "b1 = b\<lparr>val := v, lck := m1\<rparr>"
  obtain m2 where 2: "get_val M u b1 = (Return v, b1\<lparr>lck := m2\<rparr>)" "usable m2" "holder m2 = None"
    using free [of b1 "get_state val" u] 1 by (auto simp: get_val_def b1_def)
  define b2 where "b2 = b1\<lparr>lck := m2\<rparr>"
  obtain m3 where 3: "get_into M u store b2 = (Return (), b2\<lparr>captured := store v (captured b), lck := m3\<rparr>)"
      "usable m3" "holder m3 = None"
    using free [of b2 "modify (\<lambda>b. b\<lparr>captured := store (val b) (captured b)\<rparr>)" u] 2
    by (auto simp: get_into_def b2_def b1_def)
  show ?thesis
    using 1 2 3
    by (intro exI [of _ b1] exI [of _ b2] exI [of _ "b2\<lparr>captured := store v (captured b), lck := m3\<rparr>"])
      (simp add: b1_def b2_def to_val_def)
qed


lemma try_free_outcomes:
  assumes "lockable M holder usable" "usable (lck b)" "holder (lck b) = None"
  shows "\<exists>m. try_set M t v b = (Return True, b\<lparr>val := v, lck := m\<rparr>) \<and> holder m = None"
    and "\<exists>m. try_get M t b = (Return (Some (val b)), b\<lparr>lck := m\<rparr>) \<and> holder m = None"
  using with_try_lock_free [OF assms, of "bindp (modify (val_update (\<lambda>_. v))) (\<lambda>_. ret True)" t False]
    with_try_lock_free [OF assms, of "bindp (get_state val) (\<lambda>v. ret (Some v))" t None]
  by (auto simp: try_set_def try_get_def neutral_defs)

text \<open>
  The \<^verbatim>\<open>try_\<close> functions never wait. While another thread holds the box, each of them
  reports failure and leaves the value, the captured variables and the holder alone, whereas the
  blocking ones wait; on a free box each of them succeeds as its blocking counterpart would.
\<close>

theorem box_try_contract:
  assumes "lockable M holder usable" "usable (lck b)"
    and "holder (lck b) = None \<or> holder (lck b) = Some (u, n) \<and> u \<noteq> t"
  shows "\<exists>m1 m2. try_set M t v b =
      (Return (holder (lck b) = None),
       b\<lparr>val := (if holder (lck b) = None then v else val b), lck := m1\<rparr>) \<and>
    try_get M t b = (Return (if holder (lck b) = None then Some (val b) else None), b\<lparr>lck := m2\<rparr>) \<and>
    holder m1 = holder (lck b) \<and> holder m2 = holder (lck b) \<and>
    (fst (set_val M t v b) = Block) = (holder (lck b) \<noteq> None) \<and>
    (fst (get_val M t b) = Block) = (holder (lck b) \<noteq> None)"
proof (cases "holder (lck b)")
  case None
  have "\<exists>m. set_val M t v b = (Return (), b\<lparr>val := v, lck := m\<rparr>)"
      "\<exists>m. get_val M t b = (Return (val b), b\<lparr>lck := m\<rparr>)"
    using with_lock_free [OF assms(1,2) None, of "modify (val_update (\<lambda>_. v))" t]
      with_lock_free [OF assms(1,2) None, of "get_state val" t]
    by (auto simp: set_val_def get_val_def)
  then show ?thesis using try_free_outcomes(1) [OF assms(1,2) None, of t v]
      try_free_outcomes(2) [OF assms(1,2) None, of t] None by fastforce
next
  case (Some h)
  then have h: "holder (lck b) = Some (u, n)" "u \<noteq> t" using assms(3) by auto
  obtain m1 where "try_set M t v b = (Return False, b\<lparr>lck := m1\<rparr>)" "holder m1 = Some (u, n)"
    using with_try_lock_other [OF assms(1,2) h] by (metis try_set_def)
  moreover obtain m2 where "try_get M t b = (Return None, b\<lparr>lck := m2\<rparr>)" "holder m2 = Some (u, n)"
    using with_try_lock_other [OF assms(1,2) h] by (metis try_get_def)
  ultimately show ?thesis
    using h by (auto simp: set_val_def get_val_def with_lock_other [OF assms(1,2) h])
qed

text \<open>The wrapper over the reference pthread, and a box over it.\<close>

abbreviation ec_ops :: "pm_state mstate mutex_ops" where
  "ec_ops \<equiv> detail_mutex (posix_api ERRORCHECK)"

abbreviation rec_ops :: "pm_state mstate mutex_ops" where
  "rec_ops \<equiv> detail_mutex (posix_api RECURSIVE)"

abbreviation ms_holder :: "pm_state mstate \<Rightarrow> (tid \<times> nat) option" where
  "ms_holder s \<equiv> pm_holder (os s)"

abbreviation ms_usable :: "pm_state mstate \<Rightarrow> bool" where
  "ms_usable s \<equiv> pm_usable (os s)"

definition sample_box :: "pm_state \<Rightarrow> int \<Rightarrow> (pm_state mstate, int, int) box" where
  "sample_box m v = \<lparr>val = v, lck = mstate_of m, captured = 0\<rparr>"

lemma sample_box_simps [simp]:
  "val (sample_box m v) = v" "lck (sample_box m v) = mstate_of m" "captured (sample_box m v) = 0"
  by (simp_all add: sample_box_def)

theorem box_set_get_witness:
  "\<exists>b1 b2. set_val ec_ops 1 7 (sample_box Free 3) = (Return (), b1) \<and>
     get_val ec_ops 2 b1 = (Return 7, b2) \<and> ms_holder (lck b2) = None"
  using box_set_get [OF prio_inherit_mutex.lockable_axioms, of "sample_box Free 3" 1 7 2 "\<lambda>v _. v"]
  by fastforce

theorem box_try_contract_witness:
  "\<exists>m1. try_set ec_ops 1 7 (sample_box (Held 2 0) 3) =
     (Return False, (sample_box (Held 2 0) 3)\<lparr>val := 3, lck := m1\<rparr>) \<and> ms_holder m1 = Some (2, 0)"
  using box_try_contract [OF prio_inherit_mutex.lockable_axioms, of "sample_box (Held 2 0) 3" 2 0 1 7]
  by auto

text \<open>
  Exception safety of the accesses through a function, blocking or not: whatever the
  callback does, the call ends as the callback ends (a normal return, the callback's exception, or
  \<^verbatim>\<open>std::bad_function_call\<close> for an empty one), the value and the captured variables are exactly as
  the callback left them, and the mutex is free again.
\<close>

theorem box_callback_safe:
  assumes "lockable M holder usable" "usable (lck b)" "holder (lck b) = None"
  shows "\<exists>m1 m2 m3. set_func M t f b =
      (fst (run_callback (Some f) b), (snd (run_callback (Some f) b))\<lparr>lck := m1\<rparr>) \<and>
    try_set_func M t func b =
      (fst (bindp (run_callback func) (\<lambda>_. ret True) b), (snd (run_callback func b))\<lparr>lck := m2\<rparr>) \<and>
    get_func M t fc b =
      (fst (run_const_callback fc b), (snd (run_const_callback fc b))\<lparr>lck := m3\<rparr>) \<and>
    val (snd (run_const_callback fc b)) = val b \<and>
    holder m1 = None \<and> holder m2 = None \<and> holder m3 = None \<and>
    usable m1 \<and> usable m2 \<and> usable m3"
proof -
  note free = with_lock_free [OF assms]
  note tries = with_try_lock_free [OF assms]
  have "snd (bindp (run_callback func) (\<lambda>_. ret True) b) = snd (run_callback func b)"
    using run_callback_cases [of func b] by (auto simp: bindp_simps)
  moreover have "val (snd (run_const_callback fc b)) = val b"
    by (auto simp: run_const_callback_def run_callback_def split: option.split prod.split)
  ultimately show ?thesis
    using free [of "run_callback (Some f)" t] free [of "run_const_callback fc" t]
      tries [of "bindp (run_callback func) (\<lambda>_. ret True)" t False]
    by (auto simp: set_func_def get_func_def try_set_func_def run_callback_neutral box_bodies
        neutral_bind neutral_ret)
qed

theorem box_callback_safe_witness:
  "\<exists>m. set_func ec_ops 1 (\<lambda>v u. (v + 1, u + v, Some (User_exn 5))) (sample_box Free 3) =
     (Throw (User_exn 5), (sample_box Free 3)\<lparr>val := 4, captured := 3, lck := m\<rparr>) \<and> ms_holder m = None"
  using box_callback_safe [OF prio_inherit_mutex.lockable_axioms, of "sample_box Free 3" 1
      "\<lambda>v u. (v + 1, u + v, Some (User_exn 5))" None None]
  by (auto simp: run_callback_def sample_box_def)

lemma reentrant_throws:
  assumes "nonrecursive_lockable M holder usable" "usable (lck b)" "holder (lck b) = Some (t, n)"
  shows "\<exists>e m. set_val M t v b = (Throw e, b\<lparr>lck := m\<rparr>) \<and> get_val M t b = (Throw e, b\<lparr>lck := m\<rparr>) \<and>
    usable m \<and> holder m = Some (t, n)"
  using nonrecursive_lockable.lock_self_throws [OF assms] assms(3)
  by (fastforce simp: set_val_def get_val_def with_lock_def guard_runs)

lemma reentrant_nests:
  assumes "recursive_lockable M holder usable" "usable (lck b)" "holder (lck b) = Some (t, n)"
  shows "\<exists>m. set_val M t v b = (Return (), b\<lparr>val := v, lck := m\<rparr>) \<and> usable m \<and> holder m = Some (t, n)"
proof -
  obtain m where m: "op_lock M t (lck b) = (Return (), m)" "usable m" "holder m = Some (t, Suc n)"
    using recursive_lockable.lock_again [OF assms] by blast
  have "lockable M holder usable" using assms(1) by (simp add: recursive_lockable_def)
  then obtain m' where "op_unlock M t m = (Return (), m')" "usable m'" "holder m' = Some (t, n)"
    using lockable.unlock_inner m(2,3) by metis
  with m show ?thesis
    by (auto simp: set_val_def with_lock_def lock_guard_def guarded_def bindp_def
        on_part_def part_release_def)
qed

text \<open>
  The overload for Windows does what the two it replaces do: a function is called as by
  \<^verbatim>\<open>set(F &&)\<close>, and for a pointer type an empty one is \<^verbatim>\<open>set(nullptr)\<close>; for any other type an empty
  function throws, with the mutex free again.
\<close>

lemma set_std_func_agrees:
  assumes "lockable M holder usable" "usable (lck b)" "holder (lck b) = None"
  shows "set_std_func M t null (Some f) b = set_func M t f b"
    and "set_std_func M t (Some None) None c = set_null M t c"
    and "\<exists>m. set_std_func M t None None b = (Throw Bad_function_call, b\<lparr>lck := m\<rparr>) \<and> usable m \<and> holder m = None"
  using with_lock_free [OF assms run_callback_neutral, of t None]
  by (auto simp: set_std_func_def set_func_def set_null_def run_callback_def)

text \<open>
  Re-entrance, a callback that calls the box it runs in: with the error-checking mutex
  \<^verbatim>\<open>set\<close> and \<^verbatim>\<open>get\<close> throw and nothing changes, with the recursive one \<^verbatim>\<open>set\<close> goes through and the
  mutex is held as deep as before. Neither blocks on itself.
\<close>

theorem box_reentrance:
  assumes "nonrecursive_lockable M holder usable" "usable (lck b)" "holder (lck b) = Some (t, n)"
    and "recursive_lockable R rholder rusable" "rusable (lck c)" "rholder (lck c) = Some (t, n)"
  shows "(\<exists>e m. set_val M t v b = (Throw e, b\<lparr>lck := m\<rparr>) \<and> get_val M t b = (Throw e, b\<lparr>lck := m\<rparr>) \<and>
      holder m = Some (t, n)) \<and>
    (\<exists>m. set_val R t v c = (Return (), c\<lparr>val := v, lck := m\<rparr>) \<and> rholder m = Some (t, n))"
  using reentrant_throws [OF assms(1-3)] reentrant_nests [OF assms(4-6)] by blast

theorem box_reentrance_witness:
  "(\<exists>e m. set_val ec_ops 1 9 (sample_box (Held 1 0) 3) = (Throw e, (sample_box (Held 1 0) 3)\<lparr>lck := m\<rparr>) \<and>
      ms_holder m = Some (1, 0)) \<and>
   (\<exists>m. set_val rec_ops 1 9 (sample_box (Held 1 0) 3) =
      (Return (), (sample_box (Held 1 0) 3)\<lparr>val := 9, lck := m\<rparr>) \<and> ms_holder m = Some (1, 0))"
  using box_reentrance [OF prio_inherit_mutex.nonrecursive_lockable_axioms, of "sample_box (Held 1 0) 3" 1 0
      rec_ops _ _ "sample_box (Held 1 0) 3" 9]
    prio_inherit_recursive_mutex.recursive_lockable_axioms
  by fastforce

section \<open>Assignment between boxes\<close>

lemma assign_box_free:
  assumes "lockable M holder usable" "self \<noteq> other"
    and "usable (lck (bs self))" "holder (lck (bs self)) = None"
    and "usable (lck (bs other))" "holder (lck (bs other)) = None"
  shows "\<exists>bs'. assign_box M t moved self other bs = (Return (), bs') \<and>
    val (bs' self) = val (bs other) \<and> val (bs' other) = moved (val (bs other)) \<and>
    holder (lck (bs' self)) = None \<and> holder (lck (bs' other)) = None \<and>
    (\<forall>a. a \<noteq> self \<and> a \<noteq> other \<longrightarrow> bs' a = bs a)"
proof -
  obtain m1 where m1: "op_lock M t (lck (bs self)) = (Return (), m1)" "usable m1" "holder m1 = Some (t, 0)"
    using lockable.lock_free [OF assms(1,3,4)] by blast
  obtain m2 where m2: "op_lock M t (lck (bs other)) = (Return (), m2)" "usable m2" "holder m2 = Some (t, 0)"
    using lockable.lock_free [OF assms(1,5,6)] by blast
  obtain u1 where u1: "op_unlock M t m1 = (Return (), u1)" "usable u1" "holder u1 = None"
    using lockable.unlock_last [OF assms(1) m1(2,3)] by blast
  obtain u2 where u2: "op_unlock M t m2 = (Return (), u2)" "usable u2" "holder u2 = None"
    using lockable.unlock_last [OF assms(1) m2(2,3)] by blast
  show ?thesis
    using m1 m2 u1 u2 assms(2)
    by (simp add: assign_box_def guarded_def bindp_def at_box_def on_part_def part_release_def)
qed

text \<open>
  \<^verbatim>\<open>operator=\<close> of two boxes that nobody holds copies the other box's value (or moves it, leaving
  \<open>moved\<close> behind) and frees both mutexes; assigning a box to itself touches nothing, not even the
  mutex, so that it cannot deadlock.
\<close>

theorem box_assign:
  assumes "lockable M holder usable" "self \<noteq> other"
    and "usable (lck (bs self))" "holder (lck (bs self)) = None"
    and "usable (lck (bs other))" "holder (lck (bs other)) = None"
  shows "assign_box M t moved a a bs = (Return (), bs) \<and>
    (\<exists>bs'. assign_box M t moved self other bs = (Return (), bs') \<and>
      val (bs' self) = val (bs other) \<and> val (bs' other) = moved (val (bs other)) \<and>
      holder (lck (bs' self)) = None \<and> holder (lck (bs' other)) = None \<and>
      (\<forall>c. c \<noteq> self \<and> c \<noteq> other \<longrightarrow> bs' c = bs c))"
  using assign_box_free [OF assms, of t moved] by (simp add: assign_box_def)

theorem box_assign_witness:
  "\<exists>bs'. assign_box ec_ops 1 (\<lambda>v. v) 0 5 (\<lambda>a. sample_box Free (int a)) = (Return (), bs') \<and>
     val (bs' 0) = 5 \<and> val (bs' 5) = 5 \<and> ms_holder (lck (bs' 0)) = None"
  using box_assign [OF prio_inherit_mutex.lockable_axioms, of 0 5 "\<lambda>a. sample_box Free (int a)" 1 "\<lambda>v. v"]
  by auto

section \<open>Concurrent access\<close>

text \<open>
  Any number of threads call member functions on one box. A step is one operation on the mutex,
  the begin or the end of a write to \<^verbatim>\<open>value_\<close>, or a read of it. Between the two halves of a write
  the value is \<open>Torn\<close>: a read there would be a data race. \<open>Put\<close> is \<^verbatim>\<open>set(value)\<close>, \<open>Take\<close> is
  \<^verbatim>\<open>get\<close>, \<open>Apply\<close> is an access through a function on \<^verbatim>\<open>T &\<close>; the flag says whether the call is the
  blocking one or the \<^verbatim>\<open>try_\<close> one. The history records the accesses in the order in which they
  complete, with the thread and the value it read.
\<close>

datatype 'v access = Put 'v | Take | Apply "'v \<Rightarrow> 'v"

datatype 'v pc =
    Idle
  | Calling bool "'v access"
  | Inside "'v access"
  | Writing "'v access" 'v
  | Leaving

record ('s, 'v) shared_box =
  slock :: 's
  svalue :: "'v content"
  spc :: "tid \<Rightarrow> 'v pc"
  shist :: "(tid \<times> 'v access \<times> 'v content) list"

fun after_access :: "'v access \<Rightarrow> 'v \<Rightarrow> 'v" where
  "after_access (Put w) v = w"
| "after_access Take v = v"
| "after_access (Apply f) v = f v"

inductive box_step :: "'s mutex_ops \<Rightarrow> ('s, 'v) shared_box \<Rightarrow> ('s, 'v) shared_box \<Rightarrow> bool"
  for M :: "'s mutex_ops" where
  box_call: "spc s t = Idle \<Longrightarrow> box_step M s (s\<lparr>spc := (spc s)(t := Calling blocking a)\<rparr>)"
| box_lock: "spc s t = Calling True a \<Longrightarrow> op_lock M t (slock s) = (Return (), l) \<Longrightarrow>
    box_step M s (s\<lparr>slock := l, spc := (spc s)(t := Inside a)\<rparr>)"
| box_try_lock: "spc s t = Calling False a \<Longrightarrow> op_try_lock M t (slock s) = (Return b, l) \<Longrightarrow>
    box_step M s (s\<lparr>slock := l, spc := (spc s)(t := if b then Inside a else Idle)\<rparr>)"
| box_read: "spc s t = Inside Take \<Longrightarrow>
    box_step M s (s\<lparr>spc := (spc s)(t := Leaving), shist := shist s @ [(t, Take, svalue s)]\<rparr>)"
| box_write_begin: "spc s t = Inside a \<Longrightarrow> a \<noteq> Take \<Longrightarrow> svalue s = Whole v \<Longrightarrow>
    box_step M s (s\<lparr>svalue := Torn, spc := (spc s)(t := Writing a (after_access a v))\<rparr>)"
| box_write_end: "spc s t = Writing a w \<Longrightarrow>
    box_step M s (s\<lparr>svalue := Whole w, spc := (spc s)(t := Leaving),
      shist := shist s @ [(t, a, Whole w)]\<rparr>)"
| box_unlock: "spc s t = Leaving \<Longrightarrow> op_unlock M t (slock s) = (Return (), l) \<Longrightarrow>
    box_step M s (s\<lparr>slock := l, spc := (spc s)(t := Idle)\<rparr>)"

fun in_box :: "'v pc \<Rightarrow> bool" where
  "in_box (Inside _) = True"
| "in_box (Writing _ _) = True"
| "in_box Leaving = True"
| "in_box _ = False"

definition box_start ::
    "('s \<Rightarrow> (tid \<times> nat) option) \<Rightarrow> ('s \<Rightarrow> bool) \<Rightarrow> 'v \<Rightarrow> ('s, 'v) shared_box \<Rightarrow> bool" where
  "box_start holder usable v0 s \<longleftrightarrow> usable (slock s) \<and> holder (slock s) = None \<and>
     svalue s = Whole v0 \<and> spc s = (\<lambda>_. Idle) \<and> shist s = []"

text \<open>
  The sequential reading of a history: the value after it, and whether every read in it saw the
  value of the accesses before it, complete and not torn.
\<close>

fun replay :: "'v \<Rightarrow> (tid \<times> 'v access \<times> 'v content) list \<Rightarrow> 'v" where
  "replay v [] = v"
| "replay v ((t, a, c) # h) = replay (after_access a v) h"

fun legal :: "'v \<Rightarrow> (tid \<times> 'v access \<times> 'v content) list \<Rightarrow> bool" where
  "legal v [] = True"
| "legal v ((t, a, c) # h) = (c = Whole (after_access a v) \<and> legal (after_access a v) h)"

lemma replay_append [simp]: "replay v (h @ h') = replay (replay v h) h'"
  by (induction h arbitrary: v) auto

lemma legal_append [simp]: "legal v (h @ h') \<longleftrightarrow> legal v h \<and> legal (replay v h) h'"
  by (induction h arbitrary: v) auto

text \<open>What the value looks like to the thread that holds the mutex.\<close>

fun content_ok :: "'v pc \<Rightarrow> 'v content \<Rightarrow> 'v \<Rightarrow> bool" where
  "content_ok (Writing a w) c v = (c = Torn \<and> w = after_access a v)"
| "content_ok _ c v = (c = Whole v)"

abbreviation hold_once :: "tid \<Rightarrow> tid \<times> nat" where
  "hold_once t \<equiv> (t, 0)"

definition box_inv ::
    "('s \<Rightarrow> (tid \<times> nat) option) \<Rightarrow> ('s \<Rightarrow> bool) \<Rightarrow> 'v \<Rightarrow> ('s, 'v) shared_box \<Rightarrow> bool" where
  "box_inv holder usable v0 s \<longleftrightarrow>
     usable (slock s) \<and> lock_agrees in_box hold_once (spc s) (holder (slock s)) \<and>
     legal v0 (shist s) \<and>
     (case holder (slock s) of
        None \<Rightarrow> svalue s = Whole (replay v0 (shist s))
      | Some (t, n) \<Rightarrow> n = 0 \<and> content_ok (spc s t) (svalue s) (replay v0 (shist s)))"

lemma inj_hold: "inj hold_once"
  by (simp add: inj_def)

lemma content_ok_quiet:
  "\<forall>a w. p \<noteq> Writing a w \<Longrightarrow> content_ok p c v \<longleftrightarrow> c = Whole v"
  by (cases p) auto

context lockable
begin

lemma box_inv_holding:
  assumes "box_inv holder usable v0 s" "in_box (spc s t)"
  shows "usable (slock s)" "holder (slock s) = Some (t, 0)" "legal v0 (shist s)"
    and "content_ok (spc s t) (svalue s) (replay v0 (shist s))"
    and "lock_agrees in_box hold_once (spc s) (Some (t, 0))"
proof -
  show h: "holder (slock s) = Some (t, 0)"
    using assms lock_agrees_owner [of in_box hold_once "spc s" "holder (slock s)" t]
    by (simp add: box_inv_def)
  then show "usable (slock s)" "legal v0 (shist s)"
      "content_ok (spc s t) (svalue s) (replay v0 (shist s))"
      "lock_agrees in_box hold_once (spc s) (Some (t, 0))"
    using assms(1) by (simp_all add: box_inv_def)
qed

text \<open>The holder moves on and keeps the mutex; a thread gets it; the holder gives it back.\<close>

lemma box_inv_move:
  assumes "box_inv holder usable v0 s" "in_box (spc s t)" "in_box p"
    and "slock s' = slock s" "spc s' = (spc s)(t := p)" "legal v0 (shist s')"
    and "content_ok p (svalue s') (replay v0 (shist s'))"
  shows "box_inv holder usable v0 s'"
  using box_inv_holding [OF assms(1,2)] assms(2-) by (simp add: box_inv_def lock_agrees_keep)

lemma box_inv_not_held:
  assumes "box_inv holder usable v0 s" "\<not> in_box (spc s t)" "holder (slock s) \<noteq> None"
  obtains u where "holder (slock s) = Some (u, 0)" "u \<noteq> t"
proof -
  obtain u n where "holder (slock s) = Some (u, n)" using assms(3) by auto
  with assms(1) have h: "holder (slock s) = Some (u, 0)" by (simp add: box_inv_def)
  then have "u \<noteq> t" using assms(1,2) by (auto simp: box_inv_def lock_agrees_def)
  with h that show ?thesis by blast
qed

lemma box_inv_idle:
  assumes "box_inv holder usable v0 s" "\<not> in_box (spc s t)" "\<not> in_box p"
    and "usable l" "holder l = holder (slock s)"
  shows "box_inv holder usable v0 (s\<lparr>slock := l, spc := (spc s)(t := p)\<rparr>)"
proof (cases "holder (slock s)")
  case None
  with assms show ?thesis by (simp add: box_inv_def lock_agrees_keep)
next
  case (Some h)
  then obtain u where "holder (slock s) = Some (u, 0)" "u \<noteq> t"
    using box_inv_not_held [OF assms(1,2)] by auto
  with assms show ?thesis by (simp add: box_inv_def lock_agrees_keep)
qed

lemma box_inv_take:
  assumes "box_inv holder usable v0 s" "holder (slock s) = None"
    and "usable l" "holder l = Some (t, 0)"
  shows "box_inv holder usable v0 (s\<lparr>slock := l, spc := (spc s)(t := Inside a)\<rparr>)"
  using assms lock_agrees_take [OF inj_hold, of in_box "spc s" "Inside a" t]
  by (simp add: box_inv_def)

lemma box_inv_drop:
  assumes "box_inv holder usable v0 s" "spc s t = Leaving" "usable l" "holder l = None"
  shows "box_inv holder usable v0 (s\<lparr>slock := l, spc := (spc s)(t := Idle)\<rparr>)"
  using box_inv_holding [OF assms(1), of t] assms
    lock_agrees_drop [OF inj_hold, of in_box "spc s" "Some (t, 0)" t Idle]
  by (simp add: box_inv_def)

lemma box_inv_step:
  assumes "box_inv holder usable v0 s" "box_step M s s'"
  shows "box_inv holder usable v0 s'"
  using assms(2)
proof cases
  case (box_call t blocking a)
  then show ?thesis
    using box_inv_idle [OF assms(1), of t "Calling blocking a" "slock s"] assms(1)
    by (simp add: box_inv_def)
next
  case (box_lock t a l)
  show ?thesis
  proof (cases "holder (slock s)")
    case None
    then show ?thesis
      using box_lock lock_free [of "slock s" t] box_inv_take [OF assms(1) None, of l t a] assms(1)
      by (auto simp: box_inv_def)
  next
    case (Some h)
    then obtain u where "holder (slock s) = Some (u, 0)" "u \<noteq> t"
      using box_inv_not_held [OF assms(1), of t] box_lock(2) by auto
    then show ?thesis using box_lock(3) lock_other [of "slock s" u 0 t] assms(1)
      by (simp add: box_inv_def)
  qed
next
  case (box_try_lock t a b l)
  show ?thesis
  proof (cases "holder (slock s)")
    case None
    then show ?thesis
      using box_try_lock try_free [of "slock s" t] box_inv_take [OF assms(1) None, of l t a] assms(1)
      by (auto simp: box_inv_def)
  next
    case (Some h)
    then obtain u where "holder (slock s) = Some (u, 0)" "u \<noteq> t"
      using box_inv_not_held [OF assms(1), of t] box_try_lock(2) by auto
    then show ?thesis
      using box_try_lock try_other [of "slock s" u 0 t] assms(1)
        box_inv_idle [OF assms(1), of t Idle l]
      by (auto simp: box_inv_def)
  qed
next
  case (box_read t)
  with box_inv_holding [OF assms(1), of t] show ?thesis
    by (intro box_inv_move [OF assms(1), of t Leaving]) simp_all
next
  case (box_write_begin t a v)
  with box_inv_holding [OF assms(1), of t] show ?thesis
    by (intro box_inv_move [OF assms(1), of t "Writing a (after_access a v)"]) simp_all
next
  case (box_write_end t a w)
  with box_inv_holding [OF assms(1), of t] show ?thesis
    by (intro box_inv_move [OF assms(1), of t Leaving]) simp_all
next
  case (box_unlock t l)
  with box_inv_holding [OF assms(1), of t] unlock_last [of "slock s" t] show ?thesis
    using box_inv_drop [OF assms(1), of t l] by auto
qed

end

sublocale lockable \<subseteq> boxm: safety "box_start holder usable v0" "box_step M"
  "box_inv holder usable v0" for v0
proof
  fix s
  assume "box_start holder usable v0 s"
  then show "box_inv holder usable v0 s"
    by (simp add: box_start_def box_inv_def lock_agrees_def)
next
  fix s s'
  assume "box_inv holder usable v0 s" "box_step M s s'"
  then show "box_inv holder usable v0 s'" by (rule box_inv_step)
qed


context lockable
begin

lemma box_reach_inv:
  "reach (box_start holder usable v0) (box_step M) s \<Longrightarrow> box_inv holder usable v0 s"
  by (rule boxm.reach_inv)

end

text \<open>
  C3. The accesses of any number of threads are linearizable in the order of the history: in
  every reachable state the history is one that the calls could have had one after the other,
  each read returning the complete value of the last write before it and never a torn one; the
  box holds the value the history ends with, unless a thread is in the middle of writing the next
  one. At most one thread is inside.
\<close>

theorem box_linearizable:
  assumes "lockable M holder usable" "reach (box_start holder usable v0) (box_step M) s"
  shows "legal v0 (shist s) \<and>
    (in_box (spc s t) \<and> in_box (spc s u) \<longrightarrow> t = u) \<and>
    (svalue s = Whole (replay v0 (shist s)) \<or>
     svalue s = Torn \<and> (\<exists>t a. spc s t = Writing a (after_access a (replay v0 (shist s)))))"
proof -
  have inv: "box_inv holder usable v0 s" using lockable.box_reach_inv [OF assms] .
  then have "in_box (spc s t) \<and> in_box (spc s u) \<longrightarrow> t = u"
    using lock_agrees_unique [OF inj_hold] by (metis box_inv_def)
  moreover have "svalue s = Whole (replay v0 (shist s)) \<or>
     svalue s = Torn \<and> (\<exists>t a. spc s t = Writing a (after_access a (replay v0 (shist s))))"
  proof (cases "holder (slock s)")
    case None
    with inv show ?thesis by (simp add: box_inv_def)
  next
    case (Some h)
    then obtain t where "content_ok (spc s t) (svalue s) (replay v0 (shist s))"
      using inv by (cases h) (auto simp: box_inv_def)
    then show ?thesis by (cases "spc s t") auto
  qed
  ultimately show ?thesis using inv by (simp add: box_inv_def)
qed

lemma lockable_holder_steps:
  assumes "lockable M holder usable" "box_inv holder usable v0 s" "in_box (spc s t)"
  shows "\<exists>s'. box_step M s s' \<and> spc s' t \<noteq> spc s t"
proof (cases "spc s t")
  case (Inside a)
  have v: "svalue s = Whole (replay v0 (shist s))"
    using lockable.box_inv_holding(4) [OF assms] Inside by simp
  show ?thesis
  proof (cases "a = Take")
    case True
    with Inside show ?thesis by (fastforce intro: box_read)
  next
    case False
    show ?thesis
      by (rule exI, rule conjI, rule box_write_begin [OF Inside False v]) (simp add: Inside)
  qed
next
  case (Writing a w)
  show ?thesis by (rule exI, rule conjI, rule box_write_end [OF Writing]) (simp add: Writing)
next
  case Leaving
  obtain l where l: "op_unlock M t (slock s) = (Return (), l)"
    using lockable.unlock_last [OF assms(1) lockable.box_inv_holding(1,2) [OF assms]] by blast
  show ?thesis by (rule exI, rule conjI, rule box_unlock [OF Leaving l]) (simp add: Leaving)
qed (use assms(3) in simp_all)

lemma lockable_free_steps:
  assumes "lockable M holder usable" "box_inv holder usable v0 s" "holder (slock s) = None"
    and "spc s t = Calling b a"
  shows "\<exists>s'. box_step M s s' \<and> spc s' t \<noteq> spc s t"
proof -
  have u: "usable (slock s)" using assms(2) by (simp add: box_inv_def)
  show ?thesis
  proof (cases b)
    case True
    obtain l where l: "op_lock M t (slock s) = (Return (), l)"
      using lockable.lock_free [OF assms(1) u assms(3)] by blast
    show ?thesis
      by (rule exI, rule conjI, rule box_lock [OF _ l]) (use assms(4) True in auto)
  next
    case False
    obtain l where l: "op_try_lock M t (slock s) = (Return True, l)"
      using lockable.try_free [OF assms(1) u assms(3)] by blast
    show ?thesis
      by (rule exI, rule conjI, rule box_try_lock [OF _ l]) (use assms(4) False in auto)
  qed
qed

text \<open>
  Two concurrent calls never wait for each other: whenever some thread is inside a call, some
  thread inside a call can take its next step.
\<close>

theorem box_progress:
  assumes "lockable M holder usable" "reach (box_start holder usable v0) (box_step M) s"
    and "spc s t \<noteq> Idle"
  shows "\<exists>u s'. spc s u \<noteq> Idle \<and> box_step M s s' \<and> spc s' u \<noteq> spc s u"
proof -
  have inv: "box_inv holder usable v0 s" using lockable.box_reach_inv [OF assms(1,2)] .
  show ?thesis
  proof (cases "holder (slock s)")
    case None
    with inv have "\<not> in_box (spc s t)" by (simp add: box_inv_def lock_agrees_def)
    with assms(3) obtain b a where "spc s t = Calling b a" by (cases "spc s t") auto
    then show ?thesis using lockable_free_steps [OF assms(1) inv None] assms(3) by blast
  next
    case (Some h)
    then obtain u where "in_box (spc s u)"
      using inv by (cases h) (auto simp: box_inv_def lock_agrees_def)
    moreover from this have "spc s u \<noteq> Idle" by auto
    ultimately show ?thesis using lockable_holder_steps [OF assms(1) inv] by blast
  qed
qed

text \<open>A run over the reference mutex: thread 1 sets 7 while thread 2 is turned down.\<close>

definition sample_start :: "(pm_state mstate, int) shared_box" where
  "sample_start = \<lparr>slock = mstate_of Free, svalue = Whole 3, spc = (\<lambda>_. Idle), shist = []\<rparr>"

definition sample_mid :: "(pm_state mstate, int) shared_box" where
  "sample_mid = \<lparr>slock = mstate_of (Held 1 0), svalue = Torn,
     spc = (\<lambda>_. Idle)(1 := Writing (Put 7) 7), shist = []\<rparr>"

lemma sample_start_ok: "box_start ms_holder ms_usable 3 sample_start"
  by (simp add: box_start_def sample_start_def)

lemma posix_runs:
  "lock (posix_api k) t (mstate_of Free) = (Return (), mstate_of (Held t 0))"
  "u \<noteq> t \<Longrightarrow> try_lock (posix_api k) t (mstate_of (Held u n)) = (Return False, mstate_of (Held u n))"
  "unlock (posix_api k) t (mstate_of (Held t 0)) = (Return (), mstate_of Free)"
  by (simp_all add: mutex_defs bindp_def posix_api_def mstate_of_def errno_defs)

lemma sample_run: "steps (box_step ec_ops) sample_start sample_mid"
  apply (rule steps_step, rule box_call [where t = 1 and blocking = True and a = "Put 7"])
   apply (simp add: sample_start_def)
  apply (rule steps_step, rule box_call [where t = 2 and blocking = False and a = Take])
   apply (simp add: sample_start_def)
  apply (rule steps_step, rule box_lock [where t = 1 and l = "mstate_of (Held 1 0)"])
    apply simp
   apply (simp add: sample_start_def posix_runs)
  apply (rule steps_step, rule box_try_lock [where t = 2 and b = False and l = "mstate_of (Held 1 0)"])
    apply simp
   apply (simp add: posix_runs)
  apply (rule steps_step, rule box_write_begin [where t = 1 and v = 3])
     apply simp
    apply simp
   apply (simp add: sample_start_def)
  apply (rule steps_eq)
  apply (simp add: sample_start_def sample_mid_def fun_eq_iff)
  done

lemma sample_reach: "reach (box_start ms_holder ms_usable 3) (box_step ec_ops) sample_mid"
  by (rule reach_steps [OF sample_run reach_init [of "box_start ms_holder ms_usable 3", OF sample_start_ok]])

theorem box_linearizable_witness:
  "spc sample_mid 1 = Writing (Put 7) 7 \<and> svalue sample_mid = Torn \<and> legal 3 (shist sample_mid)"
  using box_linearizable [OF prio_inherit_mutex.lockable_axioms sample_reach, of 1 1]
  by (simp add: sample_mid_def)

theorem box_progress_witness:
  "\<exists>u s'. spc sample_mid u \<noteq> Idle \<and> box_step ec_ops sample_mid s' \<and> spc s' u \<noteq> spc sample_mid u"
  using box_progress [OF prio_inherit_mutex.lockable_axioms sample_reach, of 1]
  by (simp add: sample_mid_def)

section \<open>Two threads that assign boxes to each other\<close>

text \<open>
  \<^verbatim>\<open>operator=\<close> at the granularity of its lock operations, for any number of threads: first the
  other box's mutex, then its own, in that order whatever the addresses are.
\<close>

datatype assign_pc =
    Lock_other addr addr
  | Lock_self addr addr
  | Copying addr addr
  | Unlock_self addr addr
  | Unlock_other addr
  | Assigned

record ('s, 'v) box_heap =
  hlock :: "addr \<Rightarrow> 's"
  hval :: "addr \<Rightarrow> 'v"
  apc :: "tid \<Rightarrow> assign_pc"

inductive assign_step :: "'s mutex_ops \<Rightarrow> ('s, 'v) box_heap \<Rightarrow> ('s, 'v) box_heap \<Rightarrow> bool"
  for M :: "'s mutex_ops" where
  assign_other: "apc s t = Lock_other self other \<Longrightarrow> op_lock M t (hlock s other) = (Return (), l) \<Longrightarrow>
    assign_step M s (s\<lparr>hlock := (hlock s)(other := l), apc := (apc s)(t := Lock_self self other)\<rparr>)"
| assign_self: "apc s t = Lock_self self other \<Longrightarrow> op_lock M t (hlock s self) = (Return (), l) \<Longrightarrow>
    assign_step M s (s\<lparr>hlock := (hlock s)(self := l), apc := (apc s)(t := Copying self other)\<rparr>)"
| assign_copy: "apc s t = Copying self other \<Longrightarrow>
    assign_step M s (s\<lparr>hval := (hval s)(self := hval s other), apc := (apc s)(t := Unlock_self self other)\<rparr>)"
| assign_unlock: "apc s t = Unlock_self self other \<Longrightarrow> op_unlock M t (hlock s self) = (Return (), l) \<Longrightarrow>
    assign_step M s (s\<lparr>hlock := (hlock s)(self := l), apc := (apc s)(t := Unlock_other other)\<rparr>)"
| assign_done: "apc s t = Unlock_other other \<Longrightarrow> op_unlock M t (hlock s other) = (Return (), l) \<Longrightarrow>
    assign_step M s (s\<lparr>hlock := (hlock s)(other := l), apc := (apc s)(t := Assigned)\<rparr>)"

inductive_cases assign_stepE: "assign_step M s s'"

definition crossed :: "addr \<Rightarrow> addr \<Rightarrow> (addr \<Rightarrow> 's) \<Rightarrow> (addr \<Rightarrow> 'v) \<Rightarrow> ('s, 'v) box_heap" where
  "crossed a b locks vals = \<lparr>hlock = locks, hval = vals,
     apc = (\<lambda>_. Assigned)(0 := Lock_other a b, 1 := Lock_other b a)\<rparr>"

lemma crossed_locked:
  assumes "lockable M holder usable" "a \<noteq> b"
    and "usable (locks a)" "holder (locks a) = None" "usable (locks b)" "holder (locks b) = None"
  obtains la lb where "usable la" "holder la = Some (1, 0)" "usable lb" "holder lb = Some (0, 0)"
    and "steps (assign_step M) (crossed a b locks vals)
      \<lparr>hlock = locks(a := la, b := lb), hval = vals,
       apc = (\<lambda>_. Assigned)(0 := Lock_self a b, 1 := Lock_self b a)\<rparr>"
proof -
  obtain lb where lb: "op_lock M 0 (locks b) = (Return (), lb)" "usable lb" "holder lb = Some (0, 0)"
    using lockable.lock_free [OF assms(1,5,6)] by blast
  obtain la where la: "op_lock M 1 (locks a) = (Return (), la)" "usable la" "holder la = Some (1, 0)"
    using lockable.lock_free [OF assms(1,3,4)] by blast
  have "steps (assign_step M) (crossed a b locks vals)
      \<lparr>hlock = locks(a := la, b := lb), hval = vals,
       apc = (\<lambda>_. Assigned)(0 := Lock_self a b, 1 := Lock_self b a)\<rparr>"
    apply (rule steps_step, rule assign_other [where t = 0 and self = a and other = b and l = lb])
      apply (simp add: crossed_def)
     apply (simp add: crossed_def lb)
    apply (rule steps_step, rule assign_other [where t = 1 and self = b and other = a and l = la])
      apply (simp add: crossed_def)
     apply (simp add: crossed_def la [simplified] assms(2))
    apply (rule steps_eq)
    apply (simp add: crossed_def assms(2) fun_upd_twist [OF assms(2)])
    done
  with la lb that show ?thesis by blast
qed

text \<open>
  The self-assignment test does not rule out every deadlock: one thread that runs \<^verbatim>\<open>a = b\<close> and
  another that runs \<^verbatim>\<open>b = a\<close> can reach a state in which each holds the mutex the other waits for,
  and no step is possible any more.
\<close>

theorem box_assign_deadlock:
  assumes "lockable M holder usable" "a \<noteq> b"
    and "usable (locks a)" "holder (locks a) = None" "usable (locks b)" "holder (locks b) = None"
  shows "\<exists>s. steps (assign_step M) (crossed a b locks vals) s \<and>
    apc s 0 = Lock_self a b \<and> apc s 1 = Lock_self b a \<and> (\<nexists>s'. assign_step M s s')"
proof -
  obtain la lb where l: "usable la" "holder la = Some (1, 0)" "usable lb" "holder lb = Some (0, 0)"
    and run: "steps (assign_step M) (crossed a b locks vals)
      \<lparr>hlock = locks(a := la, b := lb), hval = vals,
       apc = (\<lambda>_. Assigned)(0 := Lock_self a b, 1 := Lock_self b a)\<rparr>" (is "steps _ _ ?s")
    using crossed_locked [OF assms] by blast
  have "op_lock M 0 la = (Block, la)" "op_lock M 1 lb = (Block, lb)"
    using lockable.lock_other [OF assms(1)] l by simp_all
  then have "\<not> assign_step M ?s s'" for s'
    using assms(2) by (auto elim!: assign_stepE split: if_splits)
  with run show ?thesis by (intro exI [of _ ?s]) simp
qed

theorem box_assign_deadlock_witness:
  "\<exists>s. steps (assign_step ec_ops) (crossed 0 5 (\<lambda>_. mstate_of Free) int) s \<and>
     apc s 0 = Lock_self 0 5 \<and> apc s 1 = Lock_self 5 0 \<and> (\<nexists>s'. assign_step ec_ops s s')"
  using box_assign_deadlock [OF prio_inherit_mutex.lockable_axioms, of 0 5 "\<lambda>_. mstate_of Free"]
  by simp

end
