(* ===== verification/Lock_Free_Queue.thy ===== *)
theory Lock_Free_Queue
  imports RT_Prelude
begin

text \<open>
  \<^verbatim>\<open>LockFreeQueueBase<DataType, LockFreeContainer>\<close> (\<^verbatim>\<open>lock_free_queue.hpp\<close>): the traits that
  inspect the container type, the wrapper's member functions, and the two aliases. The containers
  are Boost's: their operations are a parameter, a record of functions over the container's state,
  and the locale \<open>boost_container\<close> states what Boost.Lockfree documents of them.
\<close>

section \<open>Container types and traits\<close>

text \<open>
  A container type is a template with its policies, in the order in which they are written; the
  partial specialisations of the traits match on that order.
\<close>

datatype boost_policy = Capacity nat | Fixed_sized bool

datatype container = Spsc_queue "boost_policy list" | Queue "boost_policy list"

fun has_capacity :: "container \<Rightarrow> bool" where
  "has_capacity (Spsc_queue [Capacity n]) = True"
| "has_capacity (Queue [Capacity n]) = True"
| "has_capacity (Queue [Capacity n, Fixed_sized f]) = True"
| "has_capacity _ = False"

fun is_spsc_queue :: "container \<Rightarrow> bool" where
  "is_spsc_queue (Spsc_queue []) = True"
| "is_spsc_queue (Spsc_queue [Capacity n]) = True"
| "is_spsc_queue _ = False"

fun get_boost_lockfree_queue_capacity :: "container \<Rightarrow> nat" where
  "get_boost_lockfree_queue_capacity (Spsc_queue [Capacity n]) = n"
| "get_boost_lockfree_queue_capacity (Queue [Capacity n]) = n"
| "get_boost_lockfree_queue_capacity (Queue [Capacity n, Fixed_sized f]) = n"
| "get_boost_lockfree_queue_capacity _ = 0"

definition LockFreeSPSCQueue :: "nat \<Rightarrow> container" where
  "LockFreeSPSCQueue capacity = (if capacity = 0 then Spsc_queue [] else Spsc_queue [Capacity capacity])"

definition LockFreeMPMCQueue :: "nat \<Rightarrow> bool \<Rightarrow> container" where
  "LockFreeMPMCQueue capacity fixed_size =
     (if capacity = 0 then Queue [Fixed_sized fixed_size]
      else Queue [Capacity capacity, Fixed_sized fixed_size])"

section \<open>The wrapper\<close>

text \<open>
  Boost's operations. Its constructors give \<open>None\<close> when they refuse the capacity, at compile time or
  by an exception, as a fixed-sized queue does beyond its limit. \<open>q_consume_all\<close> gives the elements on which it called its functor, in
  order; their number is its result.
\<close>

record ('c, 'a) lockfree_ops =
  q_default :: "'c option"
  q_make :: "nat \<Rightarrow> 'c option"
  q_push :: "'a \<Rightarrow> 'c \<Rightarrow> bool \<times> 'c"
  q_bounded_push :: "'a \<Rightarrow> 'c \<Rightarrow> bool \<times> 'c"
  q_pop :: "'c \<Rightarrow> 'a option \<times> 'c"
  q_consume_all :: "'c \<Rightarrow> 'a list \<times> 'c"
  q_read_available :: "'c \<Rightarrow> nat"
  q_empty :: "'c \<Rightarrow> bool"
  q_is_lock_free :: "'c \<Rightarrow> bool"

record 'c lfq =
  data_queue :: 'c
  capacity_of :: nat

text \<open>
  The constructors: the one without an argument takes part in overload resolution only if the
  container type has a capacity, the one with an argument only if it has none. \<open>None\<close> is a call
  that does not compile, or that Boost refuses.
\<close>

definition lfq_ctor :: "container \<Rightarrow> ('c, 'a) lockfree_ops \<Rightarrow> nat option \<Rightarrow> 'c lfq option" where
  "lfq_ctor K ops arg =
     (case arg of
        None \<Rightarrow>
          if has_capacity K
          then map_option (\<lambda>c. \<lparr>data_queue = c, capacity_of = get_boost_lockfree_queue_capacity K\<rparr>) (q_default ops)
          else None
      | Some n \<Rightarrow>
          if \<not> has_capacity K then map_option (\<lambda>c. \<lparr>data_queue = c, capacity_of = n\<rparr>) (q_make ops n)
          else None)"

text \<open>The result of a call, the caller's variable \<^verbatim>\<open>data\<close> after it, and the queue.\<close>

definition pop :: "('c, 'a) lockfree_ops \<Rightarrow> 'a \<Rightarrow> 'c lfq \<Rightarrow> bool \<times> 'a \<times> 'c lfq" where
  "pop ops data q =
     (case q_pop ops (data_queue q) of
        (None, c) \<Rightarrow> (False, data, q\<lparr>data_queue := c\<rparr>)
      | (Some d, c) \<Rightarrow> (True, d, q\<lparr>data_queue := c\<rparr>))"

definition push :: "container \<Rightarrow> ('c, 'a) lockfree_ops \<Rightarrow> 'a \<Rightarrow> 'c lfq \<Rightarrow> bool \<times> 'c lfq" where
  "push K ops data q =
     (case (if is_spsc_queue K then q_push ops data (data_queue q)
            else q_bounded_push ops data (data_queue q)) of
        (b, c) \<Rightarrow> (b, q\<lparr>data_queue := c\<rparr>))"

definition bounded_push :: "container \<Rightarrow> ('c, 'a) lockfree_ops \<Rightarrow> 'a \<Rightarrow> 'c lfq \<Rightarrow> bool \<times> 'c lfq" where
  "bounded_push K ops data q =
     (let (pushed, q1) = push K ops data q in
      if \<not> pushed
      then (let (_, _, q2) = pop ops data q1 in push K ops data q2)
      else (True, q1))"

definition get_latest :: "('c, 'a) lockfree_ops \<Rightarrow> 'a \<Rightarrow> 'c lfq \<Rightarrow> bool \<times> 'a \<times> 'c lfq" where
  "get_latest ops data q =
     (case q_consume_all ops (data_queue q) of
        (ds, c) \<Rightarrow> (length ds > 0, fold (\<lambda>d _. d) ds data, q\<lparr>data_queue := c\<rparr>))"

definition is_empty :: "container \<Rightarrow> ('c, 'a) lockfree_ops \<Rightarrow> 'c lfq \<Rightarrow> bool" where
  "is_empty K ops q =
     (if is_spsc_queue K then q_read_available ops (data_queue q) = 0
      else q_empty ops (data_queue q))"

definition size_of :: "('c, 'a) lockfree_ops \<Rightarrow> 'c lfq \<Rightarrow> nat" where
  "size_of ops q = q_read_available ops (data_queue q)"

definition capacity :: "'c lfq \<Rightarrow> nat" where
  "capacity q = capacity_of q"

definition get_lockfree_container :: "'c lfq \<Rightarrow> 'c" where
  "get_lockfree_container q = data_queue q"

definition is_lock_free :: "container \<Rightarrow> ('c, 'a) lockfree_ops \<Rightarrow> 'c lfq \<Rightarrow> bool" where
  "is_lock_free K ops q \<longleftrightarrow> is_spsc_queue K \<or> q_is_lock_free ops (data_queue q)"

section \<open>What Boost documents\<close>

text \<open>
  \<open>view\<close> is the list of the elements in the container, oldest first, \<open>cap\<close> the number of elements
  it has room for without allocating. \<^verbatim>\<open>spsc_queue::push\<close> and \<^verbatim>\<open>queue::bounded_push\<close> fail exactly
  when the container is full. Each operation of a \<^verbatim>\<open>queue\<close> is atomic, of an \<^verbatim>\<open>spsc_queue\<close> only if at most
  one thread pushes and at most one pops.
\<close>

locale boost_container =
  fixes K :: container
    and ops :: "('c, 'a) lockfree_ops"
    and view :: "'c \<Rightarrow> 'a list"
    and cap :: "'c \<Rightarrow> nat"
  assumes b_default: "has_capacity K \<Longrightarrow> q_default ops = Some c \<Longrightarrow>
      view c = [] \<and> cap c = get_boost_lockfree_queue_capacity K"
    and b_make: "\<not> has_capacity K \<Longrightarrow> q_make ops n = Some c \<Longrightarrow> view c = [] \<and> cap c = n"
    and b_push: "is_spsc_queue K \<Longrightarrow> q_push ops x c = (b, c') \<Longrightarrow>
      b = (length (view c) < cap c) \<and> cap c' = cap c \<and> view c' = (if b then view c @ [x] else view c)"
    and b_bounded_push: "\<not> is_spsc_queue K \<Longrightarrow> q_bounded_push ops x c = (b, c') \<Longrightarrow>
      b = (length (view c) < cap c) \<and> cap c' = cap c \<and> view c' = (if b then view c @ [x] else view c)"
    and b_pop: "q_pop ops c = (r, c') \<Longrightarrow> cap c' = cap c \<and>
      (case view c of [] \<Rightarrow> r = None \<and> view c' = [] | d # ds \<Rightarrow> r = Some d \<and> view c' = ds)"
    and b_consume_all: "q_consume_all ops c = (ds, c') \<Longrightarrow>
      cap c' = cap c \<and> ds = view c \<and> view c' = []"
    and b_read_available: "is_spsc_queue K \<Longrightarrow> q_read_available ops c = length (view c)"
    and b_empty: "\<not> is_spsc_queue K \<Longrightarrow> q_empty ops c = (view c = [])"
begin

abbreviation "qview q \<equiv> view (data_queue q)"
abbreviation "qcap q \<equiv> cap (data_queue q)"

lemma push_spec:
  assumes "push K ops x q = (b, q')"
  shows "b = (length (qview q) < qcap q) \<and> qcap q' = qcap q \<and> capacity_of q' = capacity_of q \<and>
    qview q' = (if b then qview q @ [x] else qview q)"
  using assms b_push [of x "data_queue q"] b_bounded_push [of x "data_queue q"]
  by (auto simp: push_def split: prod.splits if_splits)

lemma pop_spec:
  assumes "pop ops x q = (b, d, q')"
  shows "qcap q' = qcap q \<and> capacity_of q' = capacity_of q \<and> b = (qview q \<noteq> []) \<and>
    d = (if b then hd (qview q) else x) \<and> qview q' = tl (qview q)"
  using assms b_pop [of "data_queue q"]
  by (auto simp: pop_def split: prod.splits option.splits list.splits)

lemma bounded_push_spec:
  assumes "bounded_push K ops x q = (b, q')"
  shows "qcap q' = qcap q \<and> capacity_of q' = capacity_of q \<and>
    (0 < qcap q \<and> length (qview q) \<le> qcap q \<longrightarrow>
       b \<and> qview q' = drop (length (qview q) + 1 - qcap q) (qview q @ [x]))"
proof -
  obtain b1 q1 where p1: "push K ops x q = (b1, q1)" by fastforce
  obtain b2 d q2 where p2: "pop ops x q1 = (b2, d, q2)" by (metis prod_cases3)
  note s1 = push_spec [OF p1] and s2 = pop_spec [OF p2]
  show ?thesis
  proof (cases b1)
    case True
    with assms p1 s1 show ?thesis by (auto simp: bounded_push_def)
  next
    case False
    then have "push K ops x q2 = (b, q')" using assms p1 p2 by (simp add: bounded_push_def)
    note s3 = push_spec [OF this]
    show ?thesis
      using s1 s2 s3 False
      by (cases "qview q") auto
  qed
qed

lemma fold_last: "fold (\<lambda>d _. d) ds x = (if ds = [] then x else last ds)"
  by (induction ds arbitrary: x) auto

lemma get_latest_spec:
  assumes "get_latest ops x q = (b, d, q')"
  shows "qcap q' = qcap q \<and> capacity_of q' = capacity_of q \<and> b = (qview q \<noteq> []) \<and>
    d = (if b then last (qview q) else x) \<and> qview q' = []"
  using assms b_consume_all [of "data_queue q"]
  by (auto simp: get_latest_def fold_last split: prod.splits)

lemma is_empty_spec: "is_empty K ops q = (qview q = [])"
  using b_read_available b_empty by (simp add: is_empty_def)

lemma size_spec: "is_spsc_queue K \<Longrightarrow> size_of ops q = length (qview q)"
  using b_read_available by (simp add: size_of_def)

lemma ctor_spec:
  assumes "lfq_ctor K ops arg = Some q"
  shows "qview q = [] \<and> qcap q = capacity_of q \<and>
    capacity_of q = (case arg of None \<Rightarrow> get_boost_lockfree_queue_capacity K | Some n \<Rightarrow> n)"
  using assms b_default b_make by (auto simp: lfq_ctor_def split: option.splits if_splits)

end

section \<open>A container that satisfies the laws\<close>

text \<open>A bounded list with its capacity: the behaviour Boost documents, for any container type.\<close>

fun list_put :: "'a \<Rightarrow> nat \<times> 'a list \<Rightarrow> bool \<times> nat \<times> 'a list" where
  "list_put x (n, xs) = (if length xs < n then (True, n, xs @ [x]) else (False, n, xs))"

fun list_take :: "nat \<times> 'a list \<Rightarrow> 'a option \<times> nat \<times> 'a list" where
  "list_take (n, []) = (None, n, [])"
| "list_take (n, x # xs) = (Some x, n, xs)"

definition list_container :: "container \<Rightarrow> (nat \<times> 'a list, 'a) lockfree_ops" where
  "list_container K = \<lparr>q_default = Some (get_boost_lockfree_queue_capacity K, []), q_make = (\<lambda>n. Some (n, [])),
     q_push = list_put, q_bounded_push = list_put, q_pop = list_take,
     q_consume_all = (\<lambda>(n, xs). (xs, n, [])), q_read_available = (\<lambda>(n, xs). length xs),
     q_empty = (\<lambda>(n, xs). xs = []), q_is_lock_free = (\<lambda>_. True)\<rparr>"

lemma list_container_laws: "boost_container K (list_container K) snd fst"
proof
  fix c c' :: "nat \<times> 'a list" and r
  assume "q_pop (list_container K) c = (r, c')"
  then show "fst c' = fst c \<and> (case snd c of [] \<Rightarrow> r = None \<and> snd c' = []
      | d # ds \<Rightarrow> r = Some d \<and> snd c' = ds)"
    by (cases c rule: list_take.cases) (auto simp: list_container_def)
qed (auto simp: list_container_def split: if_splits)

interpretation spsc_list: boost_container "LockFreeSPSCQueue n"
    "list_container (LockFreeSPSCQueue n)" snd fst for n
  by (rule list_container_laws)

interpretation mpmc_list: boost_container "LockFreeMPMCQueue n f"
    "list_container (LockFreeMPMCQueue n f)" snd fst for n f
  by (rule list_container_laws)

section \<open>Sequences of operations\<close>

text \<open>Any sequence of calls and what the caller sees of it.\<close>

datatype 'a command = Cmd_push 'a | Cmd_bounded_push 'a | Cmd_pop 'a | Cmd_get_latest 'a | Cmd_empty

datatype 'a reply = Reply_bool bool | Reply_data bool 'a

fun exec_command ::
    "container \<Rightarrow> ('c, 'a) lockfree_ops \<Rightarrow> 'a command \<Rightarrow> 'c lfq \<Rightarrow> 'a reply \<times> 'c lfq" where
  "exec_command K ops (Cmd_push x) q = (case push K ops x q of (b, q') \<Rightarrow> (Reply_bool b, q'))"
| "exec_command K ops (Cmd_bounded_push x) q =
     (case bounded_push K ops x q of (b, q') \<Rightarrow> (Reply_bool b, q'))"
| "exec_command K ops (Cmd_pop x) q = (case pop ops x q of (b, d, q') \<Rightarrow> (Reply_data b d, q'))"
| "exec_command K ops (Cmd_get_latest x) q =
     (case get_latest ops x q of (b, d, q') \<Rightarrow> (Reply_data b d, q'))"
| "exec_command K ops Cmd_empty q = (Reply_bool (is_empty K ops q), q)"

fun exec_commands ::
    "container \<Rightarrow> ('c, 'a) lockfree_ops \<Rightarrow> 'a command list \<Rightarrow> 'c lfq \<Rightarrow> 'a reply list \<times> 'c lfq" where
  "exec_commands K ops [] q = ([], q)"
| "exec_commands K ops (c # cs) q =
     (case exec_command K ops c q of (r, q1) \<Rightarrow>
      case exec_commands K ops cs q1 of (rs, q2) \<Rightarrow> (r # rs, q2))"

text \<open>
  The abstract specification: a list of at most \<open>n\<close> elements, oldest first. A plain push is
  refused when the list is full; a bounded one drops the oldest element instead.
\<close>

fun spec_command :: "nat \<Rightarrow> 'a command \<Rightarrow> 'a list \<Rightarrow> 'a reply \<times> 'a list" where
  "spec_command n (Cmd_push x) xs =
     (if length xs < n then (Reply_bool True, xs @ [x]) else (Reply_bool False, xs))"
| "spec_command n (Cmd_bounded_push x) xs =
     (Reply_bool True, if length xs < n then xs @ [x] else tl xs @ [x])"
| "spec_command n (Cmd_pop x) xs =
     (if xs = [] then (Reply_data False x, []) else (Reply_data True (hd xs), tl xs))"
| "spec_command n (Cmd_get_latest x) xs =
     (if xs = [] then (Reply_data False x, []) else (Reply_data True (last xs), []))"
| "spec_command n Cmd_empty xs = (Reply_bool (xs = []), xs)"

fun spec_commands :: "nat \<Rightarrow> 'a command list \<Rightarrow> 'a list \<Rightarrow> 'a reply list \<times> 'a list" where
  "spec_commands n [] xs = ([], xs)"
| "spec_commands n (c # cs) xs =
     (case spec_command n c xs of (r, ys) \<Rightarrow>
      case spec_commands n cs ys of (rs, zs) \<Rightarrow> (r # rs, zs))"

lemma spec_command_length:
  "length xs \<le> n \<Longrightarrow> 0 < n \<Longrightarrow> length (snd (spec_command n c xs)) \<le> n"
  by (cases c; cases xs) auto

lemma spec_commands_length:
  "length xs \<le> n \<Longrightarrow> 0 < n \<Longrightarrow> length (snd (spec_commands n cs xs)) \<le> n"
proof (induction cs arbitrary: xs)
  case (Cons c cs)
  then show ?case using spec_command_length [of xs n c] by (simp add: case_prod_unfold)
qed simp

lemma drop_oldest: "length xs = n \<Longrightarrow> drop (length xs + 1 - n) (xs @ [x]) = tl xs @ [x]" if "0 < n"
  using that by (cases xs) auto

context boost_container
begin

lemma bounded_push_full:
  assumes "bounded_push K ops x q = (b, q')" "0 < qcap q" "length (qview q) \<le> qcap q"
  shows "b \<and> qview q' = (if length (qview q) < qcap q then qview q @ [x] else tl (qview q) @ [x])"
  using bounded_push_spec [OF assms(1)] assms(2,3) drop_oldest [OF assms(2), of "qview q" x] by auto

lemma exec_command_refines:
  assumes "qcap q = n" "0 < n" "length (qview q) \<le> n"
  shows "fst (exec_command K ops c q) = fst (spec_command n c (qview q)) \<and>
    qview (snd (exec_command K ops c q)) = snd (spec_command n c (qview q)) \<and>
    qcap (snd (exec_command K ops c q)) = n"
proof (cases c)
  case (Cmd_push x)
  obtain b q' where r: "push K ops x q = (b, q')" by fastforce
  from push_spec [OF r] r show ?thesis using assms(1) by (simp add: Cmd_push)
next
  case (Cmd_bounded_push x)
  obtain b q' where r: "bounded_push K ops x q = (b, q')" by fastforce
  from bounded_push_full [OF r] bounded_push_spec [OF r] r show ?thesis
    using assms by (simp add: Cmd_bounded_push)
next
  case (Cmd_pop x)
  obtain b d q' where r: "pop ops x q = (b, d, q')" by (metis prod_cases3)
  from pop_spec [OF r] r show ?thesis using assms(1) by (simp add: Cmd_pop)
next
  case (Cmd_get_latest x)
  obtain b d q' where r: "get_latest ops x q = (b, d, q')" by (metis prod_cases3)
  from get_latest_spec [OF r] r show ?thesis using assms(1) by (simp add: Cmd_get_latest)
next
  case Cmd_empty
  then show ?thesis using assms(1) by (simp add: is_empty_spec)
qed

lemma exec_commands_refines:
  "qcap q = n \<Longrightarrow> 0 < n \<Longrightarrow> length (qview q) \<le> n \<Longrightarrow>
     fst (exec_commands K ops cs q) = fst (spec_commands n cs (qview q)) \<and>
     qview (snd (exec_commands K ops cs q)) = snd (spec_commands n cs (qview q))"
proof (induction cs arbitrary: q)
  case Nil
  then show ?case by simp
next
  case (Cons c cs)
  note one = exec_command_refines [OF Cons.prems, of c]
  have "length (qview (snd (exec_command K ops c q))) \<le> n"
    using one spec_command_length [OF Cons.prems(3,2), of c] by simp
  with one Cons.IH [of "snd (exec_command K ops c q)"] Cons.prems(2) show ?case
    by (simp add: case_prod_unfold)
qed

lemma bounded_pushes:
  "qcap q = n \<Longrightarrow> 0 < n \<Longrightarrow> length (qview q) \<le> n \<Longrightarrow>
     qview (snd (exec_commands K ops (map Cmd_bounded_push xs) q)) =
       drop (length (qview q) + length xs - n) (qview q @ xs) \<and>
     fst (exec_commands K ops (map Cmd_bounded_push xs) q) = replicate (length xs) (Reply_bool True)"
proof (induction xs arbitrary: q)
  case Nil
  then show ?case by simp
next
  case (Cons x xs)
  obtain b q1 where r: "bounded_push K ops x q = (b, q1)" by fastforce
  have s: "b" "qcap q1 = n" "qview q1 = drop (length (qview q) + 1 - n) (qview q @ [x])"
    using bounded_push_spec [OF r] Cons.prems by auto
  then have len: "length (qview q1) \<le> n" by simp
  have "drop (length (qview q1) + length xs - n) (qview q1 @ xs) =
      drop (length (qview q) + length (x # xs) - n) (qview q @ x # xs)"
    using s(3) Cons.prems(2,3)
    by (cases "length (qview q) < n") (auto simp: drop_append not_less Suc_diff_le)
  then show ?case
    using Cons.IH [OF s(2) Cons.prems(2) len] r s(1) by (simp add: case_prod_unfold)
qed

end


section \<open>Properties of the queue\<close>

text \<open>
  The traits agree with the aliases: each alias instantiates the wrapper with a container whose
  capacity trait holds exactly when the alias was given a capacity, whose capacity value is the
  one given, and whose kind is recognised, so that exactly one of the two constructors exists and
  it gives the container that Boost constructs, with the intended capacity.
\<close>

theorem queue_aliases:
  "has_capacity (LockFreeSPSCQueue n) = (n \<noteq> 0) \<and> has_capacity (LockFreeMPMCQueue n f) = (n \<noteq> 0) \<and>
   get_boost_lockfree_queue_capacity (LockFreeSPSCQueue n) = n \<and>
   get_boost_lockfree_queue_capacity (LockFreeMPMCQueue n f) = n \<and>
   is_spsc_queue (LockFreeSPSCQueue n) \<and> \<not> is_spsc_queue (LockFreeMPMCQueue n f) \<and>
   lfq_ctor (LockFreeSPSCQueue n) ops None =
     (if n = 0 then None else map_option (\<lambda>c. \<lparr>data_queue = c, capacity_of = n\<rparr>) (q_default ops)) \<and>
   lfq_ctor (LockFreeMPMCQueue n f) ops None = lfq_ctor (LockFreeSPSCQueue n) ops None \<and>
   lfq_ctor (LockFreeSPSCQueue n) ops (Some m) =
     (if n \<noteq> 0 then None else map_option (\<lambda>c. \<lparr>data_queue = c, capacity_of = m\<rparr>) (q_make ops m)) \<and>
   lfq_ctor (LockFreeMPMCQueue n f) ops (Some m) = lfq_ctor (LockFreeSPSCQueue n) ops (Some m)"
  by (cases n) (simp_all add: LockFreeSPSCQueue_def LockFreeMPMCQueue_def lfq_ctor_def)

text \<open>
  C6. The wrapper refines a bounded list: after construction with a positive capacity, every
  sequence of \<^verbatim>\<open>push\<close>, \<^verbatim>\<open>bounded_push\<close>, \<^verbatim>\<open>pop\<close>, \<^verbatim>\<open>get_latest\<close> and \<^verbatim>\<open>empty\<close> gives the replies of
  the specification: first in first out, a push refused only by a full queue, a bounded push that
  always succeeds, at most \<^verbatim>\<open>capacity()\<close> elements.
\<close>

theorem queue_refines_bounded_list:
  assumes "boost_container K ops view cap" "lfq_ctor K ops arg = Some q" "0 < capacity_of q"
  shows "fst (exec_commands K ops cs q) = fst (spec_commands (capacity_of q) cs []) \<and>
    view (data_queue (snd (exec_commands K ops cs q))) = snd (spec_commands (capacity_of q) cs []) \<and>
    length (view (data_queue (snd (exec_commands K ops cs q)))) \<le> capacity_of q"
proof -
  have q: "view (data_queue q) = []" "cap (data_queue q) = capacity_of q"
    using boost_container.ctor_spec [OF assms(1,2)] by blast+
  show ?thesis
    using boost_container.exec_commands_refines [OF assms(1) q(2) assms(3), of cs] q(1)
      spec_commands_length [of "[]" "capacity_of q" cs] assms(3)
    by simp
qed

theorem queue_refines_bounded_list_witness:
  "fst (exec_commands (LockFreeMPMCQueue 2 True) (list_container (LockFreeMPMCQueue 2 True))
      [Cmd_push 5, Cmd_push 6, Cmd_push (7 :: int), Cmd_bounded_push 8, Cmd_pop 0]
      \<lparr>data_queue = (2, []), capacity_of = 2\<rparr>) =
   [Reply_bool True, Reply_bool True, Reply_bool False, Reply_bool True, Reply_data True 6]"
  using queue_refines_bounded_list [OF mpmc_list.boost_container_axioms [of 2 True],
      where arg = None and q = "\<lparr>data_queue = (2, []), capacity_of = 2\<rparr>" and
      cs = "[Cmd_push 5, Cmd_push 6, Cmd_push (7 :: int), Cmd_bounded_push 8, Cmd_pop 0]"]
  by (simp add: lfq_ctor_def LockFreeMPMCQueue_def list_container_def)

text \<open>
  A queue fed by \<^verbatim>\<open>bounded_push\<close> alone keeps the latest elements: every call succeeds and the
  queue holds the last \<^verbatim>\<open>capacity()\<close> elements pushed, in order; \<^verbatim>\<open>get_latest\<close> then returns the last
  one and leaves the queue empty.
\<close>

theorem bounded_push_keeps_latest:
  assumes "boost_container K ops view cap" "lfq_ctor K ops arg = Some q" "0 < capacity_of q"
    and "exec_commands K ops (map Cmd_bounded_push xs) q = (rs, q1)" "get_latest ops d q1 = (b, d', q2)"
  shows "rs = replicate (length xs) (Reply_bool True) \<and>
    view (data_queue q1) = drop (length xs - capacity_of q) xs \<and>
    b = (xs \<noteq> []) \<and> d' = (if xs = [] then d else last xs) \<and> view (data_queue q2) = []"
proof -
  have "rs = replicate (length xs) (Reply_bool True)"
      and v: "view (data_queue q1) = drop (length xs - capacity_of q) xs"
    using boost_container.bounded_pushes [OF assms(1), of q "capacity_of q" xs]
      boost_container.ctor_spec [OF assms(1,2)] assms(3,4)
    by auto
  moreover have "(view (data_queue q1) = []) = (xs = [])"
  proof -
    have "length (view (data_queue q1)) = length xs - (length xs - capacity_of q)" using v by simp
    then show ?thesis using assms(3) by (simp only: length_0_conv [symmetric]) arith
  qed
  moreover from this have "xs \<noteq> [] \<Longrightarrow> last (view (data_queue q1)) = last xs"
    using v by (simp add: last_drop)
  ultimately show ?thesis
    using boost_container.get_latest_spec [OF assms(1,5)] by auto
qed

theorem bounded_push_keeps_latest_witness:
  "\<exists>q1 q2. exec_commands (LockFreeSPSCQueue 2) (list_container (LockFreeSPSCQueue 2))
      (map Cmd_bounded_push [1, 2, 3 :: int]) \<lparr>data_queue = (2, []), capacity_of = 2\<rparr> =
      ([Reply_bool True, Reply_bool True, Reply_bool True], q1) \<and>
    snd (data_queue q1) = [2, 3] \<and>
    get_latest (list_container (LockFreeSPSCQueue 2)) 0 q1 = (True, 3, q2)"
proof -
  obtain rs q1 where 1: "exec_commands (LockFreeSPSCQueue 2) (list_container (LockFreeSPSCQueue 2))
      (map Cmd_bounded_push [1, 2, 3 :: int]) \<lparr>data_queue = (2, []), capacity_of = 2\<rparr> = (rs, q1)"
    by fastforce
  obtain b d q2 where 2: "get_latest (list_container (LockFreeSPSCQueue 2)) 0 q1 = (b, d, q2)"
    by (metis prod_cases3)
  have "lfq_ctor (LockFreeSPSCQueue 2) (list_container (LockFreeSPSCQueue 2)) None =
      Some \<lparr>data_queue = (2, [] :: int list), capacity_of = 2\<rparr>"
    by (simp add: lfq_ctor_def LockFreeSPSCQueue_def list_container_def)
  from bounded_push_keeps_latest [OF spsc_list.boost_container_axioms this _ 1 2] 1 2
  show ?thesis by (simp add: numeral_eq_Suc)
qed

section \<open>Several producers and consumers\<close>

text \<open>
  Threads share the container; each operation of the container is one atomic step. \<open>P\<close> are the
  threads that push and \<open>C\<close> those that pop; Boost allows one of each on an \<^verbatim>\<open>spsc_queue\<close>, and the
  class warns that a \<^verbatim>\<open>bounded_push\<close> on one is not safe beside a consumer: it is for a thread in both
  \<open>P\<close> and \<open>C\<close>. A bounded push does both, in up to three steps: a push, a pop into a dummy, a second push. The lists
  record the elements accepted and removed so far and, of each finished bounded push, the thread,
  the element and the result.
\<close>

datatype 'a qpc = Q_idle | Q_first 'a | Q_drop 'a | Q_again 'a

record ('c, 'a) shared_queue =
  sq_queue :: "'c lfq"
  sq_pc :: "tid \<Rightarrow> 'a qpc"
  accepted :: "'a list"
  removed :: "'a list"
  results :: "(tid \<times> 'a \<times> bool) list"

definition right_use :: "container \<Rightarrow> tid set \<Rightarrow> tid set \<Rightarrow> bool" where
  "right_use K P C \<longleftrightarrow> is_spsc_queue K \<longrightarrow> (\<exists>p. P \<subseteq> {p}) \<and> (\<exists>c. C \<subseteq> {c})"

inductive queue_step ::
    "container \<Rightarrow> ('c, 'a) lockfree_ops \<Rightarrow> tid set \<Rightarrow> tid set \<Rightarrow>
      ('c, 'a) shared_queue \<Rightarrow> ('c, 'a) shared_queue \<Rightarrow> bool"
  for K :: container and ops :: "('c, 'a) lockfree_ops" and P C :: "tid set" where
  queue_call: "t \<in> P \<Longrightarrow> t \<in> C \<Longrightarrow> sq_pc s t = Q_idle \<Longrightarrow>
    queue_step K ops P C s (s\<lparr>sq_pc := (sq_pc s)(t := Q_first x)\<rparr>)"
| queue_first: "sq_pc s t = Q_first x \<Longrightarrow> push K ops x (sq_queue s) = (b, q) \<Longrightarrow>
    queue_step K ops P C s (s\<lparr>sq_queue := q, sq_pc := (sq_pc s)(t := if b then Q_idle else Q_drop x),
      accepted := accepted s @ (if b then [x] else []),
      results := results s @ (if b then [(t, x, True)] else [])\<rparr>)"
| queue_drop: "sq_pc s t = Q_drop x \<Longrightarrow> pop ops x (sq_queue s) = (b, d, q) \<Longrightarrow>
    queue_step K ops P C s (s\<lparr>sq_queue := q, sq_pc := (sq_pc s)(t := Q_again x),
      removed := removed s @ (if b then [d] else [])\<rparr>)"
| queue_again: "sq_pc s t = Q_again x \<Longrightarrow> push K ops x (sq_queue s) = (b, q) \<Longrightarrow>
    queue_step K ops P C s (s\<lparr>sq_queue := q, sq_pc := (sq_pc s)(t := Q_idle),
      accepted := accepted s @ (if b then [x] else []), results := results s @ [(t, x, b)]\<rparr>)"
| queue_pop: "t \<in> C \<Longrightarrow> sq_pc s t = Q_idle \<Longrightarrow> pop ops x (sq_queue s) = (b, d, q) \<Longrightarrow>
    queue_step K ops P C s (s\<lparr>sq_queue := q, removed := removed s @ (if b then [d] else [])\<rparr>)"
| queue_push: "t \<in> P \<Longrightarrow> sq_pc s t = Q_idle \<Longrightarrow> push K ops x (sq_queue s) = (b, q) \<Longrightarrow>
    queue_step K ops P C s (s\<lparr>sq_queue := q, accepted := accepted s @ (if b then [x] else [])\<rparr>)"

definition queue_start ::
    "container \<Rightarrow> ('c, 'a) lockfree_ops \<Rightarrow> tid set \<Rightarrow> tid set \<Rightarrow> nat \<Rightarrow> ('c, 'a) shared_queue \<Rightarrow> bool" where
  "queue_start K ops P C n s \<longleftrightarrow> right_use K P C \<and>
     (\<exists>arg. lfq_ctor K ops arg = Some (sq_queue s)) \<and> capacity_of (sq_queue s) = n \<and>
     sq_pc s = (\<lambda>_. Q_idle) \<and> accepted s = [] \<and> removed s = [] \<and> results s = []"

text \<open>
  The second part is about a single producer: after its pop there is room for its second push,
  because nobody else pushes.
\<close>

definition sole_producer :: "tid \<Rightarrow> ('c \<Rightarrow> 'a list) \<Rightarrow> nat \<Rightarrow> ('c, 'a) shared_queue \<Rightarrow> bool" where
  "sole_producer p view n s \<longleftrightarrow> (\<forall>t. t \<noteq> p \<longrightarrow> sq_pc s t = Q_idle) \<and>
     (\<forall>x. sq_pc s p = Q_again x \<longrightarrow> length (view (data_queue (sq_queue s))) < n) \<and>
     (\<forall>(t, x, b) \<in> set (results s). b)"

definition queue_inv ::
    "('c \<Rightarrow> 'a list) \<Rightarrow> ('c \<Rightarrow> nat) \<Rightarrow> tid set \<Rightarrow> nat \<Rightarrow> ('c, 'a) shared_queue \<Rightarrow> bool" where
  "queue_inv view cap P n s \<longleftrightarrow> cap (data_queue (sq_queue s)) = n \<and>
     accepted s = removed s @ view (data_queue (sq_queue s)) \<and>
     length (view (data_queue (sq_queue s))) \<le> n \<and>
     (\<forall>(t, x, b) \<in> set (results s). b \<longrightarrow> x \<in> set (accepted s)) \<and>
     (\<forall>p. P \<subseteq> {p} \<and> 0 < n \<longrightarrow> sole_producer p view n s)"

lemmas queue_inv_defs = queue_inv_def sole_producer_def

lemma sole_mover: "queue_inv view cap P n s \<Longrightarrow> sq_pc s t \<noteq> Q_idle \<Longrightarrow> P \<subseteq> {p} \<Longrightarrow> 0 < n \<Longrightarrow> t = p"
  unfolding queue_inv_defs by blast

context boost_container
begin

lemma queue_inv_step: "queue_inv view cap P n s \<Longrightarrow> queue_step K ops P C s s' \<Longrightarrow> queue_inv view cap P n s'"
proof -
  assume inv: "queue_inv view cap P n s" and "queue_step K ops P C s s'"
  from this(2) show ?thesis
  proof cases
    case (queue_call t x)
    with inv show ?thesis by (auto simp: queue_inv_defs)
  next
    case (queue_first t x b q)
    with inv push_spec [OF queue_first(3)] show ?thesis by (auto simp: queue_inv_defs)
  next
    case (queue_drop t x b d q)
    have "P \<subseteq> {p} \<Longrightarrow> 0 < n \<Longrightarrow> t = p" for p
      by (rule sole_mover [OF inv]) (simp_all add: queue_drop(2))
    with queue_drop inv pop_spec [OF queue_drop(3)] show ?thesis
      by (cases "qview (sq_queue s)") (auto simp: queue_inv_defs)
  next
    case (queue_again t x b q)
    have p: "P \<subseteq> {p} \<Longrightarrow> 0 < n \<Longrightarrow> t = p" for p
      by (rule sole_mover [OF inv]) (simp_all add: queue_again(2))
    have "P \<subseteq> {p} \<Longrightarrow> 0 < n \<Longrightarrow> length (qview (sq_queue s)) < n" for p
      using inv p [of p] queue_again(2) by (auto simp: queue_inv_defs)
    with queue_again inv push_spec [OF queue_again(3)] show ?thesis by (auto simp: queue_inv_defs)
  next
    case (queue_pop t x b d q)
    with inv pop_spec [OF queue_pop(4)] show ?thesis
      by (cases "qview (sq_queue s)") (auto simp: queue_inv_defs)
  next
    case (queue_push t x b q)
    with inv push_spec [OF queue_push(4)] show ?thesis by (auto simp: queue_inv_defs)
  qed
qed

end

sublocale boost_container \<subseteq> queue_machine: safety "queue_start K ops P C n" "queue_step K ops P C"
  "queue_inv view cap P n" for P C n
proof
  fix s
  assume "queue_start K ops P C n s"
  then show "queue_inv view cap P n s"
    using ctor_spec by (auto simp: queue_start_def queue_inv_defs)
qed (rule queue_inv_step)

context boost_container
begin

lemma queue_reach_inv:
  "reach (queue_start K ops P C n) (queue_step K ops P C) s \<Longrightarrow> queue_inv view cap P n s"
  by (rule queue_machine.reach_inv)

end

text \<open>The program \<^verbatim>\<open>bounded_push\<close> is its steps, taken without others in between.\<close>

lemma bounded_push_is_its_steps:
  assumes "t \<in> P" "t \<in> C" "sq_pc s t = Q_idle" "bounded_push K ops x (sq_queue s) = (b, q)"
  shows "\<exists>s'. steps (queue_step K ops P C) s s' \<and> sq_queue s' = q \<and> sq_pc s' = sq_pc s \<and>
    results s' = results s @ [(t, x, b)]"
proof -
  obtain b1 q1 where 1: "push K ops x (sq_queue s) = (b1, q1)" by fastforce
  obtain b2 d q2 where 2: "pop ops x q1 = (b2, d, q2)" by (metis prod_cases3)
  let ?c = "s\<lparr>sq_pc := (sq_pc s)(t := Q_first x)\<rparr>"
  let ?f = "s\<lparr>sq_queue := q1, sq_pc := (sq_pc s)(t := Q_drop x)\<rparr>"
  let ?d = "s\<lparr>sq_queue := q2, sq_pc := (sq_pc s)(t := Q_again x), removed := removed s @ (if b2 then [d] else [])\<rparr>"
  have c: "queue_step K ops P C s ?c" by (rule queue_call [OF assms(1-3)])
  show ?thesis
  proof (cases b1)
    case True
    with assms(4) 1 have q: "b" "q = q1" by (simp_all add: bounded_push_def)
    have "queue_step K ops P C ?c (s\<lparr>sq_queue := q1, accepted := accepted s @ [x], results := results s @ [(t, x, True)]\<rparr>)"
      using queue_first [of ?c t x K ops True q1 P C] 1 True assms(3) by (cases s) (simp add: fun_upd_idem)
    with c have "steps (queue_step K ops P C) s (s\<lparr>sq_queue := q1, accepted := accepted s @ [x],
        results := results s @ [(t, x, True)]\<rparr>)"
      by (meson steps_step steps_one)
    then show ?thesis using q by fastforce
  next
    case False
    with assms(4) 1 2 have p: "push K ops x q2 = (b, q)" by (simp add: bounded_push_def)
    have f: "queue_step K ops P C ?c ?f"
      using queue_first [of ?c t x K ops False q1 P C] 1 False by (cases s) simp
    have d: "queue_step K ops P C ?f ?d"
      using queue_drop [of ?f t x ops b2 d q2 K P C] 2 by (cases s) simp
    have "queue_step K ops P C ?d (s\<lparr>sq_queue := q, accepted := accepted s @ (if b then [x] else []),
        removed := removed s @ (if b2 then [d] else []), results := results s @ [(t, x, b)]\<rparr>)"
      using queue_again [of ?d t x K ops b q P C] p assms(3) by (cases s) (simp add: fun_upd_idem)
    with c f d have "steps (queue_step K ops P C) s (s\<lparr>sq_queue := q,
        accepted := accepted s @ (if b then [x] else []),
        removed := removed s @ (if b2 then [d] else []), results := results s @ [(t, x, b)]\<rparr>)"
      by (meson steps_step steps_one)
    then show ?thesis by fastforce
  qed
qed




text \<open>
  A queue of capacity one: thread 3 pushes 5; thread 1 begins to push 6 with \<^verbatim>\<open>bounded_push\<close>, finds
  the queue full and drops the 5; thread 2 pushes 7 into the gap; thread 1's second push fails.
\<close>

definition mpmc1 :: container where
  "mpmc1 = LockFreeMPMCQueue 1 True"

definition qrun_queue :: "int list \<Rightarrow> (nat \<times> int list) lfq" where
  "qrun_queue xs = \<lparr>data_queue = (1, xs), capacity_of = 1\<rparr>"

definition qrun_lost :: "(nat \<times> int list, int) shared_queue" where
  "qrun_lost = \<lparr>sq_queue = qrun_queue [7], sq_pc = (\<lambda>_. Q_idle), accepted = [5, 7], removed = [5],
     results = [(1, 6, False)]\<rparr>"

definition qrun_begin :: "(nat \<times> int list, int) shared_queue" where
  "qrun_begin = \<lparr>sq_queue = qrun_queue [], sq_pc = (\<lambda>_. Q_idle), accepted = [], removed = [],
     results = []\<rparr>"

lemma qrun_queue_runs:
  "push mpmc1 (list_container mpmc1) x (qrun_queue []) = (True, qrun_queue [x])"
  "push mpmc1 (list_container mpmc1) x (qrun_queue [y]) = (False, qrun_queue [y])"
  "pop (list_container mpmc1) x (qrun_queue [y]) = (True, y, qrun_queue [])"
  by (simp_all add: push_def pop_def qrun_queue_def list_container_def mpmc1_def LockFreeMPMCQueue_def)

lemma qrun_lost_run: "steps (queue_step mpmc1 (list_container mpmc1) UNIV UNIV) qrun_begin qrun_lost"
  apply (rule steps_step, rule queue_push [where t = 3 and x = 5 and b = True and q = "qrun_queue [5]"], rule UNIV_I)
    apply (simp add: qrun_begin_def)
   apply (simp add: qrun_begin_def qrun_queue_runs)
  apply (rule steps_step, rule queue_call [where t = 1 and x = 6], rule UNIV_I, rule UNIV_I)
   apply (simp add: qrun_begin_def)
  apply (rule steps_step, rule queue_first [where t = 1 and x = 6 and b = False and q = "qrun_queue [5]"])
    apply simp
   apply (simp add: qrun_queue_runs)
  apply (rule steps_step, rule queue_drop [where t = 1 and x = 6 and b = True and d = 5 and q = "qrun_queue []"])
    apply simp
   apply (simp add: qrun_queue_runs)
  apply (rule steps_step, rule queue_push [where t = 2 and x = 7 and b = True and q = "qrun_queue [7]"], rule UNIV_I)
    apply (simp add: qrun_begin_def)
   apply (simp add: qrun_queue_runs)
  apply (rule steps_step, rule queue_again [where t = 1 and x = 6 and b = False and q = "qrun_queue [7]"])
    apply simp
   apply (simp add: qrun_queue_runs)
  apply (rule steps_eq)
  apply (simp add: qrun_begin_def qrun_lost_def fun_eq_iff)
  done

lemma qrun_begin_start: "queue_start mpmc1 (list_container mpmc1) UNIV UNIV 1 qrun_begin"
  by (auto simp: queue_start_def right_use_def qrun_begin_def qrun_queue_def lfq_ctor_def mpmc1_def LockFreeMPMCQueue_def
      list_container_def intro: exI [of _ None])

lemma qrun_lost_reach:
  "reach (queue_start mpmc1 (list_container mpmc1) UNIV UNIV 1) (queue_step mpmc1 (list_container mpmc1) UNIV UNIV) qrun_lost"
  by (rule reach_steps [OF qrun_lost_run reach_init [of "queue_start mpmc1 (list_container mpmc1) UNIV UNIV 1",
        OF qrun_begin_start]])







text \<open>
  With several producers \<^verbatim>\<open>bounded_push\<close> is not all or nothing: a call can return false, its own
  element not stored, and nevertheless have removed the oldest element of the queue, which no
  consumer receives.
\<close>

theorem bounded_push_loses:
  "\<exists>s. reach (queue_start mpmc1 (list_container mpmc1) UNIV UNIV 1) (queue_step mpmc1 (list_container mpmc1) UNIV UNIV) s \<and>
     results s = [(1, 6, False)] \<and> removed s = [5 :: int] \<and> 6 \<notin> set (accepted s)"
  using qrun_lost_reach by (intro exI [of _ qrun_lost]) (simp add: qrun_lost_def)

end
