(* ===== verification/Realtime_Buffer.thy ===== *)
theory Realtime_Buffer
  imports RT_Prelude
begin

text \<open>
  \<^verbatim>\<open>RealtimeBuffer<T>\<close> (\<^verbatim>\<open>realtime_buffer.hpp\<close>): two objects behind two pointers that the realtime
  thread swaps. The first part runs the member functions of any number of buffers over one heap,
  so that allocation, aliasing and deletion are visible; the second part interleaves one realtime
  thread with any number of other threads on one buffer.
\<close>

section \<open>Buffers and the heap\<close>

type_synonym buf_id = nat

text \<open>
  The members. The pointers are never null: the constructors and \<^verbatim>\<open>reset\<close> assign them the result
  of \<^verbatim>\<open>new\<close>. A buffer that is not constructed is missing from \<open>bufs\<close>; using it, or an object that
  is not allocated, is undefined behaviour.
\<close>

record rtb =
  realtime_data :: addr
  non_realtime_data :: addr
  new_data_available :: bool
  buf_mutex :: "tid std_mutex"

record 'v world =
  objs :: "addr \<Rightarrow> 'v option"
  fresh :: addr
  bufs :: "buf_id \<Rightarrow> rtb option"

definition new_obj :: "'v \<Rightarrow> ('v world, addr) prog" where
  "new_obj v w = (Return (fresh w), w\<lparr>objs := (objs w)(fresh w \<mapsto> v), fresh := fresh w + 1\<rparr>)"

definition delete_obj :: "addr \<Rightarrow> ('v world, unit) prog" where
  "delete_obj a w =
     (case objs w a of
        None \<Rightarrow> (Undefined, w)
      | Some _ \<Rightarrow> (Return (), w\<lparr>objs := (objs w)(a := None)\<rparr>))"

definition load :: "addr \<Rightarrow> ('v world, 'v) prog" where
  "load a w = (case objs w a of None \<Rightarrow> (Undefined, w) | Some v \<Rightarrow> (Return v, w))"

definition store :: "addr \<Rightarrow> 'v \<Rightarrow> ('v world, unit) prog" where
  "store a v w =
     (case objs w a of
        None \<Rightarrow> (Undefined, w)
      | Some _ \<Rightarrow> (Return (), w\<lparr>objs := (objs w)(a \<mapsto> v)\<rparr>))"

definition field :: "buf_id \<Rightarrow> (rtb \<Rightarrow> 'a) \<Rightarrow> ('v world, 'a) prog" where
  "field b f w = (case bufs w b of None \<Rightarrow> (Undefined, w) | Some r \<Rightarrow> (Return (f r), w))"

definition update :: "buf_id \<Rightarrow> (rtb \<Rightarrow> rtb) \<Rightarrow> ('v world, unit) prog" where
  "update b g w =
     (case bufs w b of
        None \<Rightarrow> (Undefined, w)
      | Some r \<Rightarrow> (Return (), w\<lparr>bufs := (bufs w)(b \<mapsto> g r)\<rparr>))"

text \<open>The mutex of a buffer. Locking it twice from one thread is undefined behaviour.\<close>

definition buf_lock :: "tid \<Rightarrow> buf_id \<Rightarrow> ('v world, unit) prog" where
  "buf_lock t b =
     bindp (field b buf_mutex) (\<lambda>m.
       case m of
         None \<Rightarrow> update b (buf_mutex_update (\<lambda>_. Some t))
       | Some u \<Rightarrow> (\<lambda>w. ((if u = t then Undefined else Block), w)))"

definition buf_try_lock :: "tid \<Rightarrow> buf_id \<Rightarrow> ('v world, bool) prog" where
  "buf_try_lock t b =
     bindp (field b buf_mutex) (\<lambda>m.
       if m = Some t then (\<lambda>w. (Undefined, w))
       else (case mtx_try t m of (owns, m') \<Rightarrow>
         bindp (update b (buf_mutex_update (\<lambda>_. m'))) (\<lambda>_. ret owns)))"

definition buf_unlock :: "buf_id \<Rightarrow> 'v world \<Rightarrow> 'v world" where
  "buf_unlock b w = snd (update b (buf_mutex_update (\<lambda>_. None)) w)"

section \<open>The member functions\<close>

text \<open>
  Both constructors; \<open>v\<close> is the argument or the value of \<^verbatim>\<open>T()\<close>. The objects are allocated in the
  order of the code, the non-realtime one first.
\<close>

definition buf_ctor :: "buf_id \<Rightarrow> 'v \<Rightarrow> bool \<Rightarrow> ('v world, unit) prog" where
  "buf_ctor b v new_flag =
     bindp (new_obj v) (\<lambda>nrt. bindp (new_obj v) (\<lambda>rt.
       modify (\<lambda>w. w\<lparr>bufs := (bufs w)(b \<mapsto> \<lparr>realtime_data = rt, non_realtime_data = nrt,
         new_data_available = new_flag, buf_mutex = None\<rparr>)\<rparr>)))"

definition buf_delete :: "buf_id \<Rightarrow> ('v world, unit) prog" where
  "buf_delete b =
     bindp (field b non_realtime_data) (\<lambda>nrt. bindp (delete_obj nrt) (\<lambda>_.
       bindp (field b realtime_data) (\<lambda>rt. delete_obj rt)))"

definition buf_dtor :: "buf_id \<Rightarrow> ('v world, unit) prog" where
  "buf_dtor b = bindp (buf_delete b) (\<lambda>_. modify (\<lambda>w. w\<lparr>bufs := (bufs w)(b := None)\<rparr>))"

definition swap_new :: "buf_id \<Rightarrow> ('v world, unit) prog" where
  "swap_new b =
     bindp (field b new_data_available) (\<lambda>new.
       if new
       then update b (\<lambda>r. r\<lparr>realtime_data := non_realtime_data r,
              non_realtime_data := realtime_data r, new_data_available := False\<rparr>)
       else ret ())"

definition readFromRT :: "tid \<Rightarrow> buf_id \<Rightarrow> ('v world, addr) prog" where
  "readFromRT t b =
     bindp (buf_try_lock t b) (\<lambda>owns_lock.
       if owns_lock
       then guarded (ret ()) (buf_unlock b) (bindp (swap_new b) (\<lambda>_. field b realtime_data))
       else field b realtime_data)"

definition readFromNonRT :: "tid \<Rightarrow> buf_id \<Rightarrow> ('v world, addr) prog" where
  "readFromNonRT t b =
     guarded (buf_lock t b) (buf_unlock b)
      (bindp (field b new_data_available) (\<lambda>new.
        if new then field b non_realtime_data else field b realtime_data))"

text \<open>The polling loop returns only when its \<^verbatim>\<open>try_lock\<close> succeeds, like a blocking lock.\<close>

definition writeFromNonRT :: "tid \<Rightarrow> buf_id \<Rightarrow> 'v \<Rightarrow> ('v world, unit) prog" where
  "writeFromNonRT t b data =
     guarded (buf_lock t b) (buf_unlock b)
      (bindp (field b non_realtime_data) (\<lambda>nrt. bindp (store nrt data) (\<lambda>_.
        update b (new_data_available_update (\<lambda>_. True)))))"

text \<open>
  Copy construction and assignment. The copy constructor does not initialise the flag;
  \<open>garbage\<close> is its indeterminate value until \<^verbatim>\<open>writeFromNonRT\<close> sets it.
\<close>

definition buf_copy_ctor :: "tid \<Rightarrow> buf_id \<Rightarrow> buf_id \<Rightarrow> 'v \<Rightarrow> bool \<Rightarrow> ('v world, unit) prog" where
  "buf_copy_ctor t b source dflt garbage =
     bindp (buf_ctor b dflt garbage) (\<lambda>_. bindp (readFromNonRT t source) (\<lambda>p.
       bindp (load p) (\<lambda>v. writeFromNonRT t b v)))"

definition buf_assign :: "tid \<Rightarrow> buf_id \<Rightarrow> buf_id \<Rightarrow> ('v world, unit) prog" where
  "buf_assign t b source =
     (if b = source then ret ()
      else bindp (readFromNonRT t source) (\<lambda>p. bindp (load p) (\<lambda>v. writeFromNonRT t b v)))"

definition initRT :: "buf_id \<Rightarrow> 'v \<Rightarrow> ('v world, unit) prog" where
  "initRT b data =
     bindp (field b non_realtime_data) (\<lambda>nrt. bindp (store nrt data) (\<lambda>_.
       bindp (field b realtime_data) (\<lambda>rt. store rt data)))"

definition reset :: "buf_id \<Rightarrow> 'v \<Rightarrow> ('v world, unit) prog" where
  "reset b dflt =
     bindp (buf_delete b) (\<lambda>_. bindp (new_obj dflt) (\<lambda>nrt.
       bindp (update b (non_realtime_data_update (\<lambda>_. nrt))) (\<lambda>_. bindp (new_obj dflt) (\<lambda>rt.
         update b (realtime_data_update (\<lambda>_. rt))))))"

lemmas buffer_defs = new_obj_def delete_obj_def load_def store_def field_def update_def
  buf_lock_def buf_try_lock_def buf_unlock_def buf_ctor_def buf_delete_def buf_dtor_def
  swap_new_def readFromRT_def readFromNonRT_def writeFromNonRT_def buf_copy_ctor_def
  buf_assign_def initRT_def reset_def guarded_def bindp_def

section \<open>Well-formed heaps\<close>

definition owned :: "rtb \<Rightarrow> addr set" where
  "owned r = {realtime_data r, non_realtime_data r}"

definition owned_by :: "(buf_id \<Rightarrow> rtb option) \<Rightarrow> addr set" where
  "owned_by m = {a. \<exists>b r. m b = Some r \<and> a \<in> owned r}"

text \<open>
  Every buffer owns two objects, no two buffers share one, nothing else is allocated, no address
  is in use that \<^verbatim>\<open>new\<close> could return, and no member function is in progress.
\<close>

definition bufs_ok :: "(buf_id \<Rightarrow> rtb option) \<Rightarrow> bool" where
  "bufs_ok m \<longleftrightarrow>
     (\<forall>b r. m b = Some r \<longrightarrow> realtime_data r \<noteq> non_realtime_data r \<and> buf_mutex r = None) \<and>
     (\<forall>b c r q. m b = Some r \<longrightarrow> m c = Some q \<longrightarrow> b \<noteq> c \<longrightarrow> owned r \<inter> owned q = {})"

definition world_ok :: "'v world \<Rightarrow> bool" where
  "world_ok w \<longleftrightarrow> bufs_ok (bufs w) \<and> dom (objs w) = owned_by (bufs w) \<and> (\<forall>a\<in>dom (objs w). a < fresh w)"

text \<open>
  The abstract value of a buffer: what the realtime side has, and what is waiting for it.
\<close>

definition buf_abs :: "(addr \<Rightarrow> 'v option) \<Rightarrow> rtb \<Rightarrow> 'v \<times> 'v option" where
  "buf_abs h r = (the (h (realtime_data r)),
     if new_data_available r then Some (the (h (non_realtime_data r))) else None)"

definition world_abs :: "'v world \<Rightarrow> buf_id \<Rightarrow> ('v \<times> 'v option) option" where
  "world_abs w b = map_option (buf_abs (objs w)) (bufs w b)"

fun latest :: "'v \<times> 'v option \<Rightarrow> 'v" where
  "latest (v, None) = v"
| "latest (v, Some u) = u"

lemma owned_byI: "m b = Some r \<Longrightarrow> a \<in> owned r \<Longrightarrow> a \<in> owned_by m"
  by (auto simp: owned_by_def)

lemma owned_byE:
  assumes "a \<in> owned_by m"
  obtains b r where "m b = Some r" "a \<in> owned r"
  using assms by (auto simp: owned_by_def)

lemma owned_by_other: "bufs_ok m \<Longrightarrow> m b = Some r \<Longrightarrow> m c = Some q \<Longrightarrow> b \<noteq> c \<Longrightarrow> owned r \<inter> owned q = {}"
  by (simp add: bufs_ok_def)

lemma owned_by_remove:
  assumes "bufs_ok m" "m b = Some r"
  shows "owned_by (m(b := None)) = owned_by m - owned r"
proof (intro equalityI subsetI)
  fix a assume "a \<in> owned_by (m(b := None))"
  then obtain c q where "m c = Some q" "c \<noteq> b" "a \<in> owned q"
    by (auto elim!: owned_byE split: if_splits)
  with owned_by_other [OF assms, of c q] show "a \<in> owned_by m - owned r"
    by (auto intro: owned_byI)
next
  fix a assume "a \<in> owned_by m - owned r"
  then obtain c q where "m c = Some q" "a \<in> owned q" "a \<notin> owned r" by (auto elim: owned_byE)
  moreover from this assms(2) have "c \<noteq> b" by auto
  ultimately show "a \<in> owned_by (m(b := None))" by (intro owned_byI [of _ c q]) simp_all
qed

lemma owned_by_insert: "owned_by (m(b \<mapsto> r)) = owned_by (m(b := None)) \<union> owned r"
  by (auto simp: owned_by_def)

lemma bufs_ok_insert:
  assumes "bufs_ok m" "realtime_data r \<noteq> non_realtime_data r" "buf_mutex r = None"
    and "owned r \<inter> owned_by (m(b := None)) = {}"
  shows "bufs_ok (m(b \<mapsto> r))"
proof -
  have d: "owned r \<inter> owned q = {}" if "m c = Some q" "c \<noteq> b" for c q
  proof -
    have "owned q \<subseteq> owned_by (m(b := None))"
      using that by (auto simp: owned_by_def intro!: exI [of _ c])
    with assms(4) show ?thesis by blast
  qed
  show ?thesis
    using assms(1-3) d by (auto simp: bufs_ok_def Int_commute)
qed

lemma bufs_ok_remove: "bufs_ok m \<Longrightarrow> bufs_ok (m(b := None))"
  by (simp add: bufs_ok_def)

lemma world_ok_buf:
  assumes "world_ok w" "bufs w b = Some r"
  obtains rt nrt f v u where
    "r = \<lparr>realtime_data = rt, non_realtime_data = nrt, new_data_available = f, buf_mutex = None\<rparr>"
    "objs w rt = Some v" "objs w nrt = Some u" "rt \<noteq> nrt"
proof -
  have "realtime_data r \<in> dom (objs w)" "non_realtime_data r \<in> dom (objs w)"
    using assms by (auto simp: world_ok_def owned_by_def owned_def)
  moreover have "realtime_data r \<noteq> non_realtime_data r" "buf_mutex r = None"
    using assms by (auto simp: world_ok_def bufs_ok_def)
  ultimately show ?thesis using that by (cases r) auto
qed

lemma buf_abs_frame: "a \<notin> owned r \<Longrightarrow> buf_abs (h(a := x)) r = buf_abs h r"
  by (auto simp: buf_abs_def owned_def)

text \<open>Four kinds of change keep a heap well formed, and change one buffer's abstract value.\<close>

lemma world_store:
  assumes "world_ok w" "bufs w b = Some r" "a \<in> owned r"
  shows "world_ok (w\<lparr>objs := (objs w)(a \<mapsto> v)\<rparr>)"
    and "world_abs (w\<lparr>objs := (objs w)(a \<mapsto> v)\<rparr>) =
      (world_abs w)(b \<mapsto> buf_abs ((objs w)(a \<mapsto> v)) r)"
proof -
  have "a \<in> dom (objs w)" using assms by (auto simp: world_ok_def owned_by_def)
  with assms(1) show "world_ok (w\<lparr>objs := (objs w)(a \<mapsto> v)\<rparr>)"
    by (simp add: world_ok_def insert_absorb)
  have "a \<notin> owned q" if "bufs w c = Some q" "c \<noteq> b" for c q
    using owned_by_other [of "bufs w" b r c q] assms that by (auto simp: world_ok_def)
  then show "world_abs (w\<lparr>objs := (objs w)(a \<mapsto> v)\<rparr>) =
      (world_abs w)(b \<mapsto> buf_abs ((objs w)(a \<mapsto> v)) r)"
    using assms(2) by (auto simp: fun_eq_iff world_abs_def buf_abs_frame intro!: option.map_cong0 option.map_cong)
qed

lemma world_update:
  assumes "world_ok w" "bufs w b = Some r" "owned q = owned r"
    and "realtime_data q \<noteq> non_realtime_data q" "buf_mutex q = None"
  shows "world_ok (w\<lparr>bufs := (bufs w)(b \<mapsto> q)\<rparr>)"
    and "world_abs (w\<lparr>bufs := (bufs w)(b \<mapsto> q)\<rparr>) = (world_abs w)(b \<mapsto> buf_abs (objs w) q)"
proof -
  have ok: "bufs_ok (bufs w)" using assms(1) by (simp add: world_ok_def)
  have "owned_by ((bufs w)(b := None)) = owned_by (bufs w) - owned r"
    by (rule owned_by_remove [OF ok assms(2)])
  moreover have "owned r \<subseteq> owned_by (bufs w)" using assms(2) by (auto simp: owned_by_def)
  ultimately show "world_ok (w\<lparr>bufs := (bufs w)(b \<mapsto> q)\<rparr>)"
    using assms bufs_ok_insert [OF ok assms(4,5), of b]
    by (auto simp: world_ok_def owned_by_insert)
  show "world_abs (w\<lparr>bufs := (bufs w)(b \<mapsto> q)\<rparr>) = (world_abs w)(b \<mapsto> buf_abs (objs w) q)"
    by (auto simp: fun_eq_iff world_abs_def)
qed

lemma world_insert:
  assumes "world_ok w" "bufs w b = None" "owned r = {n, m}" "n \<noteq> m" "fresh w \<le> n" "fresh w \<le> m"
    and "realtime_data r \<noteq> non_realtime_data r" "buf_mutex r = None"
    and "objs w' = (objs w)(n \<mapsto> v, m \<mapsto> u)" "n < fresh w'" "m < fresh w'" "fresh w \<le> fresh w'"
    and "bufs w' = (bufs w)(b \<mapsto> r)"
  shows "world_ok w'"
    and "world_abs w' = (world_abs w)(b \<mapsto> buf_abs (objs w') r)"
proof -
  have none: "(bufs w)(b := None) = bufs w" using assms(2) by (simp add: fun_eq_iff)
  have dom: "dom (objs w) = owned_by (bufs w)" and lt: "\<And>a. a \<in> owned_by (bufs w) \<Longrightarrow> a < fresh w"
    using assms(1) by (auto simp: world_ok_def)
  have new: "owned r \<inter> owned_by (bufs w) = {}"
    using lt assms(3,5,6) by fastforce
  have "bufs_ok (bufs w')"
    using bufs_ok_insert [of "bufs w" r b] assms(1,7,8,13) new none by (simp add: world_ok_def)
  moreover have "dom (objs w') = owned_by (bufs w')"
    using dom none by (auto simp: assms(3,9,13) owned_by_insert)
  moreover have "a < fresh w'" if "a \<in> dom (objs w')" for a
    using that assms(9-12) dom lt [of a] by (auto split: if_splits)
  ultimately show "world_ok w'" by (simp add: world_ok_def)
  have "buf_abs (objs w') q = buf_abs (objs w) q" if "bufs w c = Some q" for c q
  proof -
    have "n \<notin> owned q" "m \<notin> owned q"
      using new that assms(3) by (auto intro: owned_byI)
    then show ?thesis by (simp add: assms(9) buf_abs_frame)
  qed
  then show "world_abs w' = (world_abs w)(b \<mapsto> buf_abs (objs w') r)"
    by (auto simp: fun_eq_iff world_abs_def assms(13) intro!: option.map_cong)
qed

lemma world_delete:
  assumes "world_ok w" "bufs w b = Some r"
    and "objs w' = (objs w)(non_realtime_data r := None, realtime_data r := None)"
    and "fresh w' = fresh w" "bufs w' = (bufs w)(b := None)"
  shows "world_ok w'" and "world_abs w' = (world_abs w)(b := None)"
proof -
  have ok: "bufs_ok (bufs w)" using assms(1) by (simp add: world_ok_def)
  have "dom (objs w') = dom (objs w) - owned r" by (auto simp: assms(3) owned_def split: if_splits)
  then show "world_ok w'"
    using assms(1) owned_by_remove [OF ok assms(2)] bufs_ok_remove [OF ok]
    by (auto simp: world_ok_def assms(4,5))
  have "buf_abs (objs w') q = buf_abs (objs w) q" if "bufs w c = Some q" "c \<noteq> b" for c q
  proof -
    have "owned r \<inter> owned q = {}" using owned_by_other [OF ok assms(2) that(1)] that(2) by simp
    then show ?thesis by (auto simp: assms(3) buf_abs_frame owned_def)
  qed
  then show "world_abs w' = (world_abs w)(b := None)"
    by (auto simp: fun_eq_iff world_abs_def assms(5) intro!: option.map_cong)
qed

section \<open>What each member function does\<close>

lemma world_abs_Some: "world_abs w b = Some x \<Longrightarrow> \<exists>r. bufs w b = Some r \<and> x = buf_abs (objs w) r"
  by (auto simp: world_abs_def)

lemma world_abs_None: "world_abs w b = None \<longleftrightarrow> bufs w b = None"
  by (auto simp: world_abs_def)

lemma ctor_does:
  assumes "world_ok w" "bufs w b = None"
  shows "\<exists>w'. buf_ctor b v f w = (Return (), w') \<and> world_ok w' \<and>
    world_abs w' = (world_abs w)(b \<mapsto> (v, if f then Some v else None))"
proof -
  define r where "r = \<lparr>realtime_data = fresh w + 1, non_realtime_data = fresh w,
      new_data_available = f, buf_mutex = None\<rparr>"
  define w' where "w' = w\<lparr>objs := (objs w)(fresh w \<mapsto> v, fresh w + 1 \<mapsto> v), fresh := fresh w + 2,
      bufs := (bufs w)(b \<mapsto> r)\<rparr>"
  have "buf_ctor b v f w = (Return (), w')"
    by (simp add: buf_ctor_def new_obj_def bindp_def w'_def r_def)
  moreover have "world_ok w'" and "world_abs w' = (world_abs w)(b \<mapsto> buf_abs (objs w') r)"
    using world_insert [OF assms, of r "fresh w" "fresh w + 1" w' v v]
    by (simp_all add: w'_def r_def owned_def insert_commute)
  moreover have "buf_abs (objs w') r = (v, if f then Some v else None)"
    by (simp add: w'_def r_def buf_abs_def)
  ultimately show ?thesis by auto
qed

lemma dtor_does:
  assumes "world_ok w" "bufs w b = Some r"
  shows "\<exists>w'. buf_dtor b w = (Return (), w') \<and> world_ok w' \<and> world_abs w' = (world_abs w)(b := None)"
proof -
  define w' where "w' = w\<lparr>objs := (objs w)(non_realtime_data r := None, realtime_data r := None),
      bufs := (bufs w)(b := None)\<rparr>"
  obtain rt nrt f x u where r: "r = \<lparr>realtime_data = rt, non_realtime_data = nrt,
      new_data_available = f, buf_mutex = None\<rparr>" "objs w rt = Some x" "objs w nrt = Some u" "rt \<noteq> nrt"
    using world_ok_buf [OF assms] by metis
  then have "buf_dtor b w = (Return (), w')"
    using assms(2) by (simp add: buf_dtor_def buf_delete_def field_def delete_obj_def bindp_def w'_def)
  then show ?thesis
    using world_delete [OF assms, of w'] by (simp add: w'_def)
qed

lemma reset_does:
  assumes "world_ok w" "bufs w b = Some r"
  shows "\<exists>w'. reset b dflt w = (Return (), w') \<and> world_ok w' \<and>
    world_abs w' = (world_abs w)(b \<mapsto> (dflt, if new_data_available r then Some dflt else None))"
proof -
  define w1 where "w1 = w\<lparr>objs := (objs w)(non_realtime_data r := None, realtime_data r := None),
      bufs := (bufs w)(b := None)\<rparr>"
  define q where "q = r\<lparr>realtime_data := fresh w + 1, non_realtime_data := fresh w\<rparr>"
  define w' where "w' = w\<lparr>objs := (objs w1)(fresh w \<mapsto> dflt, fresh w + 1 \<mapsto> dflt), fresh := fresh w + 2,
      bufs := (bufs w)(b \<mapsto> q)\<rparr>"
  obtain rt nrt f x u where r: "r = \<lparr>realtime_data = rt, non_realtime_data = nrt,
      new_data_available = f, buf_mutex = None\<rparr>" "objs w rt = Some x" "objs w nrt = Some u" "rt \<noteq> nrt"
    using world_ok_buf [OF assms] by metis
  have "reset b dflt w = (Return (), w')"
    using assms(2) r by (simp add: reset_def buf_delete_def field_def delete_obj_def update_def
        new_obj_def bindp_def w1_def w'_def q_def)
  moreover have ok: "world_ok w1" and a: "world_abs w1 = (world_abs w)(b := None)"
    using world_delete [OF assms, of w1] by (simp_all add: w1_def)
  moreover have "world_ok w'" and "world_abs w' = (world_abs w1)(b \<mapsto> buf_abs (objs w') q)"
    using world_insert [OF ok, of b q "fresh w" "fresh w + 1" w' dflt dflt]
    by (simp_all add: r(1) w1_def w'_def q_def owned_def insert_commute)
  moreover have "buf_abs (objs w') q = (dflt, if new_data_available r then Some dflt else None)"
    by (simp add: w'_def q_def buf_abs_def)
  ultimately show ?thesis by auto
qed

lemma write_does:
  assumes "world_ok w" "bufs w b = Some r"
  shows "\<exists>w'. writeFromNonRT t b v w = (Return (), w') \<and> world_ok w' \<and>
    world_abs w' = (world_abs w)(b \<mapsto> (fst (buf_abs (objs w) r), Some v))"
proof -
  obtain rt nrt f x u where r: "r = \<lparr>realtime_data = rt, non_realtime_data = nrt,
      new_data_available = f, buf_mutex = None\<rparr>" "objs w rt = Some x" "objs w nrt = Some u" "rt \<noteq> nrt"
    using world_ok_buf [OF assms] by metis
  define w1 where "w1 = w\<lparr>objs := (objs w)(non_realtime_data r \<mapsto> v)\<rparr>"
  define q where "q = r\<lparr>new_data_available := True\<rparr>"
  define w2 where "w2 = w1\<lparr>bufs := (bufs w1)(b \<mapsto> q)\<rparr>"
  have "writeFromNonRT t b v w = (Return (), w2)"
    using assms(2) r by (simp add: writeFromNonRT_def guarded_def buf_lock_def buf_unlock_def bindp_def
        field_def store_def update_def w2_def w1_def q_def)
  moreover have 1: "world_ok w1" "world_abs w1 = (world_abs w)(b \<mapsto> buf_abs (objs w1) r)"
    using world_store [OF assms, of "non_realtime_data r" v] by (simp_all add: w1_def owned_def)
  moreover have "world_ok w2" "world_abs w2 = (world_abs w1)(b \<mapsto> buf_abs (objs w1) q)"
    using world_update [OF 1(1), of b r q] assms(2) r by (simp_all add: w2_def q_def owned_def w1_def)
  moreover have "buf_abs (objs w1) q = (fst (buf_abs (objs w) r), Some v)"
    using r by (simp add: w1_def q_def buf_abs_def)
  ultimately show ?thesis by auto
qed

lemma read_nonrt_does:
  assumes "world_ok w" "bufs w b = Some r"
  shows "bindp (readFromNonRT t b) load w = (Return (latest (buf_abs (objs w) r)), w)"
proof -
  obtain rt nrt f x u where r: "r = \<lparr>realtime_data = rt, non_realtime_data = nrt,
      new_data_available = f, buf_mutex = None\<rparr>" "objs w rt = Some x" "objs w nrt = Some u" "rt \<noteq> nrt"
    using world_ok_buf [OF assms] by metis
  have same: "(bufs w)(b \<mapsto> r) = bufs w" using assms(2) by (simp add: fun_upd_idem)
  have "readFromNonRT t b w = (Return (if f then nrt else rt), w)"
    using assms(2) r same
    by (cases f) (simp_all add: readFromNonRT_def guarded_def buf_lock_def buf_unlock_def bindp_def
        field_def update_def)
  with r show ?thesis by (simp add: bindp_def load_def buf_abs_def)
qed

lemma read_rt_does:
  assumes "world_ok w" "bufs w b = Some r"
  shows "\<exists>w'. bindp (readFromRT t b) load w = (Return (latest (buf_abs (objs w) r)), w') \<and> world_ok w' \<and>
    world_abs w' = (world_abs w)(b \<mapsto> (latest (buf_abs (objs w) r), None)) \<and> objs w' = objs w"
proof -
  obtain rt nrt f x u where r: "r = \<lparr>realtime_data = rt, non_realtime_data = nrt,
      new_data_available = f, buf_mutex = None\<rparr>" "objs w rt = Some x" "objs w nrt = Some u" "rt \<noteq> nrt"
    using world_ok_buf [OF assms] by metis
  define q where "q = (if new_data_available r
      then r\<lparr>realtime_data := non_realtime_data r, non_realtime_data := realtime_data r,
              new_data_available := False\<rparr> else r)"
  define w' where "w' = w\<lparr>bufs := (bufs w)(b \<mapsto> q)\<rparr>"
  have "readFromRT t b w = (Return (realtime_data q), w')"
    using assms(2) r by (simp add: readFromRT_def buf_try_lock_def guarded_def swap_new_def
        field_def update_def buf_unlock_def bindp_def w'_def q_def)
  moreover have "world_ok w'" "world_abs w' = (world_abs w)(b \<mapsto> buf_abs (objs w) q)"
    using world_update [OF assms, of q] r by (simp_all add: w'_def q_def owned_def insert_commute)
  moreover have "buf_abs (objs w) q = (latest (buf_abs (objs w) r), None)"
    using r by (simp add: q_def buf_abs_def)
  moreover have "load (realtime_data q) w' = (Return (latest (buf_abs (objs w) r)), w')"
    using r by (simp add: load_def q_def w'_def buf_abs_def)
  moreover have "objs w' = objs w" by (simp add: w'_def)
  ultimately show ?thesis by (auto simp: bindp_def)
qed

lemma init_does:
  assumes "world_ok w" "bufs w b = Some r"
  shows "\<exists>w'. initRT b v w = (Return (), w') \<and> world_ok w' \<and>
    world_abs w' = (world_abs w)(b \<mapsto> (v, if new_data_available r then Some v else None))"
proof -
  obtain rt nrt f x u where r: "r = \<lparr>realtime_data = rt, non_realtime_data = nrt,
      new_data_available = f, buf_mutex = None\<rparr>" "objs w rt = Some x" "objs w nrt = Some u" "rt \<noteq> nrt"
    using world_ok_buf [OF assms] by metis
  define w1 where "w1 = w\<lparr>objs := (objs w)(non_realtime_data r \<mapsto> v)\<rparr>"
  define w2 where "w2 = w1\<lparr>objs := (objs w1)(realtime_data r \<mapsto> v)\<rparr>"
  have "initRT b v w = (Return (), w2)"
    using assms(2) r by (simp add: initRT_def field_def store_def bindp_def w1_def w2_def)
  moreover have 1: "world_ok w1" "world_abs w1 = (world_abs w)(b \<mapsto> buf_abs (objs w1) r)"
    using world_store [OF assms, of "non_realtime_data r" v] by (simp_all add: w1_def owned_def)
  moreover have "world_ok w2" "world_abs w2 = (world_abs w1)(b \<mapsto> buf_abs (objs w2) r)"
    using world_store [OF 1(1), of b r "realtime_data r" v] assms(2)
    by (simp_all add: w1_def w2_def owned_def)
  moreover have "buf_abs (objs w2) r = (v, if new_data_available r then Some v else None)"
    using r by (simp add: w1_def w2_def buf_abs_def)
  ultimately show ?thesis by auto
qed

section \<open>Sequences of calls on any number of buffers\<close>

text \<open>
  One call after the other, on existing buffers or constructing new ones; a read reports the
  object its pointer leads to. \<open>dflt\<close> is \<^verbatim>\<open>T()\<close>.
\<close>

datatype 'v buf_cmd =
    Cmd_new buf_id
  | Cmd_new_data buf_id 'v
  | Cmd_copy buf_id buf_id bool
  | Cmd_destroy buf_id
  | Cmd_assign buf_id buf_id
  | Cmd_read_rt buf_id
  | Cmd_read_nonrt buf_id
  | Cmd_write buf_id 'v
  | Cmd_init buf_id 'v
  | Cmd_reset buf_id

fun exec_buf :: "tid \<Rightarrow> 'v \<Rightarrow> 'v buf_cmd \<Rightarrow> ('v world, 'v option) prog" where
  "exec_buf t dflt (Cmd_new b) = bindp (buf_ctor b dflt False) (\<lambda>_. ret None)"
| "exec_buf t dflt (Cmd_new_data b v) = bindp (buf_ctor b v False) (\<lambda>_. ret None)"
| "exec_buf t dflt (Cmd_copy b c g) = bindp (buf_copy_ctor t b c dflt g) (\<lambda>_. ret None)"
| "exec_buf t dflt (Cmd_destroy b) = bindp (buf_dtor b) (\<lambda>_. ret None)"
| "exec_buf t dflt (Cmd_assign b c) = bindp (buf_assign t b c) (\<lambda>_. ret None)"
| "exec_buf t dflt (Cmd_read_rt b) = bindp (bindp (readFromRT t b) load) (\<lambda>v. ret (Some v))"
| "exec_buf t dflt (Cmd_read_nonrt b) = bindp (bindp (readFromNonRT t b) load) (\<lambda>v. ret (Some v))"
| "exec_buf t dflt (Cmd_write b v) = bindp (writeFromNonRT t b v) (\<lambda>_. ret None)"
| "exec_buf t dflt (Cmd_init b v) = bindp (initRT b v) (\<lambda>_. ret None)"
| "exec_buf t dflt (Cmd_reset b) = bindp (reset b dflt) (\<lambda>_. ret None)"

text \<open>
  The specification knows no pointers: each buffer is the value the realtime side has and the
  value, if any, that its next read will take over. \<open>None\<close> is a call that violates a precondition
  (an unconstructed buffer, or one constructed twice).
\<close>

type_synonym 'v buf_spec = "buf_id \<Rightarrow> ('v \<times> 'v option) option"

fun spec_buf :: "'v \<Rightarrow> 'v buf_cmd \<Rightarrow> 'v buf_spec \<Rightarrow> ('v option \<times> 'v buf_spec) option" where
  "spec_buf dflt (Cmd_new b) m = (case m b of None \<Rightarrow> Some (None, m(b \<mapsto> (dflt, None))) | Some _ \<Rightarrow> None)"
| "spec_buf dflt (Cmd_new_data b v) m = (case m b of None \<Rightarrow> Some (None, m(b \<mapsto> (v, None))) | Some _ \<Rightarrow> None)"
| "spec_buf dflt (Cmd_copy b c g) m =
     (case (m b, m c) of
        (None, Some x) \<Rightarrow> Some (None, m(b \<mapsto> (dflt, Some (latest x))))
      | _ \<Rightarrow> None)"
| "spec_buf dflt (Cmd_destroy b) m = (case m b of None \<Rightarrow> None | Some _ \<Rightarrow> Some (None, m(b := None)))"
| "spec_buf dflt (Cmd_assign b c) m =
     (case (m b, m c) of
        (Some (v, _), Some x) \<Rightarrow>
          Some (None, if b = c then m else m(b \<mapsto> (v, Some (latest x))))
      | _ \<Rightarrow> None)"
| "spec_buf dflt (Cmd_read_rt b) m =
     (case m b of None \<Rightarrow> None | Some x \<Rightarrow> Some (Some (latest x), m(b \<mapsto> (latest x, None))))"
| "spec_buf dflt (Cmd_read_nonrt b) m =
     (case m b of None \<Rightarrow> None | Some x \<Rightarrow> Some (Some (latest x), m))"
| "spec_buf dflt (Cmd_write b v) m =
     (case m b of None \<Rightarrow> None | Some x \<Rightarrow> Some (None, m(b \<mapsto> (fst x, Some v))))"
| "spec_buf dflt (Cmd_init b v) m =
     (case m b of None \<Rightarrow> None | Some x \<Rightarrow> Some (None, m(b \<mapsto> (v, map_option (\<lambda>_. v) (snd x)))))"
| "spec_buf dflt (Cmd_reset b) m =
     (case m b of
        None \<Rightarrow> None
      | Some x \<Rightarrow> Some (None, m(b \<mapsto> (dflt, map_option (\<lambda>_. dflt) (snd x)))))"

lemma snd_buf_abs: "map_option (\<lambda>_. v) (snd (buf_abs h r)) = (if new_data_available r then Some v else None)"
  by (simp add: buf_abs_def)

lemma copy_value_does:
  assumes "world_ok w" "bufs w b = Some r" "bufs w c = Some q"
  shows "\<exists>w'. bindp (readFromNonRT t c) (\<lambda>p. bindp (load p) (\<lambda>v. writeFromNonRT t b v)) w = (Return (), w') \<and>
    world_ok w' \<and> world_abs w' = (world_abs w)(b \<mapsto> (fst (buf_abs (objs w) r), Some (latest (buf_abs (objs w) q))))"
proof -
  have "bindp (readFromNonRT t c) (\<lambda>p. bindp (load p) (\<lambda>v. writeFromNonRT t b v)) w =
      writeFromNonRT t b (latest (buf_abs (objs w) q)) w"
    using read_nonrt_does [OF assms(1,3), of t] by (simp add: bindp_assoc [symmetric] bindp_simps)
  with write_does [OF assms(1,2), of t "latest (buf_abs (objs w) q)"] show ?thesis by auto
qed

lemma exec_buf_refines:
  assumes "world_ok w" "spec_buf dflt c (world_abs w) = Some (r, m)"
  shows "\<exists>w'. exec_buf t dflt c w = (Return r, w') \<and> world_ok w' \<and> world_abs w' = m"
proof (cases c)
  case (Cmd_new b)
  with assms ctor_does [OF assms(1), of b dflt False] show ?thesis
    by (fastforce simp: world_abs_def bindp_simps split: option.splits)
next
  case (Cmd_new_data b v)
  with assms ctor_does [OF assms(1), of b v False] show ?thesis
    by (fastforce simp: world_abs_def bindp_simps split: option.splits)
next
  case (Cmd_copy b s g)
  then obtain x where x: "world_abs w b = None" "world_abs w s = Some x"
      and rm: "r = None" "m = (world_abs w)(b \<mapsto> (dflt, Some (latest x)))"
    using assms(2) by (auto split: option.splits)
  have "b \<noteq> s" using x by auto
  have wb: "bufs w b = None" using x(1) by (simp add: world_abs_None)
  obtain w1 where w1: "buf_ctor b dflt g w = (Return (), w1)" "world_ok w1"
      "world_abs w1 = (world_abs w)(b \<mapsto> (dflt, if g then Some dflt else None))"
    using ctor_does [OF assms(1) wb] by blast
  have "world_abs w1 b = Some (dflt, if g then Some dflt else None)" "world_abs w1 s = Some x"
    using w1(3) x(2) \<open>b \<noteq> s\<close> by simp_all
  then obtain rb rs where rb: "bufs w1 b = Some rb" "fst (buf_abs (objs w1) rb) = dflt"
      and rs: "bufs w1 s = Some rs" "x = buf_abs (objs w1) rs"
    by (metis fst_conv world_abs_Some)
  obtain w2 where "bindp (readFromNonRT t s) (\<lambda>p. bindp (load p) (\<lambda>v. writeFromNonRT t b v)) w1 = (Return (), w2)"
      "world_ok w2" "world_abs w2 = (world_abs w1)(b \<mapsto> (dflt, Some (latest x)))"
    using copy_value_does [OF w1(2) rb(1) rs(1), of t] rb(2) rs(2) by auto
  then show ?thesis
    using w1 rm by (simp add: Cmd_copy buf_copy_ctor_def bindp_simps)
next
  case (Cmd_destroy b)
  then obtain x where x: "world_abs w b = Some x" "r = None" "m = (world_abs w)(b := None)"
    using assms(2) by (auto split: option.splits)
  with world_abs_Some [OF x(1)] dtor_does [OF assms(1), of b] show ?thesis
    by (auto simp: Cmd_destroy bindp_simps)
next
  case (Cmd_assign b s)
  then obtain y x where x: "world_abs w b = Some y" "world_abs w s = Some x" "r = None"
      "m = (if b = s then world_abs w else (world_abs w)(b \<mapsto> (fst y, Some (latest x))))"
    using assms(2) by (auto split: option.splits)
  show ?thesis
  proof (cases "b = s")
    case True
    then show ?thesis using x assms(1) by (simp add: Cmd_assign buf_assign_def)
  next
    case False
    obtain rb rs where "bufs w b = Some rb" "y = buf_abs (objs w) rb" "bufs w s = Some rs" "x = buf_abs (objs w) rs"
      using world_abs_Some [OF x(1)] world_abs_Some [OF x(2)] by blast
    then show ?thesis
      using copy_value_does [OF assms(1), of b rb s rs t] x False
      by (auto simp: Cmd_assign buf_assign_def bindp_simps)
  qed
next
  case (Cmd_read_rt b)
  then obtain x where x: "world_abs w b = Some x" "r = Some (latest x)" "m = (world_abs w)(b \<mapsto> (latest x, None))"
    using assms(2) by (auto split: option.splits)
  with world_abs_Some [OF x(1)] read_rt_does [OF assms(1), of b _ t] show ?thesis
    by (fastforce simp: Cmd_read_rt bindp_simps)
next
  case (Cmd_read_nonrt b)
  then obtain x where x: "world_abs w b = Some x" "r = Some (latest x)" "m = world_abs w"
    using assms(2) by (auto split: option.splits)
  with world_abs_Some [OF x(1)] read_nonrt_does [OF assms(1), of b _ t] assms(1) show ?thesis
    by (auto simp: Cmd_read_nonrt bindp_simps)
next
  case (Cmd_write b v)
  then obtain x where x: "world_abs w b = Some x" "r = None" "m = (world_abs w)(b \<mapsto> (fst x, Some v))"
    using assms(2) by (auto split: option.splits)
  with world_abs_Some [OF x(1)] write_does [OF assms(1), of b _ t v] show ?thesis
    by (fastforce simp: Cmd_write bindp_simps)
next
  case (Cmd_init b v)
  then obtain x where x: "world_abs w b = Some x" "r = None"
      "m = (world_abs w)(b \<mapsto> (v, map_option (\<lambda>_. v) (snd x)))"
    using assms(2) by (auto split: option.splits)
  with world_abs_Some [OF x(1)] init_does [OF assms(1), of b _ v] show ?thesis
    by (fastforce simp: Cmd_init bindp_simps snd_buf_abs)
next
  case (Cmd_reset b)
  then obtain x where x: "world_abs w b = Some x" "r = None"
      "m = (world_abs w)(b \<mapsto> (dflt, map_option (\<lambda>_. dflt) (snd x)))"
    using assms(2) by (auto split: option.splits)
  with world_abs_Some [OF x(1)] reset_does [OF assms(1), of b _ dflt] show ?thesis
    by (fastforce simp: Cmd_reset bindp_simps snd_buf_abs)
qed


fun exec_bufs :: "tid \<Rightarrow> 'v \<Rightarrow> 'v buf_cmd list \<Rightarrow> ('v world, 'v option list) prog" where
  "exec_bufs t dflt [] = ret []"
| "exec_bufs t dflt (c # cs) =
     bindp (exec_buf t dflt c) (\<lambda>r. bindp (exec_bufs t dflt cs) (\<lambda>rs. ret (r # rs)))"

fun spec_bufs :: "'v \<Rightarrow> 'v buf_cmd list \<Rightarrow> 'v buf_spec \<Rightarrow> ('v option list \<times> 'v buf_spec) option" where
  "spec_bufs dflt [] m = Some ([], m)"
| "spec_bufs dflt (c # cs) m =
     (case spec_buf dflt c m of
        None \<Rightarrow> None
      | Some (r, m1) \<Rightarrow> (case spec_bufs dflt cs m1 of None \<Rightarrow> None | Some (rs, m2) \<Rightarrow> Some (r # rs, m2)))"

lemma exec_bufs_refines:
  "world_ok w \<Longrightarrow> spec_bufs dflt cs (world_abs w) = Some (rs, m) \<Longrightarrow>
     \<exists>w'. exec_bufs t dflt cs w = (Return rs, w') \<and> world_ok w' \<and> world_abs w' = m"
proof (induction cs arbitrary: w rs)
  case Nil
  then show ?case by auto
next
  case (Cons c cs)
  obtain r m1 rs' where s: "spec_buf dflt c (world_abs w) = Some (r, m1)"
      "spec_bufs dflt cs m1 = Some (rs', m)" "rs = r # rs'"
    using Cons.prems(2) by (auto split: option.splits)
  obtain w1 where w1: "exec_buf t dflt c w = (Return r, w1)" "world_ok w1" "world_abs w1 = m1"
    using exec_buf_refines [OF Cons.prems(1) s(1)] by blast
  obtain w2 where "exec_bufs t dflt cs w1 = (Return rs', w2)" "world_ok w2" "world_abs w2 = m"
    using Cons.IH [of w1 rs'] w1 s(2) by auto
  with w1 s(3) show ?case by (simp add: bindp_simps)
qed

definition empty_world :: "'v world" where
  "empty_world = \<lparr>objs = Map.empty, fresh = 0, bufs = Map.empty\<rparr>"

lemma empty_world_ok: "world_ok empty_world"
  by (simp add: world_ok_def bufs_ok_def owned_by_def empty_world_def)

lemma empty_world_abs [simp]: "world_abs empty_world = Map.empty"
  by (simp add: fun_eq_iff world_abs_def empty_world_def)

text \<open>
  C10. The buffers refine their pointer-free specification: for every sequence of constructions,
  copies, assignments, writes, reads, initialisations, resets and destructions that respects the
  lifetimes, no call meets undefined behaviour or blocks, and every read returns what the
  specification says: \<^verbatim>\<open>readFromRT\<close> and \<^verbatim>\<open>readFromNonRT\<close> the latest value written, a copy or an
  assigned buffer the latest value of its source, and no buffer sees what happens to another.
\<close>

theorem buffer_refines_values:
  assumes "spec_bufs dflt cs Map.empty = Some (rs, m)"
  shows "\<exists>w. exec_bufs t dflt cs empty_world = (Return rs, w) \<and> world_abs w = m"
  using exec_bufs_refines [OF empty_world_ok, of dflt cs rs m t] assms by auto

theorem buffer_refines_values_witness:
  "\<exists>w. exec_bufs 0 (0 :: int)
      [Cmd_new 1, Cmd_write 1 5, Cmd_copy 2 1 False, Cmd_read_rt 1, Cmd_write 1 6, Cmd_read_rt 2,
       Cmd_read_nonrt 1, Cmd_reset 1, Cmd_read_rt 1] empty_world =
    (Return [None, None, None, Some 5, None, Some 5, Some 6, None, Some 0], w)"
proof -
  have "spec_bufs (0 :: int)
      [Cmd_new 1, Cmd_write 1 5, Cmd_copy 2 1 False, Cmd_read_rt 1, Cmd_write 1 6, Cmd_read_rt 2,
       Cmd_read_nonrt 1, Cmd_reset 1, Cmd_read_rt 1] Map.empty =
      Some ([None, None, None, Some 5, None, Some 5, Some 6, None, Some 0],
        Map.empty(1 \<mapsto> (0, None), 2 \<mapsto> (5, None)))"
    by (simp add: fun_eq_iff)
  from buffer_refines_values [OF this, of 0] show ?thesis by blast
qed

text \<open>
  C31. Memory: after any such sequence exactly the objects of the live buffers are allocated, two
  distinct ones per buffer and none shared, so that nothing leaks, dangles or is deleted twice;
  when every buffer has been destroyed, the heap is empty again.
\<close>

theorem buffer_memory_safe:
  assumes "spec_bufs dflt cs Map.empty = Some (rs, m)" "exec_bufs t dflt cs empty_world = (r, w)"
  shows "is_return r \<and> dom (bufs w) = dom m \<and>
    {a. objs w a \<noteq> None} = {a. \<exists>b q. bufs w b = Some q \<and> a \<in> owned q} \<and> bufs_ok (bufs w) \<and>
    (m = Map.empty \<longrightarrow> objs w = Map.empty)"
proof -
  obtain w' where w': "exec_bufs t dflt cs empty_world = (Return rs, w')" "world_ok w'" "world_abs w' = m"
    using exec_bufs_refines [OF empty_world_ok, of dflt cs rs m t] assms(1) by auto
  have dom: "dom (bufs w') = dom m" using w'(3) by (force simp: world_abs_def)
  moreover have objs: "{a. objs w' a \<noteq> None} = {a. \<exists>b q. bufs w' b = Some q \<and> a \<in> owned q}"
    using w'(2) by (simp add: world_ok_def owned_by_def dom_def)
  moreover have "objs w' = Map.empty" if "m = Map.empty"
    using dom objs that by (simp add: fun_eq_iff)
  ultimately show ?thesis
    using w' assms(2) by (simp add: world_ok_def)
qed

theorem buffer_memory_safe_witness:
  "\<exists>w. exec_bufs 0 (0 :: int) [Cmd_new 1, Cmd_write 1 5, Cmd_read_rt 1, Cmd_destroy 1] empty_world =
     (Return [None, None, Some 5, None], w) \<and> objs w = Map.empty"
proof -
  have s: "spec_bufs (0 :: int) [Cmd_new 1, Cmd_write 1 5, Cmd_read_rt 1, Cmd_destroy 1] Map.empty =
      Some ([None, None, Some 5, None], Map.empty)"
    by (simp add: fun_eq_iff)
  obtain w where e: "exec_bufs 0 (0 :: int) [Cmd_new 1, Cmd_write 1 5, Cmd_read_rt 1, Cmd_destroy 1]
      empty_world = (Return [None, None, Some 5, None], w)"
    using exec_bufs_refines [OF empty_world_ok s [folded empty_world_abs], of 0] by blast
  from buffer_memory_safe [OF s e] have "objs w = Map.empty" by simp
  with e show ?thesis by (intro exI conjI)
qed

section \<open>One realtime thread and many others\<close>

text \<open>
  The realtime thread calls \<^verbatim>\<open>readFromRT\<close> and reads the object it got; any number of other
  threads call \<^verbatim>\<open>writeFromNonRT\<close>, or call \<^verbatim>\<open>readFromNonRT\<close> and copy the object it returned,
  as the copy constructor and the assignment do. A step is one operation on the mutex, one access
  to the members under it, the begin or the end of a write, or a read of an object. \<open>written\<close> is
  the initial value followed by the values written, \<open>version\<close> the index of the one the realtime
  thread has, \<open>rt_reads\<close> what it read and under which version, \<open>copies\<close> what the others copied.
\<close>

datatype owner = RT | NRT tid

datatype rt_pc = Rt_idle | Rt_owns | Rt_swapped | Rt_unlock | Rt_use addr

datatype 'v nrt_pc =
    N_idle
  | N_polling 'v
  | N_copying 'v
  | N_middle 'v
  | N_flag 'v
  | N_unlock
  | N_reading
  | N_choose
  | N_return addr
  | N_deref addr

record 'v shared_buffer =
  cells :: "addr \<Rightarrow> 'v content"
  rt_ptr :: addr
  nonrt_ptr :: addr
  new_data :: bool
  bmutex :: "owner std_mutex"
  rt_pc :: rt_pc
  nrt_pc :: "tid \<Rightarrow> 'v nrt_pc"
  written :: "'v list"
  version :: nat
  rt_reads :: "(nat \<times> 'v content) list"
  copies :: "'v content list"

fun rt_holds :: "rt_pc \<Rightarrow> bool" where
  "rt_holds Rt_owns = True"
| "rt_holds Rt_swapped = True"
| "rt_holds Rt_unlock = True"
| "rt_holds _ = False"

fun nrt_holds :: "'v nrt_pc \<Rightarrow> bool" where
  "nrt_holds (N_copying _) = True"
| "nrt_holds (N_middle _) = True"
| "nrt_holds (N_flag _) = True"
| "nrt_holds N_unlock = True"
| "nrt_holds N_choose = True"
| "nrt_holds (N_return _) = True"
| "nrt_holds _ = False"

inductive rt_step :: "'v shared_buffer \<Rightarrow> 'v shared_buffer \<Rightarrow> bool" where
  rt_try: "\<not> rt_holds (rt_pc s) \<Longrightarrow> mtx_try RT (bmutex s) = (owns_lock, m) \<Longrightarrow>
    rt_step s (s\<lparr>bmutex := m, rt_pc := if owns_lock then Rt_owns else Rt_use (rt_ptr s)\<rparr>)"
| rt_swap: "rt_pc s = Rt_owns \<Longrightarrow> new_data s \<Longrightarrow>
    rt_step s (s\<lparr>rt_ptr := nonrt_ptr s, nonrt_ptr := rt_ptr s, version := length (written s) - 1,
      rt_pc := Rt_swapped\<rparr>)"
| rt_clear: "rt_pc s = Rt_swapped \<Longrightarrow> rt_step s (s\<lparr>new_data := False, rt_pc := Rt_unlock\<rparr>)"
| rt_nothing: "rt_pc s = Rt_owns \<Longrightarrow> \<not> new_data s \<Longrightarrow> rt_step s (s\<lparr>rt_pc := Rt_unlock\<rparr>)"
| rt_release: "rt_pc s = Rt_unlock \<Longrightarrow>
    rt_step s (s\<lparr>bmutex := None, rt_pc := Rt_use (rt_ptr s)\<rparr>)"
| rt_read: "rt_pc s = Rt_use p \<Longrightarrow>
    rt_step s (s\<lparr>rt_reads := rt_reads s @ [(version s, cells s p)]\<rparr>)"

abbreviation nrt_at :: "tid \<Rightarrow> 'v nrt_pc \<Rightarrow> 'v shared_buffer \<Rightarrow> 'v shared_buffer" where
  "nrt_at t p s \<equiv> s\<lparr>nrt_pc := (nrt_pc s)(t := p)\<rparr>"

inductive nrt_step :: "'v shared_buffer \<Rightarrow> 'v shared_buffer \<Rightarrow> bool" where
  n_write: "nrt_pc s t = N_idle \<Longrightarrow> nrt_step s (nrt_at t (N_polling v) s)"
| n_poll: "nrt_pc s t = N_polling v \<Longrightarrow> mtx_try (NRT t) (bmutex s) = (got, m) \<Longrightarrow>
    nrt_step s (nrt_at t (if got then N_copying v else N_polling v) (s\<lparr>bmutex := m\<rparr>))"
| n_copy_begin: "nrt_pc s t = N_copying v \<Longrightarrow>
    nrt_step s (nrt_at t (N_middle v) (s\<lparr>cells := (cells s)(nonrt_ptr s := Torn)\<rparr>))"
| n_copy_end: "nrt_pc s t = N_middle v \<Longrightarrow>
    nrt_step s (nrt_at t (N_flag v) (s\<lparr>cells := (cells s)(nonrt_ptr s := Whole v)\<rparr>))"
| n_set_flag: "nrt_pc s t = N_flag v \<Longrightarrow>
    nrt_step s (nrt_at t N_unlock (s\<lparr>new_data := True, written := written s @ [v]\<rparr>))"
| n_unlock: "nrt_pc s t = N_unlock \<Longrightarrow> nrt_step s (nrt_at t N_idle (s\<lparr>bmutex := None\<rparr>))"
| n_read: "nrt_pc s t = N_idle \<Longrightarrow> nrt_step s (nrt_at t N_reading s)"
| n_lock: "nrt_pc s t = N_reading \<Longrightarrow> bmutex s = None \<Longrightarrow>
    nrt_step s (nrt_at t N_choose (s\<lparr>bmutex := Some (NRT t)\<rparr>))"
| n_choose: "nrt_pc s t = N_choose \<Longrightarrow>
    nrt_step s (nrt_at t (N_return (if new_data s then nonrt_ptr s else rt_ptr s)) s)"
| n_return: "nrt_pc s t = N_return p \<Longrightarrow> nrt_step s (nrt_at t (N_deref p) (s\<lparr>bmutex := None\<rparr>))"
| n_deref: "nrt_pc s t = N_deref p \<Longrightarrow>
    nrt_step s (nrt_at t N_idle (s\<lparr>copies := copies s @ [cells s p]\<rparr>))"

definition buffer_step :: "'v shared_buffer \<Rightarrow> 'v shared_buffer \<Rightarrow> bool" where
  "buffer_step s s' \<longleftrightarrow> rt_step s s' \<or> nrt_step s s'"

definition buffer_start :: "'v \<Rightarrow> 'v shared_buffer \<Rightarrow> bool" where
  "buffer_start v s \<longleftrightarrow> rt_ptr s \<noteq> nonrt_ptr s \<and> cells s = (\<lambda>_. Whole v) \<and> \<not> new_data s \<and>
     bmutex s = None \<and> rt_pc s = Rt_idle \<and> nrt_pc s = (\<lambda>_. N_idle) \<and> written s = [v] \<and>
     version s = 0 \<and> rt_reads s = [] \<and> copies s = []"

subsection \<open>The invariant\<close>

text \<open>The non-realtime object, from the point of view of whoever holds the mutex.\<close>

fun pending_ok :: "'v nrt_pc \<Rightarrow> bool \<Rightarrow> 'v content \<Rightarrow> 'v \<Rightarrow> bool" where
  "pending_ok (N_middle v) new c u = (c = Torn)"
| "pending_ok (N_flag v) new c u = (c = Whole v)"
| "pending_ok _ new c u = (new \<longrightarrow> c = Whole u)"

fun holder_pc :: "owner std_mutex \<Rightarrow> (tid \<Rightarrow> 'v nrt_pc) \<Rightarrow> 'v nrt_pc" where
  "holder_pc (Some (NRT t)) f = f t"
| "holder_pc _ f = N_idle"

definition reads_ok :: "'v list \<Rightarrow> (nat \<times> 'v content) list \<Rightarrow> nat \<Rightarrow> bool" where
  "reads_ok ws rs n \<longleftrightarrow> sorted (map fst rs) \<and>
     (\<forall>(i, c)\<in>set rs. i \<le> n \<and> i < length ws \<and> c = Whole (ws ! i))"

definition buffer_inv :: "'v shared_buffer \<Rightarrow> bool" where
  "buffer_inv s \<longleftrightarrow>
     rt_ptr s \<noteq> nonrt_ptr s \<and>
     lock_agrees nrt_holds NRT (nrt_pc s) (bmutex s) \<and>
     rt_holds (rt_pc s) = (bmutex s = Some RT) \<and>
     version s < length (written s) \<and> cells s (rt_ptr s) = Whole (written s ! version s) \<and>
     pending_ok (holder_pc (bmutex s) (nrt_pc s)) (new_data s \<and> rt_pc s \<noteq> Rt_swapped) (cells s (nonrt_ptr s))
       (last (written s)) \<and>
     (\<not> new_data s \<or> rt_pc s \<in> {Rt_swapped, Rt_unlock} \<longrightarrow> Suc (version s) = length (written s)) \<and>
     (rt_pc s = Rt_unlock \<longrightarrow> \<not> new_data s) \<and>
     (\<forall>p. rt_pc s = Rt_use p \<longrightarrow> p = rt_ptr s) \<and>
     reads_ok (written s) (rt_reads s) (version s)"

lemma inj_NRT: "inj NRT"
  by (simp add: inj_def)

lemma reads_ok_append:
  "reads_ok ws rs n \<Longrightarrow> n < length ws \<Longrightarrow> reads_ok ws (rs @ [(n, Whole (ws ! n))]) n"
  by (auto simp: reads_ok_def sorted_append)

lemma reads_ok_later: "reads_ok ws rs n \<Longrightarrow> n \<le> m \<Longrightarrow> reads_ok ws rs m"
  by (auto simp: reads_ok_def)

lemma reads_ok_written: "reads_ok ws rs n \<Longrightarrow> reads_ok (ws @ vs) rs n"
  by (auto simp: reads_ok_def nth_append)

lemma pending_ok_quiet: "\<not> nrt_holds p \<Longrightarrow> pending_ok p b c v \<longleftrightarrow> (b \<longrightarrow> c = Whole v)"
  by (cases p) auto

lemma rt_not_holding: "\<not> rt_holds p \<Longrightarrow> p \<noteq> Rt_swapped \<and> p \<noteq> Rt_unlock"
  by (cases p) auto

lemma buffer_inv_rt:
  assumes "buffer_inv s" "rt_step s s'"
  shows "buffer_inv s'"
  using assms(2)
proof cases
  case (rt_try b m)
  show ?thesis
  proof (cases "bmutex s")
    case None
    with rt_try assms(1) show ?thesis
      by (auto simp: buffer_inv_def lock_agrees_def)
  next
    case (Some a)
    then have "s' = s\<lparr>rt_pc := Rt_use (rt_ptr s)\<rparr>" using rt_try by (cases s) simp
    then show ?thesis using rt_not_holding [OF rt_try(2)] assms(1) rt_try(2) by (simp add: buffer_inv_def)
  qed
next
  case rt_swap
  then have "bmutex s = Some RT" "written s \<noteq> []" using assms(1) by (auto simp: buffer_inv_def)
  with rt_swap assms(1) show ?thesis
    by (auto simp: buffer_inv_def last_conv_nth intro: reads_ok_later)
next
  case rt_clear
  with assms(1) show ?thesis by (auto simp: buffer_inv_def)
next
  case rt_nothing
  with assms(1) show ?thesis by (auto simp: buffer_inv_def)
next
  case rt_release
  with assms(1) show ?thesis by (simp add: buffer_inv_def lock_agrees_def)
next
  case (rt_read p)
  with assms(1) show ?thesis by (simp add: buffer_inv_def reads_ok_append)
qed


lemma holder_pc_other:
  "lock_agrees nrt_holds NRT f m \<Longrightarrow> \<not> nrt_holds (f t) \<Longrightarrow> holder_pc m (f(t := p)) = holder_pc m f"
  by (cases "(m, f)" rule: holder_pc.cases) (auto simp: lock_agrees_def)

lemma buffer_inv_holder:
  assumes "buffer_inv s" "nrt_holds (nrt_pc s t)"
  shows "bmutex s = Some (NRT t)" "\<not> rt_holds (rt_pc s)" "rt_pc s \<noteq> Rt_swapped" "rt_pc s \<noteq> Rt_unlock"
proof -
  show m: "bmutex s = Some (NRT t)"
    using assms lock_agrees_owner [of nrt_holds NRT "nrt_pc s" "bmutex s" t] by (simp add: buffer_inv_def)
  then show h: "\<not> rt_holds (rt_pc s)" using assms by (simp add: buffer_inv_def)
  show "rt_pc s \<noteq> Rt_swapped" "rt_pc s \<noteq> Rt_unlock" using rt_not_holding [OF h] by simp_all
qed

text \<open>A thread that does not hold the mutex moves; the holder moves; a thread takes or frees it.\<close>

lemma buffer_inv_outside:
  assumes "buffer_inv s" "\<not> nrt_holds (nrt_pc s t)" "\<not> nrt_holds p"
  shows "buffer_inv (nrt_at t p s)" and "buffer_inv (nrt_at t p (s\<lparr>copies := cs\<rparr>))"
  using assms holder_pc_other [of "nrt_pc s" "bmutex s" t p]
  by (simp_all add: buffer_inv_def lock_agrees_keep)

lemma buffer_inv_inside:
  assumes "buffer_inv s" "nrt_holds (nrt_pc s t)" "nrt_holds p"
    and "pending_ok p (new_data s) (c (nonrt_ptr s)) (last (written s))"
    and "c (rt_ptr s) = cells s (rt_ptr s)"
  shows "buffer_inv (nrt_at t p (s\<lparr>cells := c\<rparr>))"
  using assms buffer_inv_holder [OF assms(1,2)]
  by (auto simp: buffer_inv_def lock_agrees_keep)

lemma buffer_inv_take:
  assumes "buffer_inv s" "bmutex s = None" "nrt_holds p"
    and "new_data s \<Longrightarrow> cells s (nonrt_ptr s) = Whole (last (written s)) \<Longrightarrow>
      pending_ok p (new_data s) (cells s (nonrt_ptr s)) (last (written s))"
    and "\<not> new_data s \<Longrightarrow> pending_ok p (new_data s) (cells s (nonrt_ptr s)) (last (written s))"
  shows "buffer_inv (nrt_at t p (s\<lparr>bmutex := Some (NRT t)\<rparr>))"
  using assms lock_agrees_take [OF inj_NRT, of nrt_holds "nrt_pc s" p t] rt_not_holding [of "rt_pc s"]
  by (cases "new_data s") (auto simp: buffer_inv_def)

lemma buffer_inv_drop:
  assumes "buffer_inv s" "nrt_holds (nrt_pc s t)" "\<not> nrt_holds p"
    and "pending_ok (nrt_pc s t) (new_data s) (cells s (nonrt_ptr s)) (last (written s)) \<Longrightarrow>
      new_data s \<Longrightarrow> cells s (nonrt_ptr s) = Whole (last (written s))"
  shows "buffer_inv (nrt_at t p (s\<lparr>bmutex := None\<rparr>))"
  using assms buffer_inv_holder [OF assms(1,2)]
    lock_agrees_drop [OF inj_NRT, of nrt_holds "nrt_pc s" "bmutex s" t p]
  by (auto simp: buffer_inv_def)

lemma buffer_inv_pending:
  assumes "buffer_inv s" "nrt_holds (nrt_pc s t)"
  shows "pending_ok (nrt_pc s t) (new_data s) (cells s (nonrt_ptr s)) (last (written s))"
  using assms buffer_inv_holder [OF assms] by (auto simp: buffer_inv_def)

lemma buffer_inv_distinct: "buffer_inv s \<Longrightarrow> rt_ptr s \<noteq> nonrt_ptr s"
  by (simp add: buffer_inv_def)

lemma buffer_inv_nrt:
  assumes "buffer_inv s" "nrt_step s s'"
  shows "buffer_inv s'"
  using assms(2)
proof cases
  case (n_write t v)
  then show ?thesis using buffer_inv_outside(1) [OF assms(1), of t "N_polling v"] by simp
next
  case (n_poll t v got m)
  show ?thesis
  proof (cases "bmutex s")
    case None
    with n_poll show ?thesis using buffer_inv_take [OF assms(1) None, of "N_copying v" t] by simp
  next
    case (Some a)
    then have "s' = nrt_at t (N_polling v) s" using n_poll by (cases s) simp
    then show ?thesis using buffer_inv_outside(1) [OF assms(1), of t "N_polling v"] n_poll(2) by simp
  qed
next
  case (n_copy_begin t v)
  then show ?thesis using buffer_inv_inside [OF assms(1), of t "N_middle v" "(cells s)(nonrt_ptr s := Torn)"]
      buffer_inv_distinct [OF assms(1)] by simp
next
  case (n_copy_end t v)
  then show ?thesis using buffer_inv_inside [OF assms(1), of t "N_flag v" "(cells s)(nonrt_ptr s := Whole v)"]
      buffer_inv_distinct [OF assms(1)] by simp
next
  case (n_set_flag t v)
  then have h: "bmutex s = Some (NRT t)" "\<not> rt_holds (rt_pc s)" "cells s (nonrt_ptr s) = Whole v"
      "rt_pc s \<noteq> Rt_unlock" "rt_pc s \<noteq> Rt_swapped"
    using buffer_inv_holder [OF assms(1), of t] buffer_inv_pending [OF assms(1), of t] by simp_all
  with n_set_flag h assms(1) show ?thesis
    by (simp add: buffer_inv_def lock_agrees_keep nth_append reads_ok_written)
next
  case (n_unlock t)
  then show ?thesis using buffer_inv_drop [OF assms(1), of t N_idle] by simp
next
  case (n_read t)
  then show ?thesis using buffer_inv_outside(1) [OF assms(1), of t N_reading] by simp
next
  case (n_lock t)
  then show ?thesis using buffer_inv_take [OF assms(1), of N_choose t] by simp
next
  case (n_choose t)
  then show ?thesis
    using buffer_inv_inside [OF assms(1), of t "N_return (if new_data s then nonrt_ptr s else rt_ptr s)" "cells s"]
      buffer_inv_pending [OF assms(1), of t] by simp
next
  case (n_return t p)
  then show ?thesis using buffer_inv_drop [OF assms(1), of t "N_deref p"] by simp
next
  case (n_deref t p)
  then show ?thesis using buffer_inv_outside(2) [OF assms(1), of t N_idle] by simp
qed

interpretation bufferm: safety "buffer_start v" buffer_step buffer_inv for v
proof
  fix s :: "'a shared_buffer"
  assume "buffer_start v s"
  then show "buffer_inv s"
    by (simp add: buffer_start_def buffer_inv_def lock_agrees_def reads_ok_def)
next
  fix s s' :: "'a shared_buffer"
  assume "buffer_inv s" "buffer_step s s'"
  then show "buffer_inv s'" using buffer_inv_rt buffer_inv_nrt by (auto simp: buffer_step_def)
qed


subsection \<open>Properties\<close>

text \<open>
  C4. Whatever the other threads do, the realtime thread reads complete values and never an older
  one after a newer one: every object it reads holds the value written under the version it has,
  never a torn one, and the versions it sees never decrease.
\<close>

theorem rt_reads_whole:
  assumes "reach (buffer_start v) buffer_step s"
  shows "sorted (map fst (rt_reads s)) \<and>
    (\<forall>(i, c)\<in>set (rt_reads s). i < length (written s) \<and> c = Whole (written s ! i))"
proof -
  have "buffer_inv s" by (rule bufferm.reach_inv [OF assms])
  then show ?thesis by (auto simp: buffer_inv_def reads_ok_def)
qed

text \<open>
  C26. Freshness and progress of \<^verbatim>\<open>readFromRT\<close>: when it got the mutex, the object it is about to
  return holds the last value written so far; when it did not, another thread has the mutex at that
  moment. The realtime thread never waits: in every reachable state its next step is possible.
\<close>

theorem rt_read_fresh:
  assumes "reach (buffer_start v) buffer_step s"
  shows "(rt_pc s = Rt_unlock \<longrightarrow> cells s (rt_ptr s) = Whole (last (written s))) \<and>
    (\<not> rt_holds (rt_pc s) \<and> \<not> fst (mtx_try RT (bmutex s)) \<longrightarrow>
       (\<exists>t. nrt_holds (nrt_pc s t) \<and> bmutex s = Some (NRT t))) \<and>
    (\<exists>s'. rt_step s s')"
proof -
  have inv: "buffer_inv s" by (rule bufferm.reach_inv [OF assms])
  have "cells s (rt_ptr s) = Whole (last (written s))" if "rt_pc s = Rt_unlock"
  proof -
    have "Suc (version s) = length (written s)" "cells s (rt_ptr s) = Whole (written s ! version s)"
      using inv that by (simp_all add: buffer_inv_def)
    then show ?thesis by (metis diff_Suc_1 last_conv_nth length_0_conv nat.distinct(1))
  qed
  moreover have "\<exists>t. nrt_holds (nrt_pc s t) \<and> bmutex s = Some (NRT t)"
    if h: "\<not> rt_holds (rt_pc s)" "\<not> fst (mtx_try RT (bmutex s))"
  proof -
    obtain a where a: "bmutex s = Some a" using h(2) by (cases "bmutex s") auto
    then obtain t where "a = NRT t" using inv h(1) by (cases a) (auto simp: buffer_inv_def)
    with a inv show ?thesis by (auto simp: buffer_inv_def lock_agrees_def)
  qed
  moreover have "\<exists>s'. rt_step s s'"
  proof (cases "rt_holds (rt_pc s)")
    case True
    then show ?thesis by (cases "rt_pc s"; cases "new_data s") (auto intro: rt_step.intros)
  next
    case False
    then show ?thesis by (cases "mtx_try RT (bmutex s)") (blast intro: rt_try)
  qed
  ultimately show ?thesis by blast
qed

text \<open>
  A run: a thread writes 5, the realtime thread takes it over and reads it, while another thread
  that asked for the latest value still has to copy it.
\<close>

definition run_begin :: "int shared_buffer" where
  "run_begin = \<lparr>cells = (\<lambda>_. Whole 0), rt_ptr = 0, nonrt_ptr = 1, new_data = False, bmutex = None,
     rt_pc = Rt_idle, nrt_pc = (\<lambda>_. N_idle), written = [0], version = 0, rt_reads = [], copies = []\<rparr>"

definition run_written :: "int shared_buffer" where
  "run_written = run_begin\<lparr>cells := (\<lambda>_. Whole 0)(1 := Whole 5), new_data := True, written := [0, 5]\<rparr>"

definition run_unlock :: "int shared_buffer" where
  "run_unlock = run_written\<lparr>rt_ptr := 1, nonrt_ptr := 0, new_data := False, bmutex := Some RT,
     rt_pc := Rt_unlock, version := 1\<rparr>"

definition run_read :: "int shared_buffer" where
  "run_read = run_unlock\<lparr>bmutex := None, rt_pc := Rt_use 1, rt_reads := [(1, Whole 5)]\<rparr>"

definition run_torn :: "int shared_buffer" where
  "run_torn = run_written\<lparr>cells := (\<lambda>_. Whole 0)(1 := Torn), bmutex := Some (NRT 1),
     nrt_pc := (\<lambda>_. N_idle)(1 := N_middle 6), copies := [Torn]\<rparr>"

lemmas run_defs = run_begin_def run_written_def run_unlock_def run_read_def run_torn_def

lemma nrt_buffer: "nrt_step s s' \<Longrightarrow> buffer_step s s'" and rt_buffer: "rt_step s s' \<Longrightarrow> buffer_step s s'"
  by (simp_all add: buffer_step_def)

lemma run_write: "steps buffer_step run_begin run_written"
  apply (rule steps_step, rule nrt_buffer, rule n_write [where t = 1 and v = 5], simp add: run_begin_def)
  apply (rule steps_step, rule nrt_buffer, rule n_poll [where t = 1 and v = 5 and got = True and m = "Some (NRT 1)"],
      simp, simp add: run_begin_def)
  apply (rule steps_step, rule nrt_buffer, rule n_copy_begin [where t = 1 and v = 5], simp)
  apply (rule steps_step, rule nrt_buffer, rule n_copy_end [where t = 1 and v = 5], simp)
  apply (rule steps_step, rule nrt_buffer, rule n_set_flag [where t = 1 and v = 5], simp)
  apply (rule steps_step, rule nrt_buffer, rule n_unlock [where t = 1], simp)
  apply (rule steps_eq)
  apply (simp add: run_defs fun_eq_iff)
  done

lemma run_take: "steps buffer_step run_written run_unlock"
  apply (rule steps_step, rule rt_buffer, rule rt_try [where owns_lock = True and m = "Some RT"],
      simp add: run_defs, simp add: run_defs)
  apply (rule steps_step, rule rt_buffer, rule rt_swap, simp, simp add: run_defs)
  apply (rule steps_step, rule rt_buffer, rule rt_clear, simp)
  apply (rule steps_eq)
  apply (simp add: run_defs fun_eq_iff)
  done

lemma run_use: "steps buffer_step run_unlock run_read"
  apply (rule steps_step, rule rt_buffer, rule rt_release, simp add: run_unlock_def)
  apply (rule steps_step, rule rt_buffer, rule rt_read [where p = 1], simp add: run_defs)
  apply (rule steps_eq)
  apply (simp add: run_defs fun_eq_iff)
  done

lemma run_race: "steps buffer_step run_written run_torn"
  apply (rule steps_step, rule nrt_buffer, rule n_read [where t = 2], simp add: run_defs)
  apply (rule steps_step, rule nrt_buffer, rule n_lock [where t = 2], simp, simp add: run_defs)
  apply (rule steps_step, rule nrt_buffer, rule n_choose [where t = 2], simp)
  apply (rule steps_step, rule nrt_buffer, rule n_return [where t = 2 and p = 1], simp add: run_defs)
  apply (rule steps_step, rule nrt_buffer, rule n_write [where t = 1 and v = 6], simp add: run_defs)
  apply (rule steps_step, rule nrt_buffer, rule n_poll [where t = 1 and v = 6 and got = True and m = "Some (NRT 1)"],
      simp, simp)
  apply (rule steps_step, rule nrt_buffer, rule n_copy_begin [where t = 1 and v = 6], simp)
  apply (rule steps_step, rule nrt_buffer, rule n_deref [where t = 2 and p = 1], simp)
  apply (rule steps_eq)
  apply (simp add: run_defs fun_eq_iff)
  done

lemma run_start: "reach (buffer_start 0) buffer_step run_begin"
  by (rule reach_init) (simp add: buffer_start_def run_begin_def)

lemma run_unlock_reach: "reach (buffer_start 0) buffer_step run_unlock"
  by (rule reach_steps [OF run_take reach_steps [OF run_write run_start]])

theorem rt_reads_whole_witness:
  "rt_reads run_read = [(1, Whole 5)] \<and> written run_read ! 1 = 5"
  using rt_reads_whole [OF reach_steps [OF run_use run_unlock_reach]]
  by (simp add: run_defs)

theorem rt_read_fresh_witness:
  "rt_pc run_unlock = Rt_unlock \<and> cells run_unlock (rt_ptr run_unlock) = Whole 5 \<and>
   (\<exists>s'. rt_step run_unlock s')"
  using rt_read_fresh [OF run_unlock_reach] by (simp add: run_defs)

text \<open>
  Copying a buffer is not safe while others write to it: \<^verbatim>\<open>readFromNonRT\<close> releases the mutex
  before its caller dereferences the pointer, so that the copy constructor and the assignment can
  copy an object in the middle of another thread's write.
\<close>

theorem copy_can_be_torn:
  "\<exists>s :: int shared_buffer. reach (buffer_start 0) buffer_step s \<and> Torn \<in> set (copies s)"
  by (rule exI [of _ run_torn], rule conjI, rule reach_steps [OF run_race reach_steps [OF run_write run_start]])
    (simp add: run_torn_def)

end
