(* ===== verification/Realtime_Publisher.thy ===== *)
theory Realtime_Publisher
  imports RT_Prelude
begin

text \<open>
  \<^verbatim>\<open>RealtimePublisher\<close> (\<^verbatim>\<open>realtime_publisher.hpp\<close>): a one-message mailbox between real-time
  callers of \<^verbatim>\<open>try_publish\<close> and the publishing thread. The class is a machine with one thread
  for \<^verbatim>\<open>publishingLoop\<close>, the constructor's thread and any number of clients. Each rule of the
  step relations below is one access to shared memory, one lock operation or one operation on
  the condition variable of the source, so that every interleaving of the threads is a run.
\<close>

section \<open>State\<close>

datatype turn = REALTIME | NON_REALTIME | LOOP_NOT_STARTED

datatype thread_id = Loop | Client tid

text \<open>Where \<^verbatim>\<open>publishingLoop\<close> is.\<close>

datatype loop_pc =
    LoopIdle      \<comment> \<open>the thread has not been created\<close>
  | LoopBegin     \<comment> \<open>about to set \<^verbatim>\<open>is_running_\<close>\<close>
  | LoopTest      \<comment> \<open>at the test of the \<^verbatim>\<open>while\<close>\<close>
  | LoopOpen      \<comment> \<open>about to store \<^verbatim>\<open>REALTIME\<close>\<close>
  | LoopLock      \<comment> \<open>about to lock \<^verbatim>\<open>msg_mutex_\<close>\<close>
  | LoopPred      \<comment> \<open>about to read \<^verbatim>\<open>turn_\<close> in the predicate of the wait, with the lock\<close>
  | LoopPredStop  \<comment> \<open>about to read \<^verbatim>\<open>keep_running_\<close> in the predicate, with the lock\<close>
  | LoopBlock     \<comment> \<open>about to release the lock and block, the predicate having been false\<close>
  | LoopWait      \<comment> \<open>blocked in the wait, without the lock\<close>
  | LoopRelock    \<comment> \<open>woken, about to lock again\<close>
  | LoopCopy      \<comment> \<open>about to copy \<^verbatim>\<open>msg_\<close>, with the lock\<close>
  | LoopUnlock    \<comment> \<open>about to leave the locked scope\<close>
  | LoopTestPub   \<comment> \<open>at the test of \<^verbatim>\<open>keep_running_\<close> before publishing\<close>
  | LoopPublish   \<comment> \<open>about to call \<^verbatim>\<open>publisher_->publish\<close>\<close>
  | LoopEnd       \<comment> \<open>about to clear \<^verbatim>\<open>is_running_\<close>\<close>
  | LoopDone      \<comment> \<open>returned\<close>

datatype ctor_pc = CtorFields | CtorSpawn | CtorSpin | CtorDone

text \<open>
  Where a client is: in \<^verbatim>\<open>try_publish\<close>, in \<^verbatim>\<open>can_publish\<close>, in \<^verbatim>\<open>stop\<close> (called directly, or by
  the destructor when the flag is true), or in the rest of the destructor. A Boolean in the
  programs of the first two says whether the \<^verbatim>\<open>try_to_lock\<close> succeeded.
\<close>

datatype 'm client_pc =
    Idle
  | TryLock 'm | TryCheck 'm bool | TryWrite 'm | TryStore 'm | TryUnlock | TryNotify
  | TryFail bool | TryRet bool
  | CanLock | CanCheck bool | CanUnlock bool bool | CanRet bool
  | StopLock bool | StopStore bool | StopUnlock bool | StopNotify bool | StopRet
  | DtorSpin | DtorJoin | DtorRet

text \<open>
  The fields of the class, the program counters, and two histories: the messages that
  \<^verbatim>\<open>try_publish\<close> took (those for which it returns true), and the calls of
  \<^verbatim>\<open>publisher_->publish\<close>.
\<close>

record 'm pub =
  is_running :: bool
  keep_running :: bool
  turn :: turn
  msg :: 'm
  msg_mutex :: "thread_id std_mutex"
  outgoing :: 'm
  loop :: loop_pc
  ctor :: ctor_pc
  joined :: bool
  clients :: "tid \<Rightarrow> 'm client_pc"
  accepted :: "'m list"
  published :: "'m list"

definition at_client :: "tid \<Rightarrow> 'm client_pc \<Rightarrow> 'm pub \<Rightarrow> 'm pub" where
  [effect_defs]: "at_client i p s = s\<lparr>clients := (clients s)(i := p)\<rparr>"

text \<open>Before the constructor runs, the atomics hold whatever the memory held.\<close>

definition pub_init :: "'m pub \<Rightarrow> bool" where
  "pub_init s \<longleftrightarrow>
     msg_mutex s = None \<and> loop s = LoopIdle \<and> ctor s = CtorFields \<and> \<not> joined s \<and>
     clients s = (\<lambda>_. Idle) \<and> accepted s = [] \<and> published s = []"

section \<open>Construction\<close>

text \<open>
  \<^verbatim>\<open>initialize\<close>: set the fields, start the thread, spin until the loop has run. The thread starts: that
  the constructor of \<^verbatim>\<open>std::thread\<close> throws for want of resources is not modelled.
\<close>

inductive ctor_step :: "'m pub \<Rightarrow> 'm pub \<Rightarrow> bool" where
  ctor_fields: "ctor s = CtorFields \<Longrightarrow>
     ctor_step s (s\<lparr>is_running := False, keep_running := True, turn := LOOP_NOT_STARTED,
                    ctor := CtorSpawn\<rparr>)"
| ctor_spawn: "ctor s = CtorSpawn \<Longrightarrow> ctor_step s (s\<lparr>loop := LoopBegin, ctor := CtorSpin\<rparr>)"
| ctor_return: "ctor s = CtorSpin \<Longrightarrow> turn s \<noteq> LOOP_NOT_STARTED \<Longrightarrow>
     ctor_step s (s\<lparr>ctor := CtorDone\<rparr>)"

section \<open>The publishing thread\<close>

text \<open>
  \<^verbatim>\<open>publishingLoop\<close>. The wait on the condition variable is: evaluate the predicate with the
  lock, one atomic read after the other; if it is false, release the lock and block, which is one
  operation; when notified, or spuriously, take the lock back and evaluate again. \<^verbatim>\<open>dflt\<close> is
  \<^verbatim>\<open>MessageT()\<close>.
\<close>

inductive loop_step :: "'m \<Rightarrow> 'm pub \<Rightarrow> 'm pub \<Rightarrow> bool" for dflt :: 'm where
  loop_begin: "loop s = LoopBegin \<Longrightarrow>
     loop_step dflt s (s\<lparr>is_running := True, loop := LoopTest\<rparr>)"
| loop_again: "loop s = LoopTest \<Longrightarrow> keep_running s \<Longrightarrow>
     loop_step dflt s (s\<lparr>outgoing := dflt, loop := LoopOpen\<rparr>)"
| loop_leave: "loop s = LoopTest \<Longrightarrow> \<not> keep_running s \<Longrightarrow>
     loop_step dflt s (s\<lparr>loop := LoopEnd\<rparr>)"
| loop_open: "loop s = LoopOpen \<Longrightarrow>
     loop_step dflt s (s\<lparr>turn := REALTIME, loop := LoopLock\<rparr>)"
| loop_lock: "loop s = LoopLock \<Longrightarrow> msg_mutex s = None \<Longrightarrow>
     loop_step dflt s (s\<lparr>msg_mutex := Some Loop, loop := LoopPred\<rparr>)"
| loop_pred: "loop s = LoopPred \<Longrightarrow>
     loop_step dflt s (s\<lparr>loop := if turn s = NON_REALTIME then LoopCopy else LoopPredStop\<rparr>)"
| loop_pred_stop: "loop s = LoopPredStop \<Longrightarrow>
     loop_step dflt s (s\<lparr>loop := if \<not> keep_running s then LoopCopy else LoopBlock\<rparr>)"
| loop_block: "loop s = LoopBlock \<Longrightarrow>
     loop_step dflt s (s\<lparr>msg_mutex := None, loop := LoopWait\<rparr>)"
| loop_spurious: "loop s = LoopWait \<Longrightarrow>
     loop_step dflt s (s\<lparr>loop := LoopRelock\<rparr>)"
| loop_relock: "loop s = LoopRelock \<Longrightarrow> msg_mutex s = None \<Longrightarrow>
     loop_step dflt s (s\<lparr>msg_mutex := Some Loop, loop := LoopPred\<rparr>)"
| loop_copy: "loop s = LoopCopy \<Longrightarrow>
     loop_step dflt s (s\<lparr>outgoing := msg s, loop := LoopUnlock\<rparr>)"
| loop_unlock: "loop s = LoopUnlock \<Longrightarrow>
     loop_step dflt s (s\<lparr>msg_mutex := None, loop := LoopTestPub\<rparr>)"
| loop_test_pub: "loop s = LoopTestPub \<Longrightarrow> keep_running s \<Longrightarrow>
     loop_step dflt s (s\<lparr>loop := LoopPublish\<rparr>)"
| loop_skip_pub: "loop s = LoopTestPub \<Longrightarrow> \<not> keep_running s \<Longrightarrow>
     loop_step dflt s (s\<lparr>loop := LoopTest\<rparr>)"
| loop_publish: "loop s = LoopPublish \<Longrightarrow>
     loop_step dflt s (s\<lparr>published := published s @ [outgoing s], loop := LoopTest\<rparr>)"
| loop_end: "loop s = LoopEnd \<Longrightarrow>
     loop_step dflt s (s\<lparr>is_running := False, loop := LoopDone\<rparr>)"

section \<open>Clients\<close>

text \<open>\<^verbatim>\<open>updated_cond_.notify_one()\<close>: only the loop ever waits on it.\<close>

definition notify_loop :: "'m pub \<Rightarrow> 'm pub" where
  [effect_defs]: "notify_loop s = (if loop s = LoopWait then s\<lparr>loop := LoopRelock\<rparr> else s)"

text \<open>\<^verbatim>\<open>can_publish(lock)\<close>, given whether the lock is owned.\<close>

definition can_publish_now :: "'m pub \<Rightarrow> bool \<Rightarrow> bool" where
  "can_publish_now s owns \<longleftrightarrow> turn s = REALTIME \<and> owns"

text \<open>\<^verbatim>\<open>try_publish\<close>, from the call to the return of its result.\<close>

inductive try_publish_step :: "tid \<Rightarrow> 'm pub \<Rightarrow> 'm pub \<Rightarrow> bool" for i :: tid where
  try_call: "clients s i = Idle \<Longrightarrow> ctor s = CtorDone \<Longrightarrow>
     try_publish_step i s (at_client i (TryLock m) s)"
| try_lock: "clients s i = TryLock m \<Longrightarrow> mtx_try (Client i) (msg_mutex s) = (owns, mtx) \<Longrightarrow>
     try_publish_step i s (at_client i (TryCheck m owns) (s\<lparr>msg_mutex := mtx\<rparr>))"
| try_check: "clients s i = TryCheck m owns \<Longrightarrow>
     try_publish_step i s
       (at_client i (if can_publish_now s owns then TryWrite m else TryFail owns) s)"
| try_write: "clients s i = TryWrite m \<Longrightarrow>
     try_publish_step i s (at_client i (TryStore m) (s\<lparr>msg := m\<rparr>))"
| try_store: "clients s i = TryStore m \<Longrightarrow>
     try_publish_step i s
       (at_client i TryUnlock (s\<lparr>turn := NON_REALTIME, accepted := accepted s @ [m]\<rparr>))"
| try_unlock: "clients s i = TryUnlock \<Longrightarrow>
     try_publish_step i s (at_client i TryNotify (s\<lparr>msg_mutex := None\<rparr>))"
| try_notify: "clients s i = TryNotify \<Longrightarrow>
     try_publish_step i s (at_client i (TryRet True) (notify_loop s))"
| try_fail: "clients s i = TryFail owns \<Longrightarrow>
     try_publish_step i s
       (at_client i (TryRet False) (if owns then s\<lparr>msg_mutex := None\<rparr> else s))"
| try_ret: "clients s i = TryRet b \<Longrightarrow> try_publish_step i s (at_client i Idle s)"

text \<open>\<^verbatim>\<open>can_publish()\<close>.\<close>

inductive can_publish_step :: "tid \<Rightarrow> 'm pub \<Rightarrow> 'm pub \<Rightarrow> bool" for i :: tid where
  can_call: "clients s i = Idle \<Longrightarrow> ctor s = CtorDone \<Longrightarrow>
     can_publish_step i s (at_client i CanLock s)"
| can_lock: "clients s i = CanLock \<Longrightarrow> mtx_try (Client i) (msg_mutex s) = (owns, mtx) \<Longrightarrow>
     can_publish_step i s (at_client i (CanCheck owns) (s\<lparr>msg_mutex := mtx\<rparr>))"
| can_check: "clients s i = CanCheck owns \<Longrightarrow>
     can_publish_step i s (at_client i (CanUnlock owns (can_publish_now s owns)) s)"
| can_unlock: "clients s i = CanUnlock owns b \<Longrightarrow>
     can_publish_step i s (at_client i (CanRet b) (if owns then s\<lparr>msg_mutex := None\<rparr> else s))"
| can_ret: "clients s i = CanRet b \<Longrightarrow> can_publish_step i s (at_client i Idle s)"

text \<open>\<^verbatim>\<open>stop()\<close>, and the destructor, which calls it, spins on \<^verbatim>\<open>is_running()\<close> and joins.\<close>

inductive stop_step :: "tid \<Rightarrow> 'm pub \<Rightarrow> 'm pub \<Rightarrow> bool" for i :: tid where
  stop_call: "clients s i = Idle \<Longrightarrow> ctor s = CtorDone \<Longrightarrow>
     stop_step i s (at_client i (StopLock dtor) s)"
| stop_lock: "clients s i = StopLock dtor \<Longrightarrow> msg_mutex s = None \<Longrightarrow>
     stop_step i s (at_client i (StopStore dtor) (s\<lparr>msg_mutex := Some (Client i)\<rparr>))"
| stop_store: "clients s i = StopStore dtor \<Longrightarrow>
     stop_step i s (at_client i (StopUnlock dtor) (s\<lparr>keep_running := False\<rparr>))"
| stop_unlock: "clients s i = StopUnlock dtor \<Longrightarrow>
     stop_step i s (at_client i (StopNotify dtor) (s\<lparr>msg_mutex := None\<rparr>))"
| stop_notify: "clients s i = StopNotify dtor \<Longrightarrow>
     stop_step i s (at_client i (if dtor then DtorSpin else StopRet) (notify_loop s))"
| stop_ret: "clients s i = StopRet \<Longrightarrow> stop_step i s (at_client i Idle s)"

inductive dtor_step :: "tid \<Rightarrow> 'm pub \<Rightarrow> 'm pub \<Rightarrow> bool" for i :: tid where
  dtor_stopped: "clients s i = DtorSpin \<Longrightarrow> \<not> is_running s \<Longrightarrow>
     dtor_step i s (at_client i (if joined s then DtorRet else DtorJoin) s)"
| dtor_join: "clients s i = DtorJoin \<Longrightarrow> loop s = LoopDone \<Longrightarrow>
     dtor_step i s (at_client i DtorRet (s\<lparr>joined := True\<rparr>))"

text \<open>Everything client \<^verbatim>\<open>i\<close> can do, and the whole class.\<close>

inductive client_step :: "tid \<Rightarrow> 'm pub \<Rightarrow> 'm pub \<Rightarrow> bool" for i :: tid where
  client_try: "try_publish_step i s t \<Longrightarrow> client_step i s t"
| client_can: "can_publish_step i s t \<Longrightarrow> client_step i s t"
| client_stop: "stop_step i s t \<Longrightarrow> client_step i s t"
| client_dtor: "dtor_step i s t \<Longrightarrow> client_step i s t"

inductive pub_step :: "'m \<Rightarrow> 'm pub \<Rightarrow> 'm pub \<Rightarrow> bool" for dflt :: 'm where
  pub_ctor: "ctor_step s t \<Longrightarrow> pub_step dflt s t"
| pub_loop: "loop_step dflt s t \<Longrightarrow> pub_step dflt s t"
| pub_client: "client_step i s t \<Longrightarrow> pub_step dflt s t"

section \<open>The invariant\<close>

text \<open>The predicate of the wait.\<close>

definition wake_pred :: "'m pub \<Rightarrow> bool" where
  "wake_pred s \<longleftrightarrow> turn s = NON_REALTIME \<or> \<not> keep_running s"

text \<open>Who holds \<^verbatim>\<open>msg_mutex_\<close> where, and who is about to notify the loop.\<close>

fun holds_lock :: "'m client_pc \<Rightarrow> bool" where
  "holds_lock (TryCheck _ owns) = owns"
| "holds_lock (TryWrite _) = True"
| "holds_lock (TryStore _) = True"
| "holds_lock TryUnlock = True"
| "holds_lock (TryFail owns) = owns"
| "holds_lock (CanCheck owns) = owns"
| "holds_lock (CanUnlock owns _) = owns"
| "holds_lock (StopStore _) = True"
| "holds_lock (StopUnlock _) = True"
| "holds_lock _ = False"

fun will_notify :: "'m client_pc \<Rightarrow> bool" where
  "will_notify TryUnlock = True"
| "will_notify TryNotify = True"
| "will_notify (StopUnlock _) = True"
| "will_notify (StopNotify _) = True"
| "will_notify _ = False"

definition lock_inv :: "'m pub \<Rightarrow> bool" where
  "lock_inv s \<longleftrightarrow> monitor_ok holds_lock Client Loop (clients s)
     (loop s \<in> {LoopPred, LoopPredStop, LoopBlock, LoopCopy, LoopUnlock}) (msg_mutex s)"

interpretation pub_monitor: monitor holds_lock Client Loop
  by unfold_locales (auto simp: inj_def)

text \<open>A client that writes has the turn, and its message is in \<^verbatim>\<open>msg_\<close> when it gives the turn.\<close>

fun client_ok :: "'m pub \<Rightarrow> 'm client_pc \<Rightarrow> bool" where
  "client_ok s (TryWrite _) = (turn s = REALTIME)"
| "client_ok s (TryStore m) = (turn s = REALTIME \<and> msg s = m)"
| "client_ok s (StopUnlock _) = (\<not> keep_running s)"
| "client_ok s (StopNotify _) = (\<not> keep_running s)"
| "client_ok s DtorSpin = (\<not> keep_running s)"
| "client_ok s DtorJoin = (\<not> keep_running s \<and> loop s = LoopDone)"
| "client_ok s DtorRet = (\<not> keep_running s \<and> loop s = LoopDone)"
| "client_ok s _ = True"

definition client_inv :: "'m pub \<Rightarrow> bool" where
  "client_inv s \<longleftrightarrow> (\<forall>i. client_ok s (clients s i))"

text \<open>The messages taken are the ones published and at most one more, by where the loop is.\<close>

definition none_behind :: "'m pub \<Rightarrow> bool" where
  "none_behind s \<longleftrightarrow> accepted s = published s"

definition one_behind :: "'m pub \<Rightarrow> bool" where
  "one_behind s \<longleftrightarrow> turn s = NON_REALTIME \<and> (\<exists>m. accepted s = published s @ [m])"

definition holding_in :: "('m pub \<Rightarrow> 'm) \<Rightarrow> 'm pub \<Rightarrow> bool" where
  "holding_in f s \<longleftrightarrow>
     turn s = REALTIME \<and> accepted s = published s \<or>
     turn s = NON_REALTIME \<and> accepted s = published s @ [f s]"

fun loop_ok :: "'m pub \<Rightarrow> loop_pc \<Rightarrow> bool" where
  "loop_ok s LoopIdle = none_behind s"
| "loop_ok s LoopBegin = (none_behind s \<and> turn s = LOOP_NOT_STARTED)"
| "loop_ok s LoopTest =
     (none_behind s \<and> (keep_running s \<longrightarrow> turn s \<noteq> REALTIME) \<or> \<not> keep_running s \<and> one_behind s)"
| "loop_ok s LoopOpen = (none_behind s \<and> turn s \<noteq> REALTIME)"
| "loop_ok s LoopLock = holding_in msg s"
| "loop_ok s LoopPred = holding_in msg s"
| "loop_ok s LoopPredStop = (holding_in msg s \<and> turn s = REALTIME)"
| "loop_ok s LoopBlock = (holding_in msg s \<and> \<not> wake_pred s)"
| "loop_ok s LoopWait = holding_in msg s"
| "loop_ok s LoopRelock = holding_in msg s"
| "loop_ok s LoopCopy = (holding_in msg s \<and> wake_pred s)"
| "loop_ok s LoopUnlock = (holding_in outgoing s \<and> wake_pred s)"
| "loop_ok s LoopTestPub =
     (if keep_running s then turn s = NON_REALTIME \<and> accepted s = published s @ [outgoing s]
      else none_behind s \<or> one_behind s)"
| "loop_ok s LoopPublish = (turn s = NON_REALTIME \<and> accepted s = published s @ [outgoing s])"
| "loop_ok s LoopEnd = (\<not> keep_running s \<and> (none_behind s \<or> one_behind s))"
| "loop_ok s LoopDone = (\<not> keep_running s \<and> (none_behind s \<or> one_behind s))"

fun ctor_ok :: "'m pub \<Rightarrow> ctor_pc \<Rightarrow> bool" where
  "ctor_ok s CtorFields = (loop s = LoopIdle \<and> clients s = (\<lambda>_. Idle))"
| "ctor_ok s CtorSpawn =
     (loop s = LoopIdle \<and> clients s = (\<lambda>_. Idle) \<and> keep_running s \<and> \<not> is_running s \<and>
      turn s = LOOP_NOT_STARTED)"
| "ctor_ok s CtorSpin =
     (loop s \<noteq> LoopIdle \<and> clients s = (\<lambda>_. Idle) \<and> keep_running s \<and>
      is_running s = (loop s \<noteq> LoopBegin))"
| "ctor_ok s CtorDone =
     (loop s \<noteq> LoopIdle \<and> loop s \<noteq> LoopBegin \<and> turn s \<noteq> LOOP_NOT_STARTED \<and>
      is_running s = (loop s \<noteq> LoopDone))"

definition wake_inv :: "'m pub \<Rightarrow> bool" where
  "wake_inv s \<longleftrightarrow> (loop s = LoopWait \<and> wake_pred s \<longrightarrow> (\<exists>i. will_notify (clients s i)))"

definition pub_inv :: "'m pub \<Rightarrow> bool" where
  "pub_inv s \<longleftrightarrow>
     lock_inv s \<and> client_inv s \<and> loop_ok s (loop s) \<and> ctor_ok s (ctor s) \<and> wake_inv s"

lemmas pub_inv_defs = pub_inv_def lock_inv_def monitor_ok_def lock_agrees_def client_inv_def wake_inv_def none_behind_def
  one_behind_def holding_in_def wake_pred_def can_publish_now_def


text \<open>Frame rules: the fields a predicate does not read.\<close>

lemma loop_ok_frame [simp]:
  "loop_ok (s\<lparr>is_running := b\<rparr>) p = loop_ok s p"
  "loop_ok (s\<lparr>msg_mutex := x\<rparr>) p = loop_ok s p"
  "loop_ok (s\<lparr>loop := l\<rparr>) p = loop_ok s p"
  "loop_ok (s\<lparr>ctor := c\<rparr>) p = loop_ok s p"
  "loop_ok (s\<lparr>joined := b\<rparr>) p = loop_ok s p"
  "loop_ok (s\<lparr>clients := cs\<rparr>) p = loop_ok s p"
  by (cases p; simp add: none_behind_def one_behind_def holding_in_def wake_pred_def)+

lemma client_ok_frame [simp]:
  "client_ok (s\<lparr>is_running := b\<rparr>) p = client_ok s p"
  "client_ok (s\<lparr>msg_mutex := x\<rparr>) p = client_ok s p"
  "client_ok (s\<lparr>outgoing := m\<rparr>) p = client_ok s p"
  "client_ok (s\<lparr>ctor := c\<rparr>) p = client_ok s p"
  "client_ok (s\<lparr>joined := b\<rparr>) p = client_ok s p"
  "client_ok (s\<lparr>clients := cs\<rparr>) p = client_ok s p"
  "client_ok (s\<lparr>accepted := ms\<rparr>) p = client_ok s p"
  "client_ok (s\<lparr>published := ms\<rparr>) p = client_ok s p"
  by (cases p; simp)+

lemma client_ok_loop [simp]:
  "loop s \<noteq> LoopDone \<Longrightarrow> client_ok s p \<Longrightarrow> client_ok (s\<lparr>loop := l\<rparr>) p"
  by (cases p) auto

lemma client_ok_end [simp]:
  "\<not> keep_running s \<Longrightarrow> client_ok s p \<Longrightarrow> client_ok (s\<lparr>loop := LoopDone\<rparr>) p"
  by (cases p) auto

lemma pub_inv_init: "pub_init s \<Longrightarrow> pub_inv s"
  by (simp add: pub_init_def pub_inv_defs)

lemma ctor_step_inv: "ctor_step s t \<Longrightarrow> pub_inv s \<Longrightarrow> pub_inv t"
  by (erule ctor_step.cases) (auto simp: pub_inv_defs)

lemma loop_step_lock_inv: "loop_step d s t \<Longrightarrow> lock_inv s \<Longrightarrow> lock_inv t"
  by (erule loop_step.cases) (auto simp: lock_inv_def monitor_ok_def lock_agrees_def)

lemma loop_step_loop_ok: "loop_step d s t \<Longrightarrow> loop_ok s (loop s) \<Longrightarrow> loop_ok t (loop t)"
  by (erule loop_step.cases)
    (auto simp: none_behind_def one_behind_def holding_in_def wake_pred_def split: if_splits)

lemma loop_step_ctor_ok:
  "loop_step d s t \<Longrightarrow> loop_ok s (loop s) \<Longrightarrow> ctor_ok s (ctor s) \<Longrightarrow> ctor_ok t (ctor t)"
  by (cases "ctor s") (auto elim!: loop_step.cases)

lemma loop_step_wake_inv: "loop_step d s t \<Longrightarrow> loop_ok s (loop s) \<Longrightarrow> wake_inv s \<Longrightarrow> wake_inv t"
  by (erule loop_step.cases) (auto simp: wake_inv_def wake_pred_def)

lemma client_ok_open [simp]: "client_ok s p \<Longrightarrow> client_ok (s\<lparr>turn := REALTIME\<rparr>) p"
  by (cases p) auto

lemma loop_step_client_inv:
  "loop_step d s t \<Longrightarrow> loop_ok s (loop s) \<Longrightarrow> client_inv s \<Longrightarrow> client_inv t"
  by (erule loop_step.cases) (auto simp: client_inv_def)

lemma loop_step_inv: "loop_step d s t \<Longrightarrow> pub_inv s \<Longrightarrow> pub_inv t"
  by (simp add: pub_inv_def loop_step_lock_inv loop_step_client_inv loop_step_loop_ok
      loop_step_ctor_ok loop_step_wake_inv)

subsection \<open>Steps of a client\<close>

lemma loop_ok_write [simp]:
  "turn s = REALTIME \<Longrightarrow> loop_ok s p \<Longrightarrow> loop_ok (s\<lparr>msg := m\<rparr>) p"
  by (cases p) (auto simp: none_behind_def one_behind_def holding_in_def wake_pred_def)

lemma loop_ok_store [simp]:
  "turn s = REALTIME \<Longrightarrow> msg s = m \<Longrightarrow> loop_ok s p \<Longrightarrow>
   p \<notin> {LoopIdle, LoopPred, LoopPredStop, LoopBlock, LoopCopy, LoopUnlock} \<Longrightarrow>
   loop_ok (s\<lparr>turn := NON_REALTIME, accepted := accepted s @ [m]\<rparr>) p"
  by (cases p)
    (auto simp: none_behind_def one_behind_def holding_in_def wake_pred_def split: if_splits)

lemma loop_ok_stop [simp]: "loop_ok s p \<Longrightarrow> p \<noteq> LoopBlock \<Longrightarrow> loop_ok (s\<lparr>keep_running := False\<rparr>) p"
  by (cases p)
    (auto simp: none_behind_def one_behind_def holding_in_def wake_pred_def split: if_splits)

lemmas client_cases = try_publish_step.cases can_publish_step.cases stop_step.cases dtor_step.cases

lemma client_step_cases:
  assumes "client_step i s t"
    and "try_publish_step i s t \<Longrightarrow> P" "can_publish_step i s t \<Longrightarrow> P"
    and "stop_step i s t \<Longrightarrow> P" "dtor_step i s t \<Longrightarrow> P"
  shows P
  using assms by (auto elim: client_step.cases)


lemma notify_loop_frame:
  "(loop (notify_loop s) \<in> {LoopPred, LoopPredStop, LoopBlock, LoopCopy, LoopUnlock}) = (loop s \<in> {LoopPred, LoopPredStop, LoopBlock, LoopCopy, LoopUnlock})"
  "clients (notify_loop s) = clients s" "msg_mutex (notify_loop s) = msg_mutex s"
  by (simp_all add: notify_loop_def)

lemma client_step_lock_inv: "client_step i s t \<Longrightarrow> lock_inv s \<Longrightarrow> lock_inv t"
  by (erule client_step_cases; erule client_cases)
    (simp_all add: at_client_def notify_loop_frame lock_inv_def pub_monitor.rules can_publish_now_def
      del: insert_iff)

lemma client_step_ctor_ok:
  "client_step i s t \<Longrightarrow> ctor_ok s (ctor s) \<Longrightarrow> ctor_ok t (ctor t)"
  by (cases "ctor s"; erule client_step_cases; erule client_cases) (auto simp: effect_defs)


lemma wake_inv_frame [simp]:
  "wake_inv (s\<lparr>msg := m\<rparr>) = wake_inv s"
  "wake_inv (s\<lparr>msg_mutex := x\<rparr>) = wake_inv s"
  "wake_inv (s\<lparr>joined := b\<rparr>) = wake_inv s"
  by (simp_all add: wake_inv_def wake_pred_def)

lemma wake_inv_awake: "loop s \<noteq> LoopWait \<Longrightarrow> wake_inv s"
  by (simp add: wake_inv_def)

lemma wake_inv_here: "will_notify p \<Longrightarrow> wake_inv (s\<lparr>clients := f(i := p)\<rparr>)"
  by (auto simp: wake_inv_def)

lemma wake_inv_keep:
  "f = clients s \<Longrightarrow> \<not> will_notify (f i) \<Longrightarrow> wake_inv s \<Longrightarrow> wake_inv (s\<lparr>clients := f(i := p)\<rparr>)"
  by (auto simp: wake_inv_def wake_pred_def)

lemma client_step_wake_inv: "client_step i s t \<Longrightarrow> wake_inv s \<Longrightarrow> wake_inv t"
  by (erule client_step_cases; erule client_cases)
    (simp_all add: effect_defs wake_inv_here wake_inv_keep wake_inv_awake)

text \<open>
  The other clients are undisturbed by a client's step: none of them is about to write or to
  give the turn while this one does, because it holds the lock.
\<close>

lemma client_ok_unlocked:
  "client_ok s p \<Longrightarrow> \<not> holds_lock p \<Longrightarrow> client_ok (s\<lparr>msg := m\<rparr>) p"
  "client_ok s p \<Longrightarrow> \<not> holds_lock p \<Longrightarrow> client_ok (s\<lparr>turn := x\<rparr>) p"
  by (cases p; simp)+

lemma client_ok_stop [simp]: "client_ok s p \<Longrightarrow> client_ok (s\<lparr>keep_running := False\<rparr>) p"
  by (cases p) auto

lemma others_unlocked:
  "lock_inv s \<Longrightarrow> holds_lock (clients s i) \<Longrightarrow> j \<noteq> i \<Longrightarrow> \<not> holds_lock (clients s j)"
  unfolding lock_inv_def by (rule pub_monitor.alone)

lemma dtor_past_spin:
  "pub_inv s \<Longrightarrow> clients s i = DtorSpin \<Longrightarrow> \<not> is_running s \<Longrightarrow> loop s = LoopDone"
  by (cases "ctor s") (auto simp: pub_inv_def)

lemma client_inv_frame [simp]:
  "client_inv (s\<lparr>msg_mutex := x\<rparr>) = client_inv s"
  "client_inv (s\<lparr>accepted := ms\<rparr>) = client_inv s"
  "client_inv (s\<lparr>joined := b\<rparr>) = client_inv s"
  by (simp_all add: client_inv_def)

lemma client_inv_keep:
  "f = clients s \<Longrightarrow> client_inv s \<Longrightarrow> client_ok s p \<Longrightarrow> client_inv (s\<lparr>clients := f(i := p)\<rparr>)"
  by (simp add: client_inv_def)

lemma client_inv_notify [simp]:
  "loop s = LoopWait \<Longrightarrow> client_inv s \<Longrightarrow> client_inv (s\<lparr>loop := LoopRelock\<rparr>)"
  by (simp add: client_inv_def)

lemma client_inv_stop [simp]: "client_inv s \<Longrightarrow> client_inv (s\<lparr>keep_running := False\<rparr>)"
  by (simp add: client_inv_def)

lemma client_inv_write:
  "holds_lock (clients s i) \<Longrightarrow> lock_inv s \<Longrightarrow> client_inv s \<Longrightarrow> turn s = REALTIME \<Longrightarrow>
     client_inv (s\<lparr>msg := m, clients := (clients s)(i := TryStore m)\<rparr>)"
  by (simp add: client_inv_def others_unlocked client_ok_unlocked)

lemma client_inv_store:
  "holds_lock (clients s i) \<Longrightarrow> lock_inv s \<Longrightarrow> client_inv s \<Longrightarrow>
     client_inv (s\<lparr>turn := x, accepted := ms, clients := (clients s)(i := TryUnlock)\<rparr>)"
  by (simp add: client_inv_def others_unlocked client_ok_unlocked)

lemma client_invD: "client_inv s \<Longrightarrow> clients s i = p \<Longrightarrow> client_ok s p"
  by (auto simp: client_inv_def)

lemma client_step_client_inv:
  assumes step: "client_step i s t" and inv: "pub_inv s"
  shows "client_inv t"
proof -
  have cl: "client_inv s" and lock: "lock_inv s"
    using inv by (simp_all add: pub_inv_def)
  show ?thesis
    using step cl lock client_invD [OF cl, of i] dtor_past_spin [OF inv, of i]
    by (elim client_step_cases; elim client_cases)
      (simp_all add: effect_defs client_inv_keep client_inv_write client_inv_store
        can_publish_now_def)
qed

lemma lock_free_loop:
  "lock_inv s \<Longrightarrow> holds_lock (clients s i) \<Longrightarrow> loop s \<notin> {LoopPred, LoopPredStop, LoopBlock, LoopCopy, LoopUnlock}"
  unfolding lock_inv_def using pub_monitor.owner by blast

lemma client_loop_made: "ctor_ok s (ctor s) \<Longrightarrow> clients s i \<noteq> Idle \<Longrightarrow> loop s \<noteq> LoopIdle"
  by (cases "ctor s") auto

lemma data_frame [simp]:
  "none_behind (s\<lparr>clients := cs\<rparr>) = none_behind s"
  "one_behind (s\<lparr>clients := cs\<rparr>) = one_behind s"
  "none_behind (s\<lparr>joined := b\<rparr>) = none_behind s"
  "one_behind (s\<lparr>joined := b\<rparr>) = one_behind s"
  "holding_in msg (s\<lparr>loop := l\<rparr>) = holding_in msg s"
  by (simp_all add: none_behind_def one_behind_def holding_in_def)

lemma client_step_loop_ok:
  assumes step: "client_step i s t" and inv: "pub_inv s"
  shows "loop_ok t (loop t)"
proof -
  have cl: "client_inv s" and lk: "lock_inv s" and lo: "loop_ok s (loop s)"
    and ct: "ctor_ok s (ctor s)"
    using inv by (simp_all add: pub_inv_def)
  have "loop s = LoopWait \<longrightarrow> holding_in msg s"
    using lo by (cases "loop s") auto
  then show ?thesis
    using step lo client_invD [OF cl, of i] lock_free_loop [OF lk, of i]
      client_loop_made [OF ct, of i]
    by (elim client_step_cases; elim client_cases) (simp_all add: effect_defs)
qed

lemma client_step_inv:
  assumes "client_step i s t" "pub_inv s"
  shows "pub_inv t"
  using assms client_step_client_inv [OF assms] client_step_loop_ok [OF assms]
  by (simp add: pub_inv_def client_step_lock_inv client_step_ctor_ok client_step_wake_inv)

interpretation pubm: safety pub_init "pub_step d" pub_inv for d
proof
  show "pub_init s \<Longrightarrow> pub_inv s" for s :: "'a pub"
    by (rule pub_inv_init)
  show "pub_inv s \<Longrightarrow> pub_step d s t \<Longrightarrow> pub_inv t" for s t :: "'a pub"
    by (auto elim!: pub_step.cases intro: ctor_step_inv loop_step_inv client_step_inv)
qed

section \<open>What every reachable state satisfies\<close>

abbreviation pub_reach :: "'m \<Rightarrow> 'm pub \<Rightarrow> bool" where
  "pub_reach d \<equiv> reach pub_init (pub_step d)"

lemmas pub_reach_inv = pubm.reach_inv

lemma behind_cases: "pub_inv s \<Longrightarrow> none_behind s \<or> one_behind s"
  unfolding pub_inv_def
  by (cases "loop s")
    (auto simp: none_behind_def one_behind_def holding_in_def split: if_splits)

lemma pub_invD:
  assumes "pub_inv s"
  shows "lock_inv s" "client_ok s (clients s i)" "loop_ok s (loop s)" "ctor_ok s (ctor s)" "wake_inv s"
  using assms by (simp_all add: pub_inv_def client_inv_def)

lemma clients_past_ctor: "pub_inv s \<Longrightarrow> clients s i \<noteq> Idle \<Longrightarrow> ctor s = CtorDone"
  using pub_invD(4) [of s] by (cases "ctor s") auto

subsection \<open>A run to show that the hypotheses can hold\<close>

text \<open>
  The object is constructed, the loop blocks in its wait, and client 0 publishes 7: the state
  between the store of the turn and the notification. The fields of the initial state that the
  constructor has not set hold arbitrary values.
\<close>

definition demo_start :: "nat pub" where
  "demo_start = \<lparr>is_running = True, keep_running = False, turn = NON_REALTIME, msg = 0,
     msg_mutex = None, outgoing = 0, loop = LoopIdle, ctor = CtorFields, joined = False,
     clients = (\<lambda>_. Idle), accepted = [], published = []\<rparr>"

definition demo_waiting :: "nat pub" where
  "demo_waiting = \<lparr>is_running = True, keep_running = True, turn = REALTIME, msg = 0,
     msg_mutex = None, outgoing = 0, loop = LoopWait, ctor = CtorDone, joined = False,
     clients = (\<lambda>_. Idle), accepted = [], published = []\<rparr>"

definition demo_stored :: "nat pub" where
  "demo_stored = \<lparr>is_running = True, keep_running = True, turn = NON_REALTIME, msg = 7,
     msg_mutex = Some (Client 0), outgoing = 0, loop = LoopWait, ctor = CtorDone, joined = False,
     clients = (\<lambda>_. Idle)(0 := TryUnlock), accepted = [7], published = []\<rparr>"

lemmas demo_defs = demo_start_def demo_waiting_def demo_stored_def

lemma demo_waiting_reach: "pub_reach 0 demo_waiting"
proof -
  have "steps (pub_step 0) demo_start demo_waiting"
    unfolding demo_start_def
    apply (rule steps_step, rule pub_ctor, rule ctor_fields, simp, simp)
    apply (rule steps_step, rule pub_ctor, rule ctor_spawn, simp, simp)
    apply (rule steps_step, rule pub_loop, rule loop_begin, simp, simp)
    apply (rule steps_step, rule pub_loop, rule loop_again, simp, simp, simp)
    apply (rule steps_step, rule pub_loop, rule loop_open, simp, simp)
    apply (rule steps_step, rule pub_ctor, rule ctor_return, simp, simp, simp)
    apply (rule steps_step, rule pub_loop, rule loop_lock, simp, simp, simp)
    apply (rule steps_step, rule pub_loop, rule loop_pred, simp, simp)
    apply (rule steps_step, rule pub_loop, rule loop_pred_stop, simp, simp)
    apply (rule steps_step, rule pub_loop, rule loop_block, simp, simp)
    apply (simp add: steps_eq demo_waiting_def)
    done
  then show ?thesis
    by (rule reach_steps) (simp add: reach_init pub_init_def demo_start_def)
qed

lemma demo_stored_reach: "pub_reach 0 demo_stored"
proof -
  have "steps (pub_step 0) demo_waiting demo_stored"
    unfolding demo_waiting_def
    apply (rule steps_step, rule pub_client [of 0], rule client_try, rule try_call [where m = 7],
        simp, simp, simp add: effect_defs)
    apply (rule steps_step, rule pub_client [of 0], rule client_try, rule try_lock, simp, simp,
        simp add: effect_defs)
    apply (rule steps_step, rule pub_client [of 0], rule client_try, rule try_check, simp,
        simp add: effect_defs can_publish_now_def)
    apply (rule steps_step, rule pub_client [of 0], rule client_try, rule try_write, simp,
        simp add: effect_defs)
    apply (rule steps_step, rule pub_client [of 0], rule client_try, rule try_store, simp,
        simp add: effect_defs)
    apply (simp add: steps_eq demo_stored_def fun_eq_iff)
    done
  then show ?thesis by (rule reach_steps) (rule demo_waiting_reach)
qed

section \<open>Properties\<close>

text \<open>
  C1. Delivery: whatever the interleaving, the messages handed to \<^verbatim>\<open>publisher_->publish\<close> are, in
  order and without repetition or invention, the messages \<^verbatim>\<open>try_publish\<close> accepted, except for at
  most the last accepted one; and while one is outstanding the turn is \<^verbatim>\<open>NON_REALTIME\<close>, so no
  further one can be accepted.
\<close>

theorem delivery:
  assumes "pub_reach d s"
  shows "accepted s = published s \<or>
    turn s = NON_REALTIME \<and> (\<exists>m. accepted s = published s @ [m])"
  using behind_cases [OF pub_reach_inv [OF assms]]
  by (simp add: none_behind_def one_behind_def)

theorem delivery_witness:
  "pub_reach 0 demo_stored \<and> accepted demo_stored = [7] \<and>
   (accepted demo_stored = published demo_stored \<or>
    turn demo_stored = NON_REALTIME \<and> (\<exists>m. accepted demo_stored = published demo_stored @ [m]))"
  using demo_stored_reach delivery [OF demo_stored_reach] by (simp add: demo_stored_def)

text \<open>
  \<^verbatim>\<open>msg_\<close> is never read while it is written: a client that is between a successful
  \<^verbatim>\<open>try_to_lock\<close> and its unlock excludes every other such client and excludes the loop from the
  copy, and an outstanding message is intact in \<^verbatim>\<open>msg_\<close> when the loop copies it.
\<close>

theorem message_integrity:
  assumes "pub_reach d s"
  shows "(holds_lock (clients s i) \<longrightarrow> loop s \<noteq> LoopCopy \<and> (\<forall>j. j \<noteq> i \<longrightarrow> \<not> holds_lock (clients s j))) \<and>
    (loop s = LoopCopy \<and> turn s = NON_REALTIME \<longrightarrow> accepted s = published s @ [msg s])"
proof -
  note inv = pub_invD [OF pub_reach_inv [OF assms]]
  have "holds_lock (clients s i) \<longrightarrow> loop s \<noteq> LoopCopy"
    using lock_free_loop [OF inv(1), of i] by simp
  moreover have "holds_lock (clients s i) \<longrightarrow> (\<forall>j. j \<noteq> i \<longrightarrow> \<not> holds_lock (clients s j))"
    using others_unlocked [OF inv(1)] by blast
  moreover have "loop s = LoopCopy \<and> turn s = NON_REALTIME \<longrightarrow> accepted s = published s @ [msg s]"
    using inv(3) by (auto simp: holding_in_def)
  ultimately show ?thesis by blast
qed

theorem message_integrity_witness:
  "holds_lock (clients demo_stored 0) \<and> loop demo_stored \<noteq> LoopCopy \<and>
   \<not> holds_lock (clients demo_stored 1)"
  using message_integrity [OF demo_stored_reach, of 0] by (simp add: demo_stored_def)

text \<open>
  C8. No lost wake-up: if the loop is blocked in its wait although its predicate holds (a message
  is there, or it should stop), then some thread is still about to notify it.
\<close>

theorem no_lost_wakeup:
  assumes "pub_reach d s" "loop s = LoopWait" "turn s = NON_REALTIME \<or> \<not> keep_running s"
  shows "\<exists>i. will_notify (clients s i)"
  using pub_invD(5) [OF pub_reach_inv [OF assms(1)]] assms(2,3)
  by (simp add: wake_inv_def wake_pred_def)

theorem no_lost_wakeup_witness:
  "loop demo_stored = LoopWait \<and> turn demo_stored = NON_REALTIME \<and>
   (\<exists>i. will_notify (clients demo_stored i))"
  using no_lost_wakeup [OF demo_stored_reach] by (simp add: demo_stored_def)

subsection \<open>Real-time progress of \<^verbatim>\<open>try_publish\<close>\<close>

text \<open>Inside a call of \<^verbatim>\<open>try_publish\<close>, and how many steps the call has left.\<close>

fun in_try :: "'m client_pc \<Rightarrow> bool" where
  "in_try (TryLock _) = True"
| "in_try (TryCheck _ _) = True"
| "in_try (TryWrite _) = True"
| "in_try (TryStore _) = True"
| "in_try TryUnlock = True"
| "in_try TryNotify = True"
| "in_try (TryFail _) = True"
| "in_try _ = False"

fun try_rank :: "'m client_pc \<Rightarrow> nat" where
  "try_rank (TryLock _) = 6"
| "try_rank (TryCheck _ _) = 5"
| "try_rank (TryWrite _) = 4"
| "try_rank (TryStore _) = 3"
| "try_rank TryUnlock = 2"
| "try_rank TryNotify = 1"
| "try_rank (TryFail _) = 1"
| "try_rank _ = 0"

lemma try_enabled: "in_try (clients s i) \<Longrightarrow> \<exists>t. try_publish_step i s t"
proof (cases "clients s i")
  case (TryLock m)
  then show ?thesis
    by (cases "mtx_try (Client i) (msg_mutex s)") (blast intro: try_lock)
qed (auto intro: try_publish_step.intros)

definition others_step :: "'m \<Rightarrow> tid \<Rightarrow> 'm pub \<Rightarrow> 'm pub \<Rightarrow> bool" where
  "others_step d i s t \<longleftrightarrow> ctor_step s t \<or> loop_step d s t \<or> (\<exists>j. j \<noteq> i \<and> client_step j s t)"

definition try_own_step :: "tid \<Rightarrow> 'm pub \<Rightarrow> 'm pub \<Rightarrow> bool" where
  "try_own_step i s t \<longleftrightarrow> in_try (clients s i) \<and> try_publish_step i s t"

lemma client_step_other: "client_step j s t \<Longrightarrow> j \<noteq> i \<Longrightarrow> clients t i = clients s i"
  by (erule client_step_cases; erule client_cases) (simp_all add: effect_defs)

lemma others_step_pc: "others_step d i s t \<Longrightarrow> clients t i = clients s i"
  unfolding others_step_def
  by (auto elim: ctor_step.cases loop_step.cases simp: client_step_other)

interpretation pub_try: ranked "try_own_step i" "others_step d i" "\<lambda>_. True"
    "\<lambda>s. try_rank (clients s i)" for d i
proof
  show "try_rank (clients t i) < try_rank (clients s i)" if "try_own_step i s t"
    for s t :: "'a pub"
    using that unfolding try_own_step_def
    by (auto elim!: try_publish_step.cases simp: effect_defs)
qed (simp_all add: others_step_pc)

text \<open>
  C24. \<^verbatim>\<open>try_publish\<close> is wait-free: at every point of a call the calling thread can take its next
  step whatever the other threads hold or do, and however they interleave it takes at most six
  steps of its own from the call to the result.
\<close>

theorem try_publish_wait_free:
  assumes "own_steps (try_own_step i) (others_step d i) n s t" "in_try (clients s i)"
  shows "n \<le> 6 \<and> (in_try (clients t i) \<longrightarrow> (\<exists>u. try_publish_step i t u))"
proof -
  have "try_rank (clients s i) \<le> 6"
    using assms(2) by (cases "clients s i") auto
  then show ?thesis
    using pub_try.own_steps_bounded [OF assms(1)] try_enabled [of t i] by auto
qed

lemma demo_stored_at: "clients demo_stored 0 = TryUnlock"
  by (simp add: demo_stored_def)

theorem try_publish_wait_free_witness:
  "in_try (clients demo_stored 0) \<and> (1::nat) \<le> 6 \<and>
   (\<exists>u. try_publish_step 0 (at_client 0 TryNotify (demo_stored\<lparr>msg_mutex := None\<rparr>)) u)"
proof -
  have "own_steps (try_own_step 0) (others_step 0 0) (Suc 0) demo_stored
      (at_client 0 TryNotify (demo_stored\<lparr>msg_mutex := None\<rparr>))"
    by (rule own_own [OF _ own_none]) (simp_all add: try_own_step_def try_unlock demo_stored_at)
  from try_publish_wait_free [OF this] show ?thesis
    by (simp add: demo_stored_def at_client_def)
qed

subsection \<open>Shutdown\<close>

fun loop_rank :: "loop_pc \<Rightarrow> nat" where
  "loop_rank LoopBlock = 11"
| "loop_rank LoopOpen = 10"
| "loop_rank LoopWait = 10"
| "loop_rank LoopLock = 9"
| "loop_rank LoopRelock = 9"
| "loop_rank LoopPred = 8"
| "loop_rank LoopPredStop = 7"
| "loop_rank LoopCopy = 6"
| "loop_rank LoopUnlock = 5"
| "loop_rank LoopTestPub = 4"
| "loop_rank LoopPublish = 3"
| "loop_rank LoopIdle = 3"
| "loop_rank LoopBegin = 3"
| "loop_rank LoopTest = 2"
| "loop_rank LoopEnd = 1"
| "loop_rank LoopDone = 0"

definition any_client_step :: "'m pub \<Rightarrow> 'm pub \<Rightarrow> bool" where
  "any_client_step s t \<longleftrightarrow> (\<exists>i. client_step i s t)"

lemma client_step_keep: "client_step i s t \<Longrightarrow> \<not> keep_running s \<Longrightarrow> \<not> keep_running t"
  by (erule client_step_cases; erule client_cases) (simp_all add: effect_defs)

lemma client_step_loop_rank: "client_step i s t \<Longrightarrow> loop_rank (loop t) \<le> loop_rank (loop s)"
  by (erule client_step_cases; erule client_cases) (simp_all add: effect_defs)

interpretation pub_stop: ranked "loop_step d" any_client_step "\<lambda>s. \<not> keep_running s"
    "\<lambda>s. loop_rank (loop s)" for d
proof
  show "\<not> keep_running t" if "\<not> keep_running s" "loop_step d s t" for s t :: "'a pub"
    using that(2,1) by cases auto
  show "loop_rank (loop t) < loop_rank (loop s)" if "\<not> keep_running s" "loop_step d s t"
    for s t :: "'a pub"
    using that(2,1) by cases (auto simp: wake_pred_def)
qed (auto simp: any_client_step_def client_step_keep client_step_loop_rank)

text \<open>Where the loop is blocked: in the wait, or for the mutex.\<close>

definition loop_blocked :: "'m pub \<Rightarrow> bool" where
  "loop_blocked s \<longleftrightarrow>
     loop s = LoopWait \<or> loop s \<in> {LoopLock, LoopRelock} \<and> msg_mutex s \<noteq> None"

lemma holder_enabled: "holds_lock (clients s i) \<Longrightarrow> \<exists>t. client_step i s t"
  by (cases "clients s i")
    (auto intro: client_step.intros try_publish_step.intros can_publish_step.intros
      stop_step.intros)

lemma notifier_enabled: "will_notify (clients s i) \<Longrightarrow> \<exists>t. client_step i s t"
  by (cases "clients s i") (auto intro: client_step.intros try_publish_step.intros stop_step.intros)

lemma mutex_owner:
  assumes "pub_inv s" "msg_mutex s = Some u" "loop s \<notin> {LoopPred, LoopPredStop, LoopBlock, LoopCopy, LoopUnlock}"
  obtains i where "u = Client i" "holds_lock (clients s i)"
  using assms by (cases u) (auto simp: pub_inv_def lock_inv_def monitor_ok_def lock_agrees_def)

lemma loop_enabled:
  "\<not> loop_blocked s \<Longrightarrow> loop s \<notin> {LoopIdle, LoopDone} \<Longrightarrow> \<exists>t. loop_step d s t"
proof (cases "loop s")
  case LoopTest
  then show ?thesis by (metis loop_again loop_leave)
next
  case LoopTestPub
  then show ?thesis by (metis loop_test_pub loop_skip_pub)
qed (auto simp: loop_blocked_def intro: loop_step.intros)

text \<open>A loop that is blocked although it has work to do waits for a client that can move.\<close>

lemma blocked_owed:
  assumes "pub_inv s" "loop_blocked s" "wake_pred s"
  shows "\<exists>i t. (holds_lock (clients s i) \<or> will_notify (clients s i)) \<and> client_step i s t"
proof (cases "loop s = LoopWait")
  case True
  then obtain i where "will_notify (clients s i)"
    using pub_invD(5) [OF assms(1)] assms(3) by (auto simp: wake_inv_def)
  then show ?thesis using notifier_enabled by blast
next
  case False
  with assms(2) obtain u where "msg_mutex s = Some u"
      "loop s \<notin> {LoopPred, LoopPredStop, LoopBlock, LoopCopy, LoopUnlock}"
    by (auto simp: loop_blocked_def)
  then obtain i where "holds_lock (clients s i)"
    using mutex_owner [OF assms(1)] by metis
  then show ?thesis using holder_enabled by blast
qed

lemma stop_reach:
  "own_steps (loop_step d) any_client_step n s t \<Longrightarrow> pub_reach d s \<Longrightarrow> pub_reach d t"
  by (induction rule: own_steps.induct)
    (auto simp: any_client_step_def intro: reach_step pub_loop pub_client)

lemma stop_keeps_ctor:
  "own_steps (loop_step d) any_client_step n s t \<Longrightarrow> ctor t = ctor s"
proof (induction rule: own_steps.induct)
  case (own_own s t n u)
  then show ?case by (auto elim: loop_step.cases)
next
  case (own_env s t n u)
  then have "ctor t = ctor s"
    unfolding any_client_step_def by (elim exE client_step_cases; elim client_cases) (simp_all add: effect_defs)
  with own_env show ?case by simp
qed simp

text \<open>
  C27. Once \<^verbatim>\<open>keep_running_\<close> of a constructed publisher is false, the publishing thread returns:
  whatever the clients do and however often the wait wakes spuriously, it takes at most eleven more
  steps, and until it has returned it can take its next step or is held up in its wait or for
  the mutex, and then a client that holds the mutex or is about to notify can take its next step.
\<close>

theorem loop_ends_after_stop:
  assumes "pub_reach d s" "ctor s = CtorDone" "\<not> keep_running s"
    and "own_steps (loop_step d) any_client_step n s t"
  shows "n \<le> 11 \<and> \<not> keep_running t \<and>
    (loop t = LoopDone \<or>
     \<not> loop_blocked t \<and> (\<exists>u. loop_step d t u) \<or>
     loop_blocked t \<and> (\<exists>i u. (holds_lock (clients t i) \<or> will_notify (clients t i)) \<and> client_step i t u))"
proof -
  have "loop_rank (loop s) \<le> 11" by (cases "loop s") auto
  then have n: "n \<le> 11" "\<not> keep_running t"
    using pub_stop.own_steps_bounded [OF assms(4,3)] by auto
  have inv: "pub_inv t" by (rule pub_reach_inv [OF stop_reach [OF assms(4,1)]])
  moreover have "loop t \<noteq> LoopIdle"
    using pub_invD(4) [OF inv] stop_keeps_ctor [OF assms(4)] assms(2) by simp
  ultimately show ?thesis
    using n loop_enabled [of t d] blocked_owed [of t] by (auto simp: wake_pred_def)
qed

text \<open>Client 0 has just stored the flag while the loop waits; client 0 moves on, and the loop returns.\<close>

definition demo_stopping :: "nat pub" where
  "demo_stopping = demo_waiting\<lparr>msg_mutex := Some (Client 0), keep_running := False,
     clients := (\<lambda>_. Idle)(0 := StopUnlock False)\<rparr>"

definition demo_stopped :: "nat pub" where
  "demo_stopped = demo_waiting\<lparr>keep_running := False, is_running := False, loop := LoopDone,
     clients := (\<lambda>_. Idle)(0 := StopRet)\<rparr>"

lemma demo_stopping_reach: "pub_reach 0 demo_stopping"
proof -
  have "steps (pub_step 0) demo_waiting demo_stopping"
    unfolding demo_waiting_def
    apply (rule steps_step, rule pub_client [of 0], rule client_stop, rule stop_call [where dtor = False],
        simp, simp, simp add: effect_defs)
    apply (rule steps_step, rule pub_client [of 0], rule client_stop, rule stop_lock [where dtor = False], simp, simp,
        simp add: effect_defs)
    apply (rule steps_step, rule pub_client [of 0], rule client_stop, rule stop_store [where dtor = False], simp,
        simp add: effect_defs)
    apply (simp add: steps_eq demo_stopping_def demo_waiting_def fun_eq_iff)
    done
  then show ?thesis by (rule reach_steps) (rule demo_waiting_reach)
qed

lemma demo_stopping_run: "own_steps (loop_step 0) any_client_step 9 demo_stopping demo_stopped"
proof -
  have nine: "9 = Suc (Suc (Suc (Suc (Suc (Suc (Suc (Suc (Suc 0))))))))" by simp
  show ?thesis
    unfolding nine demo_stopping_def demo_waiting_def any_client_step_def
    apply (rule own_env, rule exI [of _ 0], rule client_stop, rule stop_unlock [where dtor = False], simp)
    apply (rule own_own, rule loop_spurious, simp add: effect_defs)
    apply (rule own_env, rule exI [of _ 0], rule client_stop, rule stop_notify [where dtor = False], simp add: effect_defs)
    apply (rule own_own, rule loop_relock, simp add: effect_defs, simp add: effect_defs)
    apply (rule own_own, rule loop_pred, simp add: effect_defs)
    apply (rule own_own, rule loop_pred_stop, simp add: effect_defs)
    apply (rule own_own, rule loop_copy, simp add: effect_defs)
    apply (rule own_own, rule loop_unlock, simp add: effect_defs)
    apply (rule own_own, rule loop_skip_pub, simp add: effect_defs, simp add: effect_defs)
    apply (rule own_own, rule loop_leave, simp add: effect_defs, simp add: effect_defs)
    apply (rule own_own, rule loop_end, simp add: effect_defs)
    apply (simp add: own_none demo_stopped_def demo_waiting_def effect_defs fun_eq_iff)
    done
qed

theorem loop_ends_after_stop_witness:
  "pub_reach 0 demo_stopping \<and> own_steps (loop_step 0) any_client_step 9 demo_stopping demo_stopped \<and>
   (9::nat) \<le> 11 \<and> loop demo_stopped = LoopDone"
  using demo_stopping_reach demo_stopping_run
    loop_ends_after_stop [OF demo_stopping_reach _ _ demo_stopping_run]
  by (simp add: demo_stopping_def demo_stopped_def demo_waiting_def)

text \<open>
  The publishing thread is never deadlocked: whenever it is blocked although there is a
  message to publish or a stop to obey, some client inside a call holds the mutex or owes it a
  notification, and that client can take its next step.
\<close>

theorem loop_not_deadlocked:
  assumes "pub_reach d s" "loop_blocked s" "turn s = NON_REALTIME \<or> \<not> keep_running s"
  shows "\<exists>i t. (holds_lock (clients s i) \<or> will_notify (clients s i)) \<and> client_step i s t"
  by (rule blocked_owed [OF pub_reach_inv [OF assms(1)] assms(2)]) (simp add: wake_pred_def assms(3))

theorem loop_not_deadlocked_witness:
  "loop_blocked demo_stored \<and> turn demo_stored = NON_REALTIME \<and>
   (\<exists>i t. (holds_lock (clients demo_stored i) \<or> will_notify (clients demo_stored i)) \<and>
     client_step i demo_stored t)"
  using loop_not_deadlocked [OF demo_stored_reach] by (simp add: loop_blocked_def demo_stored_def)

text \<open>
  Construction and destruction: once the constructor has returned the loop has opened the
  mailbox, and \<^verbatim>\<open>is_running_\<close> says exactly whether the publishing thread is still in its loop;
  and when the destructor returns the publishing thread has returned, so that it touches none of
  the members that are about to be destroyed.
\<close>

theorem ctor_dtor_contract:
  assumes "pub_reach d s"
  shows "(ctor s = CtorDone \<longrightarrow>
      turn s \<noteq> LOOP_NOT_STARTED \<and> is_running s = (loop s \<noteq> LoopDone)) \<and>
    (clients s i = DtorRet \<longrightarrow> loop s = LoopDone \<and> (\<forall>t. \<not> loop_step d s t))"
proof -
  note inv = pub_invD [OF pub_reach_inv [OF assms]]
  have "ctor s = CtorDone \<longrightarrow> turn s \<noteq> LOOP_NOT_STARTED \<and> is_running s = (loop s \<noteq> LoopDone)"
    using inv(4) by auto
  moreover have "clients s i = DtorRet \<longrightarrow> loop s = LoopDone"
    using inv(2) [of i] by auto
  ultimately show ?thesis by (auto elim: loop_step.cases)
qed

theorem ctor_dtor_contract_witness:
  "ctor demo_waiting = CtorDone \<and> turn demo_waiting \<noteq> LOOP_NOT_STARTED \<and> is_running demo_waiting"
  using ctor_dtor_contract [OF demo_waiting_reach] by (simp add: demo_waiting_def)

subsection \<open>The abstract mailbox\<close>

text \<open>
  What the class promises: a mailbox with room for one message. \<^verbatim>\<open>try_publish\<close> puts a message into
  the empty box, the publishing thread takes it out and sends it, and the box can be closed.
\<close>

record 'm mailbox =
  slot :: "'m option"
  sent :: "'m list"
  closed :: bool

definition mailbox_init :: "'m mailbox \<Rightarrow> bool" where
  "mailbox_init a \<longleftrightarrow> a = \<lparr>slot = None, sent = [], closed = False\<rparr>"

inductive mailbox_step :: "'m mailbox \<Rightarrow> 'm mailbox \<Rightarrow> bool" where
  mailbox_put: "slot a = None \<Longrightarrow> mailbox_step a (a\<lparr>slot := Some m\<rparr>)"
| mailbox_send: "slot a = Some m \<Longrightarrow> mailbox_step a (a\<lparr>slot := None, sent := sent a @ [m]\<rparr>)"
| mailbox_close: "mailbox_step a (a\<lparr>closed := True\<rparr>)"

definition pub_abs :: "'m pub \<Rightarrow> 'm mailbox" where
  "pub_abs s = \<lparr>slot = (if accepted s = published s then None else Some (last (accepted s))),
     sent = published s, closed = (ctor s \<noteq> CtorFields \<and> \<not> keep_running s)\<rparr>"

lemma ctor_step_abs: "ctor_step s t \<Longrightarrow> pub_inv s \<Longrightarrow> pub_abs t = pub_abs s"
  by (erule ctor_step.cases) (auto simp: pub_abs_def pub_inv_def)

lemma loop_step_abs:
  assumes "loop_step d s t" "pub_inv s"
  shows "pub_abs t = pub_abs s \<or> mailbox_step (pub_abs s) (pub_abs t)"
  using assms(1)
proof cases
  case loop_publish
  with assms(2) have "accepted s = published s @ [outgoing s]"
    by (simp add: pub_inv_def)
  with loop_publish have "pub_abs t =
      (pub_abs s)\<lparr>slot := None, sent := sent (pub_abs s) @ [outgoing s]\<rparr>"
    and "slot (pub_abs s) = Some (outgoing s)"
    by (simp_all add: pub_abs_def)
  then show ?thesis using mailbox_send by metis
qed (auto simp: pub_abs_def)

lemma store_none_behind:
  assumes "pub_inv s" "clients s i = TryStore m"
  shows "accepted s = published s"
  using behind_cases [OF assms(1)] pub_invD(2) [OF assms(1), of i] assms(2)
  by (simp add: none_behind_def one_behind_def)

lemma try_step_abs:
  assumes "try_publish_step i s t" "pub_inv s"
  shows "pub_abs t = pub_abs s \<or> mailbox_step (pub_abs s) (pub_abs t)"
  using assms(1)
proof cases
  case (try_store m)
  with assms(2) have "accepted s = published s" by (blast intro: store_none_behind)
  with try_store have "pub_abs t = (pub_abs s)\<lparr>slot := Some m\<rparr>" "slot (pub_abs s) = None"
    by (simp_all add: pub_abs_def effect_defs)
  then show ?thesis using mailbox_put by metis
qed (simp_all add: pub_abs_def effect_defs)

lemma stop_step_abs:
  assumes "stop_step i s t" "pub_inv s"
  shows "pub_abs t = pub_abs s \<or> mailbox_step (pub_abs s) (pub_abs t)"
  using assms(1)
proof cases
  case (stop_store dtor)
  with assms(2) have "ctor s = CtorDone" using clients_past_ctor [of s i] by simp
  with stop_store have "pub_abs t = (pub_abs s)\<lparr>closed := True\<rparr>"
    by (simp add: pub_abs_def effect_defs)
  then show ?thesis using mailbox_close by metis
qed (simp_all add: pub_abs_def effect_defs)

lemma client_step_abs:
  assumes "client_step i s t" "pub_inv s"
  shows "pub_abs t = pub_abs s \<or> mailbox_step (pub_abs s) (pub_abs t)"
  using assms(1)
proof (rule client_step_cases)
  show ?thesis if "can_publish_step i s t"
    using that by cases (simp_all add: pub_abs_def effect_defs)
  show ?thesis if "dtor_step i s t"
    using that by cases (simp_all add: pub_abs_def effect_defs)
qed (auto dest: try_step_abs [OF _ assms(2)] stop_step_abs [OF _ assms(2)])

interpretation pub_mailbox: simulation pub_init "pub_step d" pub_inv mailbox_init mailbox_step
    pub_abs for d
proof
  show "mailbox_init (pub_abs s)" if "pub_init s" for s :: "'a pub"
    using that by (simp add: pub_init_def mailbox_init_def pub_abs_def)
  show "pub_abs t = pub_abs s \<or> mailbox_step (pub_abs s) (pub_abs t)"
    if "pub_inv s" "pub_step d s t" for s t :: "'a pub"
    using that(2,1)
    by cases (auto dest: ctor_step_abs loop_step_abs client_step_abs)
qed

text \<open>
  C11. Refinement: under the map that forgets program counters, lock and turn, every step of the
  class is a step of the one-place mailbox or invisible, so every run of the class is a run of
  the mailbox.
\<close>

theorem publisher_refines_mailbox:
  assumes "pub_reach d s"
  shows "reach mailbox_init mailbox_step (pub_abs s) \<and>
    (pub_step d s t \<longrightarrow> pub_abs t = pub_abs s \<or> mailbox_step (pub_abs s) (pub_abs t))"
  using pub_mailbox.reach_abs [OF assms] pub_mailbox.abs_step [OF pub_reach_inv [OF assms]]
  by blast

theorem publisher_refines_mailbox_witness:
  "reach mailbox_init mailbox_step \<lparr>slot = Some (7::nat), sent = [], closed = False\<rparr> \<and>
   pub_step 0 demo_stored (at_client 0 TryNotify (demo_stored\<lparr>msg_mutex := None\<rparr>))"
proof -
  have "pub_step 0 demo_stored (at_client 0 TryNotify (demo_stored\<lparr>msg_mutex := None\<rparr>))"
    by (intro pub_client [of 0] client_try try_unlock demo_stored_at)
  moreover have "pub_abs demo_stored = \<lparr>slot = Some 7, sent = [], closed = False\<rparr>"
    by (simp add: pub_abs_def demo_stored_def)
  ultimately show ?thesis
    using publisher_refines_mailbox [OF demo_stored_reach] by metis
qed

subsection \<open>A message accepted after the stop is lost\<close>

definition demo_lost :: "nat pub" where
  "demo_lost = \<lparr>is_running = False, keep_running = False, turn = NON_REALTIME, msg = 9,
     msg_mutex = None, outgoing = 0, loop = LoopDone, ctor = CtorDone, joined = False,
     clients = (\<lambda>_. Idle)(1 := TryRet True), accepted = [9], published = []\<rparr>"

lemma demo_lost_reach: "pub_reach 0 demo_lost"
proof -
  have "steps (pub_step 0) demo_waiting demo_lost"
    unfolding demo_waiting_def
    apply (rule steps_step, rule pub_client [of 0], rule client_stop, rule stop_call [where dtor = False],
        simp, simp, simp add: effect_defs)
    apply (rule steps_step, rule pub_client [of 0], rule client_stop, rule stop_lock [where dtor = False], simp, simp,
        simp add: effect_defs)
    apply (rule steps_step, rule pub_client [of 0], rule client_stop, rule stop_store [where dtor = False], simp,
        simp add: effect_defs)
    apply (rule steps_step, rule pub_client [of 0], rule client_stop, rule stop_unlock [where dtor = False], simp,
        simp add: effect_defs)
    apply (rule steps_step, rule pub_client [of 0], rule client_stop, rule stop_notify [where dtor = False], simp,
        simp add: effect_defs)
    apply (rule steps_step, rule pub_client [of 0], rule client_stop, rule stop_ret, simp,
        simp add: effect_defs)
    apply (rule steps_step, rule pub_loop, rule loop_relock, simp, simp, simp)
    apply (rule steps_step, rule pub_loop, rule loop_pred, simp, simp)
    apply (rule steps_step, rule pub_loop, rule loop_pred_stop, simp, simp)
    apply (rule steps_step, rule pub_loop, rule loop_copy, simp, simp)
    apply (rule steps_step, rule pub_loop, rule loop_unlock, simp, simp)
    apply (rule steps_step, rule pub_loop, rule loop_skip_pub, simp, simp, simp)
    apply (rule steps_step, rule pub_loop, rule loop_leave, simp, simp, simp)
    apply (rule steps_step, rule pub_loop, rule loop_end, simp, simp)
    apply (rule steps_step, rule pub_client [of 1], rule client_try, rule try_call [where m = 9],
        simp, simp, simp add: effect_defs)
    apply (rule steps_step, rule pub_client [of 1], rule client_try, rule try_lock, simp, simp,
        simp add: effect_defs)
    apply (rule steps_step, rule pub_client [of 1], rule client_try, rule try_check, simp,
        simp add: effect_defs can_publish_now_def)
    apply (rule steps_step, rule pub_client [of 1], rule client_try, rule try_write, simp,
        simp add: effect_defs)
    apply (rule steps_step, rule pub_client [of 1], rule client_try, rule try_store, simp,
        simp add: effect_defs)
    apply (rule steps_step, rule pub_client [of 1], rule client_try, rule try_unlock, simp,
        simp add: effect_defs)
    apply (rule steps_step, rule pub_client [of 1], rule client_try, rule try_notify, simp,
        simp add: effect_defs)
    apply (simp add: steps_eq demo_lost_def fun_eq_iff)
    done
  then show ?thesis by (rule reach_steps) (rule demo_waiting_reach)
qed

lemma done_publishes_nothing:
  assumes "steps (pub_step d) s t" "loop s = LoopDone" "ctor s = CtorDone"
  shows "published t = published s"
  using assms
proof (induction rule: steps.induct)
  case (steps_step s t u)
  from steps_step.hyps(1) steps_step.prems
  have "loop t = LoopDone \<and> ctor t = CtorDone \<and> published t = published s"
    by cases (auto elim!: ctor_step.cases loop_step.cases client_step_cases client_cases
        simp: effect_defs)
  with steps_step.IH show ?case by simp
qed simp

text \<open>
  \<^verbatim>\<open>can_publish\<close> looks at the turn and the lock only. When \<^verbatim>\<open>stop()\<close> finds the loop in its
  wait, the loop leaves with the turn still \<^verbatim>\<open>REALTIME\<close>, and a later \<^verbatim>\<open>try_publish\<close> returns true
  for a message that no run ever publishes, although the documented result is "true if the
  message was successfully published".
\<close>

theorem message_lost_after_stop:
  "\<exists>s. pub_reach 0 s \<and> clients s 1 = TryRet True \<and> accepted s = [9::nat] \<and>
     \<not> (\<exists>t. steps (pub_step 0) s t \<and> 9 \<in> set (published t))"
proof (intro exI conjI)
  show "\<not> (\<exists>t. steps (pub_step 0) demo_lost t \<and> 9 \<in> set (published t))"
    using done_publishes_nothing [of 0 demo_lost] by (auto simp: demo_lost_def)
qed (use demo_lost_reach in \<open>simp_all add: demo_lost_def\<close>)

end
