(* ===== verification/Goal_Handle.thy ===== *)
theory Goal_Handle
  imports Lock_Guard
begin

text \<open>
  \<^verbatim>\<open>RealtimeServerGoalHandle<Action>\<close> (\<^verbatim>\<open>realtime_server_goal_handle.hpp\<close>): requests of a realtime
  thread that \<^verbatim>\<open>runNonRealtime\<close> carries out on the action server's goal handle. The goal handle of
  rclcpp is a parameter, a record of functions over its state; the locale \<open>goal_laws\<close> states what
  rcl_action documents of it. The mutex is any type that satisfies \<open>lockable\<close>.
\<close>

section \<open>The goal handle of rclcpp\<close>

text \<open>
  Queries, and transitions with their outcome. A result is passed on as a pointer, possibly null;
  feedback is read and sent. \<open>api_cancel_goal\<close> is not called by the handle: it is what a client's
  accepted cancel request does to the goal.
\<close>

record ('g, 'r, 'f) goal_api =
  is_executing :: "'g \<Rightarrow> bool"
  is_active :: "'g \<Rightarrow> bool"
  is_canceling :: "'g \<Rightarrow> bool"
  api_execute :: "'g \<Rightarrow> unit outcome \<times> 'g"
  api_abort :: "'r option \<Rightarrow> 'g \<Rightarrow> unit outcome \<times> 'g"
  api_canceled :: "'r option \<Rightarrow> 'g \<Rightarrow> unit outcome \<times> 'g"
  api_succeed :: "'r option \<Rightarrow> 'g \<Rightarrow> unit outcome \<times> 'g"
  api_publish_feedback :: "'f \<Rightarrow> 'g \<Rightarrow> unit outcome \<times> 'g"
  api_cancel_goal :: "'g \<Rightarrow> 'g"

section \<open>The realtime goal handle\<close>

text \<open>
  The members. Feedback messages live at addresses, because \<^verbatim>\<open>req_feedback_\<close> and
  \<^verbatim>\<open>preallocated_feedback_\<close> can share one; \<open>gh\<close> is \<open>None\<close> when \<^verbatim>\<open>gh_\<close> is null; \<open>warnings\<close> are the
  lines logged.
\<close>

record ('s, 'g, 'r, 'f) goal_handle =
  req_abort :: bool
  req_cancel :: bool
  req_succeed :: bool
  req_execute :: bool
  gmutex :: 's
  req_result :: "'r option"
  req_feedback :: "addr option"
  gh :: "'g option"
  preallocated_result :: 'r
  preallocated_feedback :: addr
  feedback_at :: "addr \<Rightarrow> 'f"
  warnings :: "string list"

text \<open>
  The constructors. A null preallocated message is replaced by a new one: \<open>new_result\<close>, and the
  address \<open>a\<close> with \<open>new_feedback\<close>.
\<close>

definition goal_ctor ::
    "'s \<Rightarrow> 'g option \<Rightarrow> 'r option \<Rightarrow> 'r \<Rightarrow> addr option \<Rightarrow> addr \<Rightarrow> 'f \<Rightarrow> (addr \<Rightarrow> 'f) \<Rightarrow>
      ('s, 'g, 'r, 'f) goal_handle" where
  "goal_ctor m g result new_result feedback a new_feedback heap =
     \<lparr>req_abort = False, req_cancel = False, req_succeed = False, req_execute = False, gmutex = m,
      req_result = None, req_feedback = None, gh = g,
      preallocated_result = (case result of None \<Rightarrow> new_result | Some r \<Rightarrow> r),
      preallocated_feedback = (case feedback of None \<Rightarrow> a | Some b \<Rightarrow> b),
      feedback_at = (case feedback of None \<Rightarrow> heap(a := new_feedback) | Some _ \<Rightarrow> heap),
      warnings = []\<rparr>"

abbreviation put_gmutex :: "'s \<Rightarrow> ('s, 'g, 'r, 'f) goal_handle \<Rightarrow> ('s, 'g, 'r, 'f) goal_handle" where
  "put_gmutex m h \<equiv> h\<lparr>gmutex := m\<rparr>"

type_synonym ('s, 'g, 'r, 'f, 'a) goal_prog = "(('s, 'g, 'r, 'f) goal_handle, 'a) prog"

text \<open>The guard of the three requests: executing was requested, and no end yet.\<close>

definition may_request :: "('s, 'g, 'r, 'f) goal_handle \<Rightarrow> bool" where
  "may_request h \<longleftrightarrow> req_execute h \<and> \<not> req_succeed h \<and> \<not> req_abort h \<and> \<not> req_cancel h"

definition set_request ::
    "'s mutex_ops \<Rightarrow> tid \<Rightarrow> (('s, 'g, 'r, 'f) goal_handle \<Rightarrow> ('s, 'g, 'r, 'f) goal_handle) \<Rightarrow> 'r option \<Rightarrow>
      ('s, 'g, 'r, 'f, unit) goal_prog" where
  "set_request M t raise result =
     bindp (get_state may_request) (\<lambda>allowed.
       if allowed
       then lock_guard M t gmutex put_gmutex
         (bindp (modify (req_result_update (\<lambda>_. result))) (\<lambda>_. modify raise))
       else ret ())"

definition setAborted :: "'s mutex_ops \<Rightarrow> tid \<Rightarrow> 'r option \<Rightarrow> ('s, 'g, 'r, 'f, unit) goal_prog" where
  "setAborted M t result = set_request M t (req_abort_update (\<lambda>_. True)) result"

definition setCanceled :: "'s mutex_ops \<Rightarrow> tid \<Rightarrow> 'r option \<Rightarrow> ('s, 'g, 'r, 'f, unit) goal_prog" where
  "setCanceled M t result = set_request M t (req_cancel_update (\<lambda>_. True)) result"

definition setSucceeded :: "'s mutex_ops \<Rightarrow> tid \<Rightarrow> 'r option \<Rightarrow> ('s, 'g, 'r, 'f, unit) goal_prog" where
  "setSucceeded M t result = set_request M t (req_succeed_update (\<lambda>_. True)) result"

text \<open>The feedback functions only try the mutex.\<close>

definition setFeedback :: "'s mutex_ops \<Rightarrow> tid \<Rightarrow> addr option \<Rightarrow> ('s, 'g, 'r, 'f, bool) goal_prog" where
  "setFeedback M t feedback =
     try_lock_guard M t gmutex put_gmutex False
       (bindp (modify (req_feedback_update (\<lambda>_. feedback))) (\<lambda>_. ret True))"

text \<open>
  The callback gives the new message and the exception it leaves by, if any; the message is
  changed in either case.
\<close>

definition update_feedback :: "('f \<Rightarrow> 'f \<times> exn option) \<Rightarrow> ('s, 'g, 'r, 'f, unit) goal_prog" where
  "update_feedback f h =
     (case f (feedback_at h (preallocated_feedback h)) of (m, e) \<Rightarrow>
       ((case e of None \<Rightarrow> Return () | Some e \<Rightarrow> Throw e),
        h\<lparr>feedback_at := (feedback_at h)(preallocated_feedback h := m)\<rparr>))"

definition trySetFeedback ::
    "'s mutex_ops \<Rightarrow> tid \<Rightarrow> ('f \<Rightarrow> 'f \<times> exn option) \<Rightarrow> ('s, 'g, 'r, 'f, bool) goal_prog" where
  "trySetFeedback M t f =
     try_lock_guard M t gmutex put_gmutex False
       (bindp (update_feedback f) (\<lambda>_.
        bindp (modify (\<lambda>h. h\<lparr>req_feedback := Some (preallocated_feedback h)\<rparr>)) (\<lambda>_. ret True)))"

definition execute :: "'s mutex_ops \<Rightarrow> tid \<Rightarrow> ('s, 'g, 'r, 'f, unit) goal_prog" where
  "execute M t =
     bindp (get_state (\<lambda>h. \<not> req_succeed h \<and> \<not> req_abort h \<and> \<not> req_cancel h)) (\<lambda>allowed.
       if allowed
       then lock_guard M t gmutex put_gmutex (modify (req_execute_update (\<lambda>_. True)))
       else ret ())"

definition valid :: "('s, 'g, 'r, 'f) goal_handle \<Rightarrow> bool" where
  "valid h \<longleftrightarrow> gh h \<noteq> None"

section \<open>\<^verbatim>\<open>runNonRealtime\<close>\<close>

text \<open>A query and a transition of \<^verbatim>\<open>gh_\<close>; on a null pointer they are undefined behaviour.\<close>

definition ask :: "('g \<Rightarrow> bool) \<Rightarrow> ('s, 'g, 'r, 'f, bool) goal_prog" where
  "ask p h = (case gh h of None \<Rightarrow> (Undefined, h) | Some g \<Rightarrow> (Return (p g), h))"

definition tell :: "('g \<Rightarrow> unit outcome \<times> 'g) \<Rightarrow> ('s, 'g, 'r, 'f, unit) goal_prog" where
  "tell f h =
     (case gh h of
        None \<Rightarrow> (Undefined, h)
      | Some g \<Rightarrow> (case f g of (out, g') \<Rightarrow> (out, h\<lparr>gh := Some g'\<rparr>)))"

text \<open>
  The five parts of the body, in order. Each evaluates its flag first and asks the goal handle
  only if the flag is set.
\<close>

definition when_asked ::
    "(('s, 'g, 'r, 'f) goal_handle \<Rightarrow> bool) \<Rightarrow> ('g \<Rightarrow> bool) \<Rightarrow> ('s, 'g, 'r, 'f, unit) goal_prog \<Rightarrow>
      ('s, 'g, 'r, 'f, unit) goal_prog" where
  "when_asked flag cond body =
     bindp (get_state flag) (\<lambda>requested.
       if requested then bindp (ask cond) (\<lambda>ok. if ok then body else ret ()) else ret ())"

definition run_execute :: "('g, 'r, 'f) goal_api \<Rightarrow> ('s, 'g, 'r, 'f, unit) goal_prog" where
  "run_execute api =
     when_asked req_execute (\<lambda>g. \<not> is_executing api g \<and> is_active api g \<and> \<not> is_canceling api g)
       (tell (api_execute api))"

definition run_abort :: "('g, 'r, 'f) goal_api \<Rightarrow> ('s, 'g, 'r, 'f, unit) goal_prog" where
  "run_abort api =
     when_asked req_abort (is_executing api)
       (bindp (get_state req_result) (\<lambda>r. bindp (tell (api_abort api r)) (\<lambda>_.
         modify (req_abort_update (\<lambda>_. False)))))"

definition run_cancel :: "('g, 'r, 'f) goal_api \<Rightarrow> ('s, 'g, 'r, 'f, unit) goal_prog" where
  "run_cancel api =
     when_asked req_cancel (is_active api)
       (bindp (get_state req_result) (\<lambda>r. bindp (tell (api_canceled api r)) (\<lambda>_.
         modify (req_cancel_update (\<lambda>_. False)))))"

definition run_succeed :: "('g, 'r, 'f) goal_api \<Rightarrow> ('s, 'g, 'r, 'f, unit) goal_prog" where
  "run_succeed api =
     when_asked req_succeed (\<lambda>g. \<not> is_canceling api g)
       (bindp (get_state req_result) (\<lambda>r. bindp (tell (api_succeed api r)) (\<lambda>_.
         modify (req_succeed_update (\<lambda>_. False)))))"

definition run_feedback :: "('g, 'r, 'f) goal_api \<Rightarrow> ('s, 'g, 'r, 'f, unit) goal_prog" where
  "run_feedback api =
     when_asked (\<lambda>h. req_feedback h \<noteq> None) (is_executing api)
       (bindp (get_state (\<lambda>h. feedback_at h (the (req_feedback h)))) (\<lambda>f.
         tell (api_publish_feedback api f)))"

definition run_body :: "('g, 'r, 'f) goal_api \<Rightarrow> ('s, 'g, 'r, 'f, unit) goal_prog" where
  "run_body api =
     bindp (run_execute api) (\<lambda>_. bindp (run_abort api) (\<lambda>_. bindp (run_cancel api) (\<lambda>_.
       bindp (run_succeed api) (\<lambda>_. run_feedback api))))"

text \<open>The handler catches the errors of rcl only, and logs them.\<close>

definition catch_rcl :: "('s, 'g, 'r, 'f, unit) goal_prog \<Rightarrow> ('s, 'g, 'r, 'f, unit) goal_prog" where
  "catch_rcl body h =
     (case body h of
        (Throw (Rcl_error m), h') \<Rightarrow> (Return (), h'\<lparr>warnings := warnings h' @ [m]\<rparr>)
      | r \<Rightarrow> r)"

definition runNonRealtime :: "'s mutex_ops \<Rightarrow> ('g, 'r, 'f) goal_api \<Rightarrow> tid \<Rightarrow> ('s, 'g, 'r, 'f, unit) goal_prog" where
  "runNonRealtime M api t =
     bindp (get_state valid) (\<lambda>v.
       if \<not> v then ret () else lock_guard M t gmutex put_gmutex (catch_rcl (run_body api)))"

lemmas goal_defs = when_asked_def run_execute_def run_abort_def run_cancel_def run_succeed_def
  run_feedback_def run_body_def ask_def tell_def bindp_def

section \<open>What rcl\_action documents\<close>

datatype goal_state = ACCEPTED | EXECUTING | CANCELING | SUCCEEDED | CANCELED | ABORTED

fun terminal :: "goal_state \<Rightarrow> bool" where
  "terminal SUCCEEDED = True"
| "terminal CANCELED = True"
| "terminal ABORTED = True"
| "terminal _ = False"

text \<open>
  What an observer sees of a goal: its state, the feedback sent, and the ends announced with their
  results. A transition that the state does not allow raises an error and changes nothing. One that
  ends the goal reads the result: a null pointer there is undefined behaviour. The laws say of
  \<^verbatim>\<open>publish_feedback\<close> on an executing goal only that it sends the feedback or throws some exception
  and sends nothing, and of other goals nothing at all (it is documented to throw).
\<close>

record ('r, 'f) goal_view =
  gstate :: goal_state
  sent :: "'f list"
  ended :: "(goal_state \<times> 'r) list"

definition end_goal :: "goal_state \<Rightarrow> 'r \<Rightarrow> ('r, 'f) goal_view \<Rightarrow> ('r, 'f) goal_view" where
  "end_goal st r v = v\<lparr>gstate := st, ended := ended v @ [(st, r)]\<rparr>"

definition rejected :: "unit outcome \<Rightarrow> ('r, 'f) goal_view \<Rightarrow> ('r, 'f) goal_view \<Rightarrow> bool" where
  "rejected out v w \<longleftrightarrow> (\<exists>m. out = Throw (Rcl_error m)) \<and> w = v"

definition ends_or_error ::
    "bool \<Rightarrow> goal_state \<Rightarrow> 'r option \<Rightarrow> unit outcome \<Rightarrow> ('r, 'f) goal_view \<Rightarrow> ('r, 'f) goal_view \<Rightarrow> bool" where
  "ends_or_error allowed st result out v w \<longleftrightarrow>
     (if \<not> allowed then rejected out v w
      else case result of None \<Rightarrow> out = Undefined | Some r \<Rightarrow> out = Return () \<and> w = end_goal st r v)"

definition sends_or_throws :: "'f \<Rightarrow> unit outcome \<Rightarrow> ('r, 'f) goal_view \<Rightarrow> ('r, 'f) goal_view \<Rightarrow> bool" where
  "sends_or_throws f out v w \<longleftrightarrow>
     out = Return () \<and> w = v\<lparr>sent := sent v @ [f]\<rparr> \<or> (\<exists>e. out = Throw e) \<and> w = v"

locale goal_laws =
  fixes api :: "('g, 'r, 'f) goal_api"
    and view :: "'g \<Rightarrow> ('r, 'f) goal_view"
  assumes is_executing: "is_executing api g = (gstate (view g) = EXECUTING)"
    and is_active: "is_active api g = (\<not> terminal (gstate (view g)))"
    and is_canceling: "is_canceling api g = (gstate (view g) = CANCELING)"
    and execute_law: "api_execute api g = (out, g') \<Longrightarrow>
      if gstate (view g) = ACCEPTED then out = Return () \<and> view g' = (view g)\<lparr>gstate := EXECUTING\<rparr>
      else rejected out (view g) (view g')"
    and abort_law: "api_abort api r g = (out, g') \<Longrightarrow>
      ends_or_error (gstate (view g) \<in> {EXECUTING, CANCELING}) ABORTED r out (view g) (view g')"
    and canceled_law: "api_canceled api r g = (out, g') \<Longrightarrow>
      ends_or_error (gstate (view g) = CANCELING) CANCELED r out (view g) (view g')"
    and succeed_law: "api_succeed api r g = (out, g') \<Longrightarrow>
      ends_or_error (gstate (view g) \<in> {EXECUTING, CANCELING}) SUCCEEDED r out (view g) (view g')"
    and publish_law: "gstate (view g) = EXECUTING \<Longrightarrow> api_publish_feedback api f g = (out, g') \<Longrightarrow>
      sends_or_throws f out (view g) (view g')"
    and cancel_law: "view (api_cancel_goal api g) =
      (if gstate (view g) \<in> {ACCEPTED, EXECUTING} then (view g)\<lparr>gstate := CANCELING\<rparr> else view g)"

text \<open>
  Goal handles that behave as documented: on one of them \<^verbatim>\<open>publish_feedback\<close> always fails with the
  exception \<open>e\<close>, on the other it fails only where it is documented to.
\<close>

definition ref_step ::
    "bool \<Rightarrow> ('r, 'f) goal_view \<Rightarrow> ('r, 'f) goal_view \<Rightarrow> unit outcome \<times> ('r, 'f) goal_view" where
  "ref_step ok v v' =
     (if ok then (Return (), v') else (Throw (Rcl_error ''goal attempted invalid transition''), v))"

definition ref_end ::
    "bool \<Rightarrow> goal_state \<Rightarrow> 'r option \<Rightarrow> ('r, 'f) goal_view \<Rightarrow> unit outcome \<times> ('r, 'f) goal_view" where
  "ref_end ok st result v =
     (case result of None \<Rightarrow> if ok then (Undefined, v) else ref_step False v v
      | Some r \<Rightarrow> ref_step ok v (end_goal st r v))"

definition rcl_api_failing :: "exn option \<Rightarrow> (('r, 'f) goal_view, 'r, 'f) goal_api" where
  "rcl_api_failing failure = \<lparr>is_executing = (\<lambda>v. gstate v = EXECUTING), is_active = (\<lambda>v. \<not> terminal (gstate v)),
     is_canceling = (\<lambda>v. gstate v = CANCELING),
     api_execute = (\<lambda>v. ref_step (gstate v = ACCEPTED) v (v\<lparr>gstate := EXECUTING\<rparr>)),
     api_abort = (\<lambda>r v. ref_end (gstate v \<in> {EXECUTING, CANCELING}) ABORTED r v),
     api_canceled = (\<lambda>r v. ref_end (gstate v = CANCELING) CANCELED r v),
     api_succeed = (\<lambda>r v. ref_end (gstate v \<in> {EXECUTING, CANCELING}) SUCCEEDED r v),
     api_publish_feedback = (\<lambda>f v. if gstate v \<noteq> EXECUTING then (Throw (Runtime_error ''not executing''), v)
       else case failure of Some e \<Rightarrow> (Throw e, v) | None \<Rightarrow> (Return (), v\<lparr>sent := sent v @ [f]\<rparr>)),
     api_cancel_goal = (\<lambda>v. if gstate v \<in> {ACCEPTED, EXECUTING} then v\<lparr>gstate := CANCELING\<rparr> else v)\<rparr>"

abbreviation rcl_api :: "(('r, 'f) goal_view, 'r, 'f) goal_api" where
  "rcl_api \<equiv> rcl_api_failing None"

lemma rcl_laws: "goal_laws (rcl_api_failing failure) (\<lambda>v. v)"
  by unfold_locales (auto simp: rcl_api_failing_def ref_step_def ref_end_def ends_or_error_def rejected_def
      sends_or_throws_def split: if_splits option.splits)

interpretation rcl_goal: goal_laws "rcl_api_failing failure" "\<lambda>v. v" for failure
  by (rule rcl_laws)

section \<open>The specification\<close>

text \<open>
  A handle without its mutex, and the goal as an observer sees it. At most one end is requested;
  a run starts an accepted goal, carries out the request if the goal's state allows it, and sends
  the feedback that is set if the goal is executing and no request is pending. An end that is
  carried out with a null result is undefined behaviour. \<open>failure\<close> is the exception by which the
  run's \<^verbatim>\<open>publish_feedback\<close> fails, if it does: one of rcl is caught, any other leaves the run.
\<close>

record ('r, 'f) goal_spec =
  sp_abort :: bool
  sp_cancel :: bool
  sp_succeed :: bool
  sp_execute :: bool
  sp_result :: "'r option"
  sp_feedback :: "addr option"
  sp_pre :: addr
  sp_messages :: "addr \<Rightarrow> 'f"
  sp_goal :: "('r, 'f) goal_view option"

definition goal_abs ::
    "('g \<Rightarrow> ('r, 'f) goal_view) \<Rightarrow> ('s, 'g, 'r, 'f) goal_handle \<Rightarrow> ('r, 'f) goal_spec" where
  "goal_abs view h = \<lparr>sp_abort = req_abort h, sp_cancel = req_cancel h, sp_succeed = req_succeed h,
     sp_execute = req_execute h, sp_result = req_result h, sp_feedback = req_feedback h,
     sp_pre = preallocated_feedback h, sp_messages = feedback_at h, sp_goal = map_option view (gh h)\<rparr>"

definition pending :: "('r, 'f) goal_spec \<Rightarrow> bool" where
  "pending p \<longleftrightarrow> sp_succeed p \<or> sp_abort p \<or> sp_cancel p"

definition at_most_one :: "('r, 'f) goal_spec \<Rightarrow> bool" where
  "at_most_one p \<longleftrightarrow> \<not> (sp_succeed p \<and> sp_abort p) \<and> \<not> (sp_succeed p \<and> sp_cancel p) \<and>
     \<not> (sp_abort p \<and> sp_cancel p)"

definition spec_start :: "('r, 'f) goal_spec \<Rightarrow> ('r, 'f) goal_view \<Rightarrow> ('r, 'f) goal_view" where
  "spec_start p v = (if sp_execute p \<and> gstate v = ACCEPTED then v\<lparr>gstate := EXECUTING\<rparr> else v)"

fun caught :: "unit outcome \<Rightarrow> unit outcome" where
  "caught (Throw (Rcl_error m)) = Return ()"
| "caught out = out"

definition spec_publish ::
    "exn option \<Rightarrow> ('r, 'f) goal_spec \<Rightarrow> ('r, 'f) goal_view \<Rightarrow> unit outcome \<times> ('r, 'f) goal_view" where
  "spec_publish failure p v =
     (case sp_feedback p of
        None \<Rightarrow> (Return (), v)
      | Some a \<Rightarrow>
          if gstate v \<noteq> EXECUTING then (Return (), v)
          else case failure of
              None \<Rightarrow> (Return (), v\<lparr>sent := sent v @ [sp_messages p a]\<rparr>)
            | Some e \<Rightarrow> (caught (Throw e), v))"

definition spec_end ::
    "goal_state \<Rightarrow> ('r, 'f) goal_spec \<Rightarrow> ('r, 'f) goal_view \<Rightarrow> unit outcome \<times> ('r, 'f) goal_spec" where
  "spec_end st p v =
     (case sp_result p of None \<Rightarrow> (Undefined, p) | Some r \<Rightarrow> (Return (), p\<lparr>sp_goal := Some (end_goal st r v)\<rparr>))"

definition spec_finish ::
    "exn option \<Rightarrow> ('r, 'f) goal_spec \<Rightarrow> ('r, 'f) goal_view \<Rightarrow> unit outcome \<times> ('r, 'f) goal_spec" where
  "spec_finish failure p v =
     (if sp_abort p \<and> gstate v = EXECUTING then spec_end ABORTED (p\<lparr>sp_abort := False\<rparr>) v
      else if sp_cancel p \<and> gstate v = CANCELING then spec_end CANCELED (p\<lparr>sp_cancel := False\<rparr>) v
      else if sp_succeed p \<and> gstate v = EXECUTING then spec_end SUCCEEDED (p\<lparr>sp_succeed := False\<rparr>) v
      else if sp_cancel p then (Return (), p\<lparr>sp_goal := Some v\<rparr>)
      else case spec_publish failure p v of (out, w) \<Rightarrow> (out, p\<lparr>sp_goal := Some w\<rparr>))"

definition spec_run :: "exn option \<Rightarrow> ('r, 'f) goal_spec \<Rightarrow> unit outcome \<times> ('r, 'f) goal_spec" where
  "spec_run failure p =
     (case sp_goal p of None \<Rightarrow> (Return (), p) | Some v \<Rightarrow> spec_finish failure p (spec_start p v))"

text \<open>One call of the handle by some thread, or a cancel request of a client, and what it returns.\<close>

datatype ('r, 'f) goal_cmd =
    Do_abort "'r option"
  | Do_cancel "'r option"
  | Do_succeed "'r option"
  | Do_execute
  | Do_feedback "addr option"
  | Do_try_feedback "'f \<Rightarrow> 'f \<times> exn option"
  | Do_run
  | Client_cancel

fun exec_goal ::
    "'s mutex_ops \<Rightarrow> ('g, 'r, 'f) goal_api \<Rightarrow> tid \<Rightarrow> ('r, 'f) goal_cmd \<Rightarrow> ('s, 'g, 'r, 'f, bool) goal_prog" where
  "exec_goal M api t (Do_abort r) = bindp (setAborted M t r) (\<lambda>_. ret True)"
| "exec_goal M api t (Do_cancel r) = bindp (setCanceled M t r) (\<lambda>_. ret True)"
| "exec_goal M api t (Do_succeed r) = bindp (setSucceeded M t r) (\<lambda>_. ret True)"
| "exec_goal M api t Do_execute = bindp (execute M t) (\<lambda>_. ret True)"
| "exec_goal M api t (Do_feedback fb) = setFeedback M t fb"
| "exec_goal M api t (Do_try_feedback f) = trySetFeedback M t f"
| "exec_goal M api t Do_run = bindp (runNonRealtime M api t) (\<lambda>_. ret True)"
| "exec_goal M api t Client_cancel =
     bindp (modify (\<lambda>h. h\<lparr>gh := map_option (api_cancel_goal api) (gh h)\<rparr>)) (\<lambda>_. ret True)"

definition client_cancel :: "('r, 'f) goal_view \<Rightarrow> ('r, 'f) goal_view" where
  "client_cancel v = (if gstate v \<in> {ACCEPTED, EXECUTING} then v\<lparr>gstate := CANCELING\<rparr> else v)"

fun spec_goal ::
    "('r, 'f) goal_cmd \<Rightarrow> exn option \<Rightarrow> ('r, 'f) goal_spec \<Rightarrow> bool outcome \<times> ('r, 'f) goal_spec" where
  "spec_goal (Do_abort r) failure p =
     (Return True, if sp_execute p \<and> \<not> pending p then p\<lparr>sp_abort := True, sp_result := r\<rparr> else p)"
| "spec_goal (Do_cancel r) failure p =
     (Return True, if sp_execute p \<and> \<not> pending p then p\<lparr>sp_cancel := True, sp_result := r\<rparr> else p)"
| "spec_goal (Do_succeed r) failure p =
     (Return True, if sp_execute p \<and> \<not> pending p then p\<lparr>sp_succeed := True, sp_result := r\<rparr> else p)"
| "spec_goal Do_execute failure p = (Return True, if \<not> pending p then p\<lparr>sp_execute := True\<rparr> else p)"
| "spec_goal (Do_feedback fb) failure p = (Return True, p\<lparr>sp_feedback := fb\<rparr>)"
| "spec_goal (Do_try_feedback f) failure p =
     (case f (sp_messages p (sp_pre p)) of
        (m, None) \<Rightarrow> (Return True,
          p\<lparr>sp_messages := (sp_messages p)(sp_pre p := m), sp_feedback := Some (sp_pre p)\<rparr>)
      | (m, Some e) \<Rightarrow> (Throw e, p\<lparr>sp_messages := (sp_messages p)(sp_pre p := m)\<rparr>))"
| "spec_goal Do_run failure p = bindp (spec_run failure) (\<lambda>_. ret True) p"
| "spec_goal Client_cancel failure p = (Return True, p\<lparr>sp_goal := map_option client_cancel (sp_goal p)\<rparr>)"

text \<open>
  A sequence of them, each by some thread; an exception ends that call only, undefined behaviour
  everything. The specification is given for each call how a \<^verbatim>\<open>publish_feedback\<close> in it fails.
\<close>

fun exec_goals ::
    "'s mutex_ops \<Rightarrow> ('g, 'r, 'f) goal_api \<Rightarrow> (tid \<times> ('r, 'f) goal_cmd) list \<Rightarrow> ('s, 'g, 'r, 'f) goal_handle \<Rightarrow>
      bool outcome list \<times> ('s, 'g, 'r, 'f) goal_handle" where
  "exec_goals M api [] h = ([], h)"
| "exec_goals M api ((t, c) # cs) h =
     (case exec_goal M api t c h of (r, h1) \<Rightarrow>
      if r = Undefined then ([r], h1)
      else case exec_goals M api cs h1 of (rs, h2) \<Rightarrow> (r # rs, h2))"

fun spec_goals ::
    "((tid \<times> ('r, 'f) goal_cmd) \<times> exn option) list \<Rightarrow> ('r, 'f) goal_spec \<Rightarrow>
      bool outcome list \<times> ('r, 'f) goal_spec" where
  "spec_goals [] p = ([], p)"
| "spec_goals (((t, c), failure) # cs) p =
     (case spec_goal c failure p of (r, p1) \<Rightarrow>
      if r = Undefined then ([r], p1)
      else case spec_goals cs p1 of (rs, p2) \<Rightarrow> (r # rs, p2))"

lemma spec_run_at_most_one: "at_most_one p \<Longrightarrow> at_most_one (snd (spec_run failure p))"
  by (auto simp: spec_run_def spec_finish_def spec_end_def at_most_one_def split: option.splits prod.splits)

lemma snd_bindp:
  "snd (bindp p q h) = (case fst (p h) of Return x \<Rightarrow> snd (q x (snd (p h))) | _ \<Rightarrow> snd (p h))"
  by (auto simp: bindp_def split: prod.splits outcome.splits)

lemma spec_goal_at_most_one: "at_most_one p \<Longrightarrow> at_most_one (snd (spec_goal c failure p))"
proof (cases "c = Do_run")
  case False
  assume "at_most_one p"
  with False show ?thesis
    by (cases c) (auto simp: at_most_one_def pending_def split: prod.split option.split)
qed (simp add: snd_bindp spec_run_at_most_one split: outcome.split)

section \<open>Running alone\<close>

lemma set_request_body [intro]:
  assumes "\<And>h m. raise (put_gmutex m h) = put_gmutex m (raise h)"
  shows "neutral put_gmutex (bindp (modify (req_result_update (\<lambda>_. result))) (\<lambda>_. modify raise))"
  using assms by (intro neutral_bind neutral_modify) simp_all

lemma feedback_bodies [intro]:
  "neutral put_gmutex (bindp (modify (req_feedback_update (\<lambda>_. fb))) (\<lambda>_. ret True))"
  "neutral put_gmutex (update_feedback f)"
  "neutral put_gmutex (modify (\<lambda>h. h\<lparr>req_feedback := Some (preallocated_feedback h)\<rparr>))"
  by (auto simp: update_feedback_def neutral_defs split: prod.splits option.splits)

lemma trySetFeedback_body [intro]:
  "neutral put_gmutex (bindp (update_feedback f) (\<lambda>_.
     bindp (modify (\<lambda>h. h\<lparr>req_feedback := Some (preallocated_feedback h)\<rparr>)) (\<lambda>_. ret True)))"
  by (intro neutral_bind feedback_bodies neutral_ret)

text \<open>What \<^verbatim>\<open>runNonRealtime\<close> does under the mutex neither reads nor changes the mutex.\<close>

definition tame :: "('s, 'g, 'r, 'f, 'a) goal_prog \<Rightarrow> bool" where
  "tame body \<longleftrightarrow> (\<forall>h m. body (put_gmutex m h) = (fst (body h), put_gmutex m (snd (body h))))"

lemma tame_ask: "tame (ask p)"
  by (auto simp: tame_def ask_def split: option.splits)

lemma tame_tell: "tame (tell f)"
  by (auto simp: tame_def tell_def split: option.splits prod.splits)

lemma tame_if: "tame p \<Longrightarrow> tame q \<Longrightarrow> tame (if b then p else q)"
  by simp

lemma tame_bind:
  assumes "tame p" "\<And>x. tame (q x)"
  shows "tame (bindp p q)"
  unfolding tame_def
proof (intro allI)
  fix h :: "('a, 'b, 'c, 'd) goal_handle" and m
  have "p (put_gmutex m h) = (fst (p h), put_gmutex m (snd (p h)))"
    and "q x (put_gmutex m k) = (fst (q x k), put_gmutex m (snd (q x k)))" for x k
    using assms by (auto simp: tame_def)
  then show "bindp p q (put_gmutex m h) = (fst (bindp p q h), put_gmutex m (snd (bindp p q h)))"
    by (cases "p h"; cases "fst (p h)") (auto simp: bindp_def)
qed

lemma tame_ret: "tame (ret x)"
  by (simp add: tame_def)

lemma tame_get_state: "(\<And>m h. k (put_gmutex m h) = k h) \<Longrightarrow> tame (get_state k)"
  by (simp add: tame_def)

lemma tame_modify: "(\<And>m h. k (put_gmutex m h) = put_gmutex m (k h)) \<Longrightarrow> tame (modify k)"
  by (simp add: tame_def)

lemma tame_when_asked:
  "(\<And>m h. k (put_gmutex m h) = k h) \<Longrightarrow> tame body \<Longrightarrow> tame (when_asked k cond body)"
  unfolding when_asked_def by (intro tame_bind tame_if tame_ask tame_get_state tame_ret)

lemma tame_run_body: "tame (run_body api)"
  unfolding run_body_def run_execute_def run_abort_def run_cancel_def run_succeed_def run_feedback_def
  by (intro tame_bind tame_when_asked tame_tell tame_get_state tame_modify) simp_all

lemma catch_rcl_does:
  "fst (catch_rcl body h) = caught (fst (body h))"
  "goal_abs view (snd (catch_rcl body h)) = goal_abs view (snd (body h))"
  by (auto simp: catch_rcl_def goal_abs_def split: prod.splits outcome.splits exn.splits)

lemma tame_catch:
  assumes "tame body"
  shows "tame (catch_rcl body)"
  unfolding tame_def
proof (intro allI)
  fix h :: "('a, 'b, 'c, 'd) goal_handle" and m
  have "body (put_gmutex m h) = (fst (body h), put_gmutex m (snd (body h)))"
    using assms by (simp add: tame_def)
  then show "catch_rcl body (put_gmutex m h) = (fst (catch_rcl body h), put_gmutex m (snd (catch_rcl body h)))"
    by (cases "body h") (auto simp: catch_rcl_def split: outcome.splits exn.splits)
qed

text \<open>Everything after the first part, and its outcome with the flag of at most one end set.\<close>

definition run_rest :: "('g, 'r, 'f) goal_api \<Rightarrow> ('s, 'g, 'r, 'f, unit) goal_prog" where
  "run_rest api = bindp (run_abort api) (\<lambda>_. bindp (run_cancel api) (\<lambda>_.
     bindp (run_succeed api) (\<lambda>_. run_feedback api)))"

definition refines ::
    "('g \<Rightarrow> ('r, 'f) goal_view) \<Rightarrow> unit outcome \<times> ('r, 'f) goal_spec \<Rightarrow>
      unit outcome \<times> ('s, 'g, 'r, 'f) goal_handle \<Rightarrow> bool" where
  "refines view spec res \<longleftrightarrow> caught (fst res) = fst spec \<and>
     (fst spec \<noteq> Undefined \<longrightarrow> goal_abs view (snd res) = snd spec)"

text \<open>How the run's \<^verbatim>\<open>publish_feedback\<close> may fail.\<close>

definition publish_failures :: "('g, 'r, 'f) goal_api \<Rightarrow> ('g \<Rightarrow> ('r, 'f) goal_view) \<Rightarrow> exn option set" where
  "publish_failures api view = insert None
     {Some e |e f g. gstate (view g) = EXECUTING \<and> fst (api_publish_feedback api f g) = Throw e}"

text \<open>No call in progress, and at most one request.\<close>

definition handle_ok ::
    "('s \<Rightarrow> (tid \<times> nat) option) \<Rightarrow> ('s \<Rightarrow> bool) \<Rightarrow> ('g \<Rightarrow> ('r, 'f) goal_view) \<Rightarrow>
      ('s, 'g, 'r, 'f) goal_handle \<Rightarrow> bool" where
  "handle_ok holder usable view h \<longleftrightarrow>
     usable (gmutex h) \<and> holder (gmutex h) = None \<and> at_most_one (goal_abs view h)"

lemma goal_abs_gmutex [simp]: "goal_abs view (h\<lparr>gmutex := m\<rparr>) = goal_abs view h"
  by (simp add: goal_abs_def)

locale goal_server = lockable M holder usable + goal_laws api view
  for M :: "'s mutex_ops" and holder :: "'s \<Rightarrow> (tid \<times> nat) option" and usable :: "'s \<Rightarrow> bool"
    and api :: "('g, 'r, 'f) goal_api" and view :: "'g \<Rightarrow> ('r, 'f) goal_view"
begin

lemma handle_client: "lock_client M holder usable gmutex put_gmutex"
  by unfold_locales simp_all

lemma asked_goal:
  assumes "gh h = Some g"
  shows "\<not> flag h \<Longrightarrow> when_asked flag cond body h = (Return (), h)"
    and "\<not> cond g \<Longrightarrow> when_asked flag cond body h = (Return (), h)"
    and "flag h \<Longrightarrow> cond g \<Longrightarrow> when_asked flag cond body h = body h"
  using assms by (auto simp: when_asked_def ask_def bindp_def)

lemma run_execute_does:
  assumes "gh h = Some g"
  shows "\<exists>g'. run_execute api h = (Return (), h\<lparr>gh := Some g'\<rparr>) \<and> view g' = spec_start (goal_abs view h) (view g)"
proof (cases "req_execute h \<and> gstate (view g) = ACCEPTED")
  case True
  obtain out g' where g': "api_execute api g = (out, g')" by fastforce
  from execute_law [OF g'] True have "out = Return ()" "view g' = (view g)\<lparr>gstate := EXECUTING\<rparr>"
    by simp_all
  with True g' assms show ?thesis
    by (auto simp: goal_defs is_executing is_active is_canceling spec_start_def goal_abs_def)
next
  case False
  have "run_execute api h = (Return (), h\<lparr>gh := Some g\<rparr>)"
    using False assms by (cases "gstate (view g)") (auto simp: goal_defs is_executing is_active is_canceling)
  with False show ?thesis by (auto simp: spec_start_def goal_abs_def)
qed

text \<open>An end that is asked for and possible: the transition, and with success the flag is cleared.\<close>

lemma run_end:
  assumes "gh h = Some g" "flag h" "cond g" "f (req_result h) g = (out, g')"
  shows "when_asked flag cond (bindp (get_state req_result) (\<lambda>r. bindp (tell (f r)) (\<lambda>_. modify clear))) h =
    (out, if out = Return () then clear (h\<lparr>gh := Some g'\<rparr>) else h\<lparr>gh := Some g'\<rparr>)"
  using assms by (cases out) (simp_all add: asked_goal(3) [OF assms(1)] bindp_def tell_def)

lemma run_feedback_idle:
  assumes "gh h = Some g" "gstate (view g) \<noteq> EXECUTING"
  shows "run_feedback api h = (Return (), h)"
  using assms asked_goal(2) [OF assms(1)] by (simp add: run_feedback_def is_executing)

lemma no_failure: "None \<in> publish_failures api view"
  by (simp add: publish_failures_def)

lemma run_feedback_does:
  assumes "gh h = Some g"
  shows "\<exists>failure\<in>publish_failures api view. \<exists>out g'. run_feedback api h = (out, h\<lparr>gh := Some g'\<rparr>) \<and>
    (caught out, view g') = spec_publish failure (goal_abs view h) (view g)"
proof (cases "req_feedback h \<noteq> None \<and> gstate (view g) = EXECUTING")
  case True
  then obtain a where a: "req_feedback h = Some a" by auto
  obtain out g' where p: "api_publish_feedback api (feedback_at h a) g = (out, g')" by fastforce
  have run: "run_feedback api h = (out, h\<lparr>gh := Some g'\<rparr>)"
    using True a p assms by (simp add: goal_defs is_executing)
  from True publish_law [OF _ p] consider "out = Return ()" "view g' = (view g)\<lparr>sent := sent (view g) @ [feedback_at h a]\<rparr>"
    | e where "out = Throw e" "view g' = view g"
    by (auto simp: sends_or_throws_def)
  then show ?thesis
  proof cases
    case 1
    with run True a show ?thesis
      by (intro bexI [OF _ no_failure] exI) (auto simp: spec_publish_def goal_abs_def)
  next
    case (2 e)
    then have "Some e \<in> publish_failures api view"
      unfolding publish_failures_def using True p
      by (intro insertI2 CollectI exI [of _ e] exI [of _ "feedback_at h a"] exI [of _ g]) simp
    with 2 run True a show ?thesis
      by (intro bexI [of _ "Some e"] exI) (auto simp: spec_publish_def goal_abs_def)
  qed
next
  case False
  then have "run_feedback api h = (Return (), h\<lparr>gh := Some g\<rparr>)"
    using assms by (auto simp: goal_defs is_executing)
  with False show ?thesis
    by (intro bexI [OF _ no_failure] exI) (auto simp: spec_publish_def goal_abs_def split: option.split)
qed

lemma off:
  assumes "gh h = Some g"
  shows "\<not> req_abort h \<Longrightarrow> run_abort api h = (Return (), h)"
    and "\<not> req_cancel h \<Longrightarrow> run_cancel api h = (Return (), h)"
    and "\<not> req_succeed h \<Longrightarrow> run_succeed api h = (Return (), h)"
  using asked_goal(1) [OF assms] by (simp_all add: run_abort_def run_cancel_def run_succeed_def)

lemma spec_publish_idle: "gstate v \<noteq> EXECUTING \<Longrightarrow> spec_publish failure p v = (Return (), v)"
  by (simp add: spec_publish_def split: option.split)

abbreviation finishes :: "('s, 'g, 'r, 'f) goal_handle \<Rightarrow> 'g \<Rightarrow> bool" where
  "finishes h g \<equiv> \<exists>failure\<in>publish_failures api view.
     refines view (spec_finish failure (goal_abs view h) (view g)) (run_rest api h)"

lemma finishesI:
  "refines view (spec_finish None (goal_abs view h) (view g)) (run_rest api h) \<Longrightarrow> finishes h g"
  using no_failure by blast

lemma run_rest_abort:
  assumes g: "gh h = Some g" and f: "req_abort h" "\<not> req_cancel h" "\<not> req_succeed h"
  shows "finishes h g"
proof (rule finishesI, cases "gstate (view g) = EXECUTING")
  case True
  obtain out g1 where g1: "api_abort api (req_result h) g = (out, g1)" by fastforce
  note law = abort_law [OF g1]
  have a: "run_abort api h = (out, if out = Return () then h\<lparr>gh := Some g1, req_abort := False\<rparr> else h\<lparr>gh := Some g1\<rparr>)"
    using run_end [of h g req_abort "is_executing api" "api_abort api" out g1 "req_abort_update (\<lambda>_. False)"] g f g1 True
    by (simp add: run_abort_def is_executing)
  show "refines view (spec_finish None (goal_abs view h) (view g)) (run_rest api h)"
  proof (cases "req_result h")
    case None
    with law True have "out = Undefined" by (simp add: ends_or_error_def)
    with a f True None show ?thesis
      by (simp add: run_rest_def bindp_simps refines_def spec_finish_def spec_end_def goal_abs_def)
  next
    case (Some x)
    with law True have 1: "out = Return ()" "view g1 = end_goal ABORTED x (view g)"
      by (simp_all add: ends_or_error_def)
    define h1 where "h1 = h\<lparr>gh := Some g1, req_abort := False\<rparr>"
    have h1: "gh h1 = Some g1" "\<not> req_cancel h1" "\<not> req_succeed h1" using f by (simp_all add: h1_def)
    have "run_rest api h = (Return (), h1)"
      using a 1 run_feedback_idle [OF h1(1)]
      by (simp add: run_rest_def bindp_simps off [OF h1(1)] h1(2,3) end_goal_def flip: h1_def)
    with f True 1 Some show ?thesis
      by (simp add: refines_def h1_def goal_abs_def spec_finish_def spec_end_def)
  qed
next
  case False
  have "run_abort api h = (Return (), h)"
    using asked_goal(2) [OF g] False by (simp add: run_abort_def is_executing)
  then show "refines view (spec_finish None (goal_abs view h) (view g)) (run_rest api h)"
    using f False by (simp add: run_rest_def bindp_simps off [OF g] run_feedback_idle [OF g False] refines_def
        goal_abs_def spec_finish_def spec_publish_idle g)
qed

lemma run_rest_cancel:
  assumes g: "gh h = Some g" and f: "\<not> req_abort h" "req_cancel h" "\<not> req_succeed h"
  shows "finishes h g"
proof (rule finishesI, cases "terminal (gstate (view g))")
  case True
  then have idle: "gstate (view g) \<noteq> EXECUTING" "gstate (view g) \<noteq> CANCELING" by auto
  have "run_cancel api h = (Return (), h)"
    using asked_goal(2) [OF g] True by (simp add: run_cancel_def is_active)
  then show "refines view (spec_finish None (goal_abs view h) (view g)) (run_rest api h)"
    using f idle by (simp add: run_rest_def bindp_simps off [OF g] run_feedback_idle [OF g idle(1)] refines_def
        goal_abs_def spec_finish_def g)
next
  case active: False
  obtain out g1 where g1: "api_canceled api (req_result h) g = (out, g1)" by fastforce
  note law = canceled_law [OF g1]
  have a: "run_cancel api h = (out, if out = Return () then h\<lparr>gh := Some g1, req_cancel := False\<rparr> else h\<lparr>gh := Some g1\<rparr>)"
    using run_end [of h g req_cancel "is_active api" "api_canceled api" out g1 "req_cancel_update (\<lambda>_. False)"] g f g1 active
    by (simp add: run_cancel_def is_active)
  show "refines view (spec_finish None (goal_abs view h) (view g)) (run_rest api h)"
  proof (cases "gstate (view g) = CANCELING")
    case False
    with law obtain m where "out = Throw (Rcl_error m)" "view g1 = view g"
      by (auto simp: ends_or_error_def rejected_def)
    with a f False show ?thesis
      by (simp add: run_rest_def bindp_simps off [OF g] refines_def goal_abs_def spec_finish_def)
  next
    case True
    show ?thesis
    proof (cases "req_result h")
      case None
      with law True have "out = Undefined" by (simp add: ends_or_error_def)
      with a f True None show ?thesis
        by (simp add: run_rest_def bindp_simps off [OF g] refines_def spec_finish_def spec_end_def goal_abs_def)
    next
      case (Some x)
      with law True have 1: "out = Return ()" "view g1 = end_goal CANCELED x (view g)"
        by (simp_all add: ends_or_error_def)
      define h1 where "h1 = h\<lparr>gh := Some g1, req_cancel := False\<rparr>"
      have h1: "gh h1 = Some g1" "\<not> req_succeed h1" using f by (simp_all add: h1_def)
      have "run_rest api h = (Return (), h1)"
        using a 1 f run_feedback_idle [OF h1(1)]
        by (simp add: run_rest_def bindp_simps off [OF g] off [OF h1(1)] h1(2) end_goal_def flip: h1_def)
      with f True 1 Some show ?thesis
        by (simp add: refines_def h1_def goal_abs_def spec_finish_def spec_end_def)
    qed
  qed
qed

lemma run_rest_succeed:
  assumes g: "gh h = Some g" and f: "\<not> req_abort h" "\<not> req_cancel h" "req_succeed h"
  shows "finishes h g"
proof (rule finishesI, cases "gstate (view g) = CANCELING")
  case True
  then have idle: "gstate (view g) \<noteq> EXECUTING" by simp
  have "run_succeed api h = (Return (), h)"
    using asked_goal(2) [OF g] True by (simp add: run_succeed_def is_canceling)
  then show "refines view (spec_finish None (goal_abs view h) (view g)) (run_rest api h)"
    using f True by (simp add: run_rest_def bindp_simps off [OF g] run_feedback_idle [OF g idle] refines_def
        goal_abs_def spec_finish_def spec_publish_idle g)
next
  case not_canceling: False
  obtain out g1 where g1: "api_succeed api (req_result h) g = (out, g1)" by fastforce
  note law = succeed_law [OF g1]
  have a: "run_succeed api h = (out, if out = Return () then h\<lparr>gh := Some g1, req_succeed := False\<rparr> else h\<lparr>gh := Some g1\<rparr>)"
    using run_end [of h g req_succeed "\<lambda>g. \<not> is_canceling api g" "api_succeed api" out g1
        "req_succeed_update (\<lambda>_. False)"] g f g1 not_canceling
    by (simp add: run_succeed_def is_canceling)
  show "refines view (spec_finish None (goal_abs view h) (view g)) (run_rest api h)"
  proof (cases "gstate (view g) = EXECUTING")
    case False
    with law not_canceling obtain m where "out = Throw (Rcl_error m)" "view g1 = view g"
      by (auto simp: ends_or_error_def rejected_def)
    with a f False show ?thesis
      by (simp add: run_rest_def bindp_simps off [OF g] refines_def goal_abs_def spec_finish_def spec_publish_idle)
  next
    case True
    show ?thesis
    proof (cases "req_result h")
      case None
      with law True have "out = Undefined" by (simp add: ends_or_error_def)
      with a f True None show ?thesis
        by (simp add: run_rest_def bindp_simps off [OF g] refines_def spec_finish_def spec_end_def goal_abs_def)
    next
      case (Some x)
      with law True have 1: "out = Return ()" "view g1 = end_goal SUCCEEDED x (view g)"
        by (simp_all add: ends_or_error_def)
      define h1 where "h1 = h\<lparr>gh := Some g1, req_succeed := False\<rparr>"
      have h1: "gh h1 = Some g1" by (simp add: h1_def)
      have "run_rest api h = (Return (), h1)"
        using a 1 f run_feedback_idle [OF h1]
        by (simp add: run_rest_def bindp_simps off [OF g] end_goal_def flip: h1_def)
      with f True 1 Some show ?thesis
        by (simp add: refines_def h1_def goal_abs_def spec_finish_def spec_end_def)
    qed
  qed
qed

lemma run_rest_none:
  assumes g: "gh h = Some g" and f: "\<not> req_abort h" "\<not> req_cancel h" "\<not> req_succeed h"
  shows "finishes h g"
proof -
  obtain failure out g' where fb: "failure \<in> publish_failures api view"
      "run_feedback api h = (out, h\<lparr>gh := Some g'\<rparr>)"
      "(caught out, view g') = spec_publish failure (goal_abs view h) (view g)"
    using run_feedback_does [OF g] by blast
  have "run_rest api h = (out, h\<lparr>gh := Some g'\<rparr>)"
    using f by (simp add: run_rest_def bindp_simps off [OF g] fb(2))
  moreover have "spec_finish failure (goal_abs view h) (view g) = (caught out, (goal_abs view h)\<lparr>sp_goal := Some (view g')\<rparr>)"
    using f by (simp add: spec_finish_def fb(3) [symmetric]) (simp add: goal_abs_def)
  ultimately have "refines view (spec_finish failure (goal_abs view h) (view g)) (run_rest api h)"
    by (simp add: refines_def goal_abs_def)
  with fb(1) show ?thesis by blast
qed

lemma run_body_refines:
  fixes h :: "('s, 'g, 'r, 'f) goal_handle"
  assumes "gh h = Some g" "at_most_one (goal_abs view h)"
  shows "\<exists>failure\<in>publish_failures api view. refines view (spec_run failure (goal_abs view h)) (run_body api h)"
proof -
  obtain g1 where g1: "run_execute api h = (Return (), h\<lparr>gh := Some g1\<rparr>)"
      "view g1 = spec_start (goal_abs view h) (view g)"
    using run_execute_does [OF assms(1)] by blast
  define h1 where "h1 = h\<lparr>gh := Some g1\<rparr>"
  have one: "\<not> (req_succeed h1 \<and> req_abort h1)" "\<not> (req_succeed h1 \<and> req_cancel h1)"
      "\<not> (req_abort h1 \<and> req_cancel h1)" and gh: "gh h1 = Some g1"
    using assms(2) by (simp_all add: at_most_one_def goal_abs_def h1_def)
  have "finishes h1 g1"
    using run_rest_abort [OF gh] run_rest_cancel [OF gh] run_rest_succeed [OF gh] run_rest_none [OF gh] one
    by blast
  moreover have "run_body api h = run_rest api h1"
    by (simp add: run_body_def run_rest_def bindp_simps g1(1) h1_def)
  moreover have "spec_finish failure (goal_abs view h1) v = spec_finish failure (goal_abs view h) v \<or>
      fst (spec_finish failure (goal_abs view h1) v) = Undefined \<and>
      fst (spec_finish failure (goal_abs view h) v) = Undefined" for failure v
    by (simp add: goal_abs_def h1_def spec_finish_def spec_end_def spec_publish_def
        split: option.split prod.split)
  moreover have "sp_goal (goal_abs view h) = Some (view g)" using assms(1) by (simp add: goal_abs_def)
  ultimately show ?thesis by (simp add: spec_run_def g1(2) refines_def) metis
qed

lemma set_request_refines:
  assumes "handle_ok holder usable view h" "\<And>h m. raise (put_gmutex m h) = put_gmutex m (raise h)"
  shows "\<exists>h'. set_request M t raise r h = (Return (), h') \<and> usable (gmutex h') \<and> holder (gmutex h') = None \<and>
    goal_abs view h' = (if may_request h then goal_abs view (raise (h\<lparr>req_result := r\<rparr>)) else goal_abs view h)"
proof (cases "may_request h")
  case True
  have u: "usable (gmutex h)" "holder (gmutex h) = None" using assms(1) by (simp_all add: handle_ok_def)
  obtain m where m: "lock_guard M t gmutex put_gmutex
        (bindp (modify (req_result_update (\<lambda>_. r))) (\<lambda>_. modify raise)) h =
      (Return (), put_gmutex m (raise (h\<lparr>req_result := r\<rparr>)))" "usable m" "holder m = None"
    using lock_client.guard_free [OF handle_client u set_request_body [of raise r, OF assms(2)], of t] by auto
  with True show ?thesis by (simp add: set_request_def)
next
  case False
  with assms(1) show ?thesis by (simp add: set_request_def handle_ok_def)
qed

lemma execute_refines:
  assumes "handle_ok holder usable view h"
  shows "\<exists>h'. execute M t h = (Return (), h') \<and> usable (gmutex h') \<and> holder (gmutex h') = None \<and>
    goal_abs view h' = (if \<not> pending (goal_abs view h) then goal_abs view (h\<lparr>req_execute := True\<rparr>)
      else goal_abs view h)"
proof (cases "pending (goal_abs view h)")
  case True
  with assms show ?thesis
    by (auto simp: execute_def handle_ok_def pending_def goal_abs_def)
next
  case False
  have u: "usable (gmutex h)" "holder (gmutex h) = None" using assms by (simp_all add: handle_ok_def)
  have n: "neutral put_gmutex (modify (req_execute_update (\<lambda>_. True)))"
    by (rule neutral_modify) simp
  obtain m where "lock_guard M t gmutex put_gmutex (modify (req_execute_update (\<lambda>_. True))) h =
      (Return (), put_gmutex m (h\<lparr>req_execute := True\<rparr>))" "usable m" "holder m = None"
    using lock_client.guard_free [OF handle_client u n, of t] by auto
  with False show ?thesis by (simp add: execute_def pending_def goal_abs_def)
qed

lemma feedback_refines:
  assumes "handle_ok holder usable view h"
  shows "\<exists>m. setFeedback M t fb h = (Return True, put_gmutex m (h\<lparr>req_feedback := fb\<rparr>)) \<and>
      usable m \<and> holder m = None"
    and "\<exists>h'. trySetFeedback M t f h = (fst (spec_goal (Do_try_feedback f) failure (goal_abs view h)), h') \<and>
      usable (gmutex h') \<and> holder (gmutex h') = None \<and>
      goal_abs view h' = snd (spec_goal (Do_try_feedback f) failure (goal_abs view h))"
proof -
  have u: "usable (gmutex h)" "holder (gmutex h) = None" using assms by (simp_all add: handle_ok_def)
  show "\<exists>m. setFeedback M t fb h = (Return True, put_gmutex m (h\<lparr>req_feedback := fb\<rparr>)) \<and>
      usable m \<and> holder m = None"
    using lock_client.try_guard_free [OF handle_client u feedback_bodies(1), of t False fb]
    by (simp add: setFeedback_def)
  obtain m where m: "trySetFeedback M t f h =
      (fst (bindp (update_feedback f) (\<lambda>_.
         bindp (modify (\<lambda>h. h\<lparr>req_feedback := Some (preallocated_feedback h)\<rparr>)) (\<lambda>_. ret True)) h),
       put_gmutex m (snd (bindp (update_feedback f) (\<lambda>_.
         bindp (modify (\<lambda>h. h\<lparr>req_feedback := Some (preallocated_feedback h)\<rparr>)) (\<lambda>_. ret True)) h)))"
      "usable m" "holder m = None"
    using lock_client.try_guard_free [OF handle_client u trySetFeedback_body, of t False f]
    by (auto simp: trySetFeedback_def)
  then show "\<exists>h'. trySetFeedback M t f h = (fst (spec_goal (Do_try_feedback f) failure (goal_abs view h)), h') \<and>
      usable (gmutex h') \<and> holder (gmutex h') = None \<and>
      goal_abs view h' = snd (spec_goal (Do_try_feedback f) failure (goal_abs view h))"
    by (auto simp: update_feedback_def bindp_def goal_abs_def split: prod.splits option.splits)
qed

lemma runNonRealtime_refines:
  assumes "handle_ok holder usable view h"
  shows "\<exists>failure\<in>publish_failures api view. \<exists>out h'. runNonRealtime M api t h = (out, h') \<and>
    out = fst (spec_run failure (goal_abs view h)) \<and>
    (out \<noteq> Undefined \<longrightarrow> usable (gmutex h') \<and> holder (gmutex h') = None \<and>
      goal_abs view h' = snd (spec_run failure (goal_abs view h)))"
proof (cases "gh h")
  case None
  then show ?thesis using assms
    by (intro bexI [OF _ no_failure])
      (simp add: runNonRealtime_def valid_def handle_ok_def spec_run_def goal_abs_def)
next
  case (Some g)
  let ?body = "catch_rcl (run_body api)"
  have u: "usable (gmutex h)" "holder (gmutex h) = None" and one: "at_most_one (goal_abs view h)"
    using assms by (simp_all add: handle_ok_def)
  have run: "runNonRealtime M api t h = lock_guard M t gmutex put_gmutex ?body h"
    using Some by (simp add: runNonRealtime_def valid_def)
  obtain failure where f: "failure \<in> publish_failures api view"
      "refines view (spec_run failure (goal_abs view h)) (run_body api h)"
    using run_body_refines [OF Some one] by blast
  have out: "fst (?body h) = fst (spec_run failure (goal_abs view h))"
    using f(2) by (simp add: catch_rcl_does(1) refines_def)
  have abs: "goal_abs view (snd (?body h)) = goal_abs view (snd (run_body api h))"
    by (rule catch_rcl_does)
  have blind: "?body (put_gmutex m h) = (fst (?body h), put_gmutex m (snd (?body h)))" for m
  proof -
    have "tame (?body :: ('s, 'g, 'r, 'f, unit) goal_prog)" by (rule tame_catch [OF tame_run_body])
    then show ?thesis by (simp add: tame_def)
  qed
  have ends: "fst (spec_run failure p) = Return () \<or> (\<exists>e. fst (spec_run failure p) = Throw e) \<or>
      fst (spec_run failure p) = Undefined" for p :: "('r, 'f) goal_spec"
    by (cases failure; cases "the failure")
      (auto simp: spec_run_def spec_finish_def spec_end_def spec_publish_def split: option.splits prod.splits if_splits)
  show ?thesis
  proof (cases "fst (?body h) = Undefined")
    case True
    obtain m where "op_lock M t (gmutex h) = (Return (), m)" using lock_free [OF u] by blast
    then have "fst (lock_guard M t gmutex put_gmutex ?body h) = Undefined"
      using True blind [of m] by (simp add: lock_guard_def guarded_def bindp_def on_part_def split: prod.split)
    with f(1) out True run show ?thesis by (intro bexI [of _ failure]) (auto simp: prod_eq_iff)
  next
    case False
    then have "neutral_at put_gmutex h ?body"
      using ends [of "goal_abs view h"] out blind by (auto simp: neutral_at_def)
    then obtain m where "lock_guard M t gmutex put_gmutex ?body h =
        (fst (?body h), put_gmutex m (snd (?body h)))" "usable m" "holder m = None"
      using lock_client.guard_free_at [OF handle_client u] by blast
    with f out abs False run show ?thesis
      by (intro bexI [of _ failure]) (auto simp: refines_def)
  qed
qed

lemma bindp_done:
  "m s = (out, s') \<Longrightarrow> bindp m (\<lambda>_. ret x) s = (map_outcome (\<lambda>_. x) out, s')"
  by (cases out) (simp_all add: bindp_simps)

lemma exec_goal_refines:
  assumes "handle_ok holder usable view h"
  shows "\<exists>failure\<in>publish_failures api view.
    fst (exec_goal M api t c h) = fst (spec_goal c failure (goal_abs view h)) \<and>
    (fst (exec_goal M api t c h) \<noteq> Undefined \<longrightarrow>
      goal_abs view (snd (exec_goal M api t c h)) = snd (spec_goal c failure (goal_abs view h)) \<and>
      handle_ok holder usable view (snd (exec_goal M api t c h)))"
proof -
  let ?spec = "\<lambda>failure. spec_goal c failure (goal_abs view h)"
  have may: "may_request h = (sp_execute (goal_abs view h) \<and> \<not> pending (goal_abs view h))"
    by (auto simp: may_request_def pending_def goal_abs_def)
  have "\<exists>failure\<in>publish_failures api view. \<exists>h'. exec_goal M api t c h = (fst (?spec failure), h') \<and>
      (fst (?spec failure) \<noteq> Undefined \<longrightarrow> usable (gmutex h') \<and> holder (gmutex h') = None \<and>
       goal_abs view h' = snd (?spec failure))"
  proof (cases c)
    case (Do_abort r)
    then show ?thesis
      using set_request_refines [OF assms, of "req_abort_update (\<lambda>_. True)" t r] may
      by (intro bexI [OF _ no_failure]) (auto simp: setAborted_def bindp_simps goal_abs_def)
  next
    case (Do_cancel r)
    then show ?thesis
      using set_request_refines [OF assms, of "req_cancel_update (\<lambda>_. True)" t r] may
      by (intro bexI [OF _ no_failure]) (auto simp: setCanceled_def bindp_simps goal_abs_def)
  next
    case (Do_succeed r)
    then show ?thesis
      using set_request_refines [OF assms, of "req_succeed_update (\<lambda>_. True)" t r] may
      by (intro bexI [OF _ no_failure]) (auto simp: setSucceeded_def bindp_simps goal_abs_def)
  next
    case Do_execute
    then show ?thesis using execute_refines [OF assms, of t]
      by (intro bexI [OF _ no_failure]) (auto simp: bindp_simps goal_abs_def)
  next
    case (Do_feedback fb)
    then show ?thesis using feedback_refines(1) [OF assms, of t fb]
      by (intro bexI [OF _ no_failure]) (auto simp: goal_abs_def)
  next
    case (Do_try_feedback f)
    then show ?thesis using feedback_refines(2) [OF assms, of t f None]
      by (intro bexI [OF _ no_failure]) (simp del: spec_goal.simps, blast)
  next
    case Do_run
    obtain failure out h' where run: "failure \<in> publish_failures api view" "runNonRealtime M api t h = (out, h')"
        "out = fst (spec_run failure (goal_abs view h))"
        "out \<noteq> Undefined \<longrightarrow> usable (gmutex h') \<and> holder (gmutex h') = None \<and>
           goal_abs view h' = snd (spec_run failure (goal_abs view h))"
      using runNonRealtime_refines [OF assms, of t] by blast
    obtain q where q: "spec_run failure (goal_abs view h) = (out, q)" using run(3) by (metis prod.collapse)
    then show ?thesis
      using run(4) by (intro bexI [OF _ run(1)]) (simp add: Do_run q
          bindp_done [where m = "runNonRealtime M api t" and s = h, OF run(2)]
          bindp_done [where m = "spec_run failure" and s = "goal_abs view h", OF q], cases out; simp)
  next
    case Client_cancel
    then show ?thesis using assms cancel_law
      by (intro bexI [OF _ no_failure])
        (auto simp: handle_ok_def goal_abs_def client_cancel_def option.map_comp comp_def)
  qed
  then obtain failure h' where h': "failure \<in> publish_failures api view"
      "exec_goal M api t c h = (fst (?spec failure), h')"
      "fst (?spec failure) \<noteq> Undefined \<longrightarrow> usable (gmutex h') \<and> holder (gmutex h') = None \<and>
       goal_abs view h' = snd (?spec failure)"
    by blast
  moreover have "at_most_one (goal_abs view h')" if "goal_abs view h' = snd (?spec failure)"
    using that assms by (auto simp: handle_ok_def intro: spec_goal_at_most_one)
  ultimately show ?thesis by (intro bexI [OF _ h'(1)]) (auto simp: handle_ok_def)
qed

definition agrees ::
    "(tid \<times> ('r, 'f) goal_cmd) list \<Rightarrow> exn option list \<Rightarrow> ('s, 'g, 'r, 'f) goal_handle \<Rightarrow> bool" where
  "agrees cs fs h \<longleftrightarrow> length fs = length cs \<and> set fs \<subseteq> publish_failures api view \<and>
     fst (exec_goals M api cs h) = fst (spec_goals (zip cs fs) (goal_abs view h)) \<and>
     (Undefined \<notin> set (fst (exec_goals M api cs h)) \<longrightarrow>
       goal_abs view (snd (exec_goals M api cs h)) = snd (spec_goals (zip cs fs) (goal_abs view h)) \<and>
       handle_ok holder usable view (snd (exec_goals M api cs h)))"

lemma exec_goals_refines: "handle_ok holder usable view h \<Longrightarrow> \<exists>fs. agrees cs fs h"
proof (induction cs arbitrary: h)
  case Nil
  then show ?case by (intro exI [of _ "[]"]) (simp add: agrees_def)
next
  case (Cons tc cs)
  obtain t c where tc: "tc = (t, c)" by fastforce
  obtain out h1 where h1: "exec_goal M api t c h = (out, h1)" by fastforce
  obtain f where f: "f \<in> publish_failures api view" "out = fst (spec_goal c f (goal_abs view h))"
      "out \<noteq> Undefined \<longrightarrow> goal_abs view h1 = snd (spec_goal c f (goal_abs view h)) \<and> handle_ok holder usable view h1"
    using exec_goal_refines [OF Cons.prems, of t c] h1 by auto
  obtain p1 where p1: "spec_goal c f (goal_abs view h) = (out, p1)" using f(2) by (metis prod.collapse)
  show ?case
  proof (cases "out = Undefined")
    case True
    with f(1) h1 p1 no_failure show ?thesis
      by (intro exI [of _ "f # replicate (length cs) None"]) (auto simp: agrees_def tc set_replicate_conv_if)
  next
    case False
    with f(3) Cons.IH obtain fs where "agrees cs fs h1" by blast
    with False f(1,3) h1 p1 show ?thesis
      by (intro exI [of _ "f # fs"]) (auto simp: agrees_def tc case_prod_unfold)
  qed
qed

end

lemma goal_serverI: "lockable M holder usable \<Longrightarrow> goal_laws api view \<Longrightarrow> goal_server M holder usable api view"
  by (simp add: goal_server_def)

interpretation prio_goal: goal_server "detail_mutex (posix_api ERRORCHECK)"
    "\<lambda>s. pm_holder (os s)" "\<lambda>s. pm_usable (os s)" rcl_api "\<lambda>v. v"
  by (rule goal_serverI [OF prio_inherit_mutex.lockable_axioms rcl_laws])

section \<open>Properties of the goal handle\<close>

text \<open>When no request has a null result, none is ever carried out with one.\<close>

fun result_given :: "('r, 'f) goal_cmd \<Rightarrow> bool" where
  "result_given (Do_abort r) = (r \<noteq> None)"
| "result_given (Do_cancel r) = (r \<noteq> None)"
| "result_given (Do_succeed r) = (r \<noteq> None)"
| "result_given _ = True"

lemma fst_bindp_ret: "fst (bindp m (\<lambda>_. ret x) s) = map_outcome (\<lambda>_. x) (fst (m s))"
  by (cases "m s"; cases "fst (m s)") (simp_all add: bindp_simps)

lemma snd_do_run [simp]: "snd (bindp (spec_run failure) (\<lambda>_. ret x) p) = snd (spec_run failure p)"
  by (simp add: snd_bindp split: outcome.split)

lemma caught_defined: "caught (Throw e) \<noteq> Undefined"
  by (cases e) simp_all

lemma spec_run_given:
  assumes "pending p \<longrightarrow> sp_result p \<noteq> None"
  shows "fst (spec_run failure p) \<noteq> Undefined"
    and "pending (snd (spec_run failure p)) \<longrightarrow> sp_result (snd (spec_run failure p)) \<noteq> None"
  using assms by (auto simp: spec_run_def spec_finish_def spec_end_def spec_publish_def pending_def
      caught_defined split: option.splits prod.splits if_splits)

lemma map_outcome_undefined [simp]: "(map_outcome f out = Undefined) = (out = Undefined)"
  by (cases out) simp_all

lemma spec_goal_given:
  assumes "result_given c" "pending p \<longrightarrow> sp_result p \<noteq> None"
  shows "fst (spec_goal c failure p) \<noteq> Undefined \<and>
    (pending (snd (spec_goal c failure p)) \<longrightarrow> sp_result (snd (spec_goal c failure p)) \<noteq> None)"
proof (cases "c = Do_run")
  case True
  with spec_run_given [OF assms(2)] show ?thesis by (simp add: fst_bindp_ret)
next
  case False
  with assms show ?thesis
    by (cases c) (auto simp: pending_def split: prod.split option.split)
qed

lemma spec_goals_given:
  "(\<And>x. x \<in> set xs \<Longrightarrow> result_given (snd (fst x))) \<Longrightarrow> pending p \<longrightarrow> sp_result p \<noteq> None \<Longrightarrow>
     Undefined \<notin> set (fst (spec_goals xs p))"
proof (induction xs arbitrary: p)
  case Nil
  then show ?case by simp
next
  case (Cons x xs)
  obtain t c failure where x: "x = ((t, c), failure)" by (metis prod.collapse)
  have "result_given c" using Cons.prems(1) [of x] by (simp add: x)
  note spec_goal_given [OF this Cons.prems(2), of failure]
  with Cons.IH [of "snd (spec_goal c failure p)"] Cons.prems(1) show ?case
    by (auto simp: x case_prod_unfold)
qed

lemma agreement:
  assumes "lockable M holder usable" "goal_laws api view" "handle_ok holder usable view h"
  shows "\<exists>fs. length fs = length cs \<and> set fs \<subseteq> publish_failures api view \<and>
    fst (exec_goals M api cs h) = fst (spec_goals (zip cs fs) (goal_abs view h)) \<and>
    (Undefined \<notin> set (fst (exec_goals M api cs h)) \<longrightarrow>
      goal_abs view (snd (exec_goals M api cs h)) = snd (spec_goals (zip cs fs) (goal_abs view h)) \<and>
      handle_ok holder usable view (snd (exec_goals M api cs h))) \<and>
    (\<not> pending (goal_abs view h) \<and> (\<forall>(t, c) \<in> set cs. result_given c) \<longrightarrow>
      Undefined \<notin> set (fst (exec_goals M api cs h)))"
proof -
  obtain fs where fs: "goal_server.agrees M holder usable api view cs fs h"
    using goal_server.exec_goals_refines [OF goal_serverI [OF assms(1,2)] assms(3)] by blast
  have "Undefined \<notin> set (fst (spec_goals (zip cs fs) (goal_abs view h)))"
    if "\<not> pending (goal_abs view h)" "\<forall>(t, c) \<in> set cs. result_given c"
    by (rule spec_goals_given) (use that in \<open>fastforce dest: set_zip_leftD\<close>)+
  with fs show ?thesis
    unfolding goal_server.agrees_def [OF goal_serverI [OF assms(1,2)]] by auto
qed

lemma agreement_of:
  assumes "lockable M holder usable" "goal_laws api view" "handle_ok holder usable view h"
    and "exec_goals M api cs h = (rs, h')"
  obtains fs where "length fs = length cs" "set fs \<subseteq> publish_failures api view"
    "rs = fst (spec_goals (zip cs fs) (goal_abs view h))"
    "Undefined \<notin> set rs \<longrightarrow> goal_abs view h' = snd (spec_goals (zip cs fs) (goal_abs view h))"
proof -
  obtain fs where "length fs = length cs" "set fs \<subseteq> publish_failures api view"
    "rs = fst (spec_goals (zip cs fs) (goal_abs view h))"
    "Undefined \<notin> set rs \<longrightarrow> goal_abs view h' = snd (spec_goals (zip cs fs) (goal_abs view h))"
    using agreement [OF assms(1-3), of cs] unfolding assms(4) fst_conv snd_conv by blast
  then show thesis by (rule that)
qed

text \<open>
  C5. The handle refines its specification: for any sequence of calls by any threads, one at a
  time, and of cancel requests by clients, and however the calls of \<^verbatim>\<open>publish_feedback\<close> fail, every
  call returns or throws what the specification says, never blocks and frees the mutex, and
  no error of rcl leaves \<^verbatim>\<open>runNonRealtime\<close>; flags, results, feedback and the goal are as specified,
  and at most one end is requested at any time. The one undefined behaviour is the specified one,
  an end carried out with a null result, and there is none when every request has a result.
\<close>

theorem goal_refines_spec:
  assumes "lockable M holder usable" "goal_laws api view" "handle_ok holder usable view h"
  shows "\<exists>fs. length fs = length cs \<and> set fs \<subseteq> publish_failures api view \<and>
    fst (exec_goals M api cs h) = fst (spec_goals (zip cs fs) (goal_abs view h)) \<and>
    (Undefined \<notin> set (fst (exec_goals M api cs h)) \<longrightarrow>
      goal_abs view (snd (exec_goals M api cs h)) = snd (spec_goals (zip cs fs) (goal_abs view h)) \<and>
      handle_ok holder usable view (snd (exec_goals M api cs h))) \<and>
    (\<not> pending (goal_abs view h) \<and> (\<forall>(t, c) \<in> set cs. result_given c) \<longrightarrow>
      Undefined \<notin> set (fst (exec_goals M api cs h)))"
  by (rule agreement [OF assms])

definition new_view :: "('r, 'f) goal_view" where
  "new_view = \<lparr>gstate = ACCEPTED, sent = [], ended = []\<rparr>"

definition new_handle :: "(pm_state mstate, (int, int) goal_view, int, int) goal_handle" where
  "new_handle = goal_ctor (mstate_of Free) (Some new_view) None 0 None 7 0 (\<lambda>_. 0)"

lemma new_handle_ok: "handle_ok (\<lambda>s. pm_holder (os s)) (\<lambda>s. pm_usable (os s)) (\<lambda>v. v) new_handle"
  by (simp add: handle_ok_def new_handle_def goal_ctor_def at_most_one_def goal_abs_def)

lemma new_handle_abs: "goal_abs (\<lambda>v. v) new_handle =
    \<lparr>sp_abort = False, sp_cancel = False, sp_succeed = False, sp_execute = False, sp_result = None,
     sp_feedback = None, sp_pre = 7, sp_messages = (\<lambda>_. 0)(7 := 0), sp_goal = Some new_view\<rparr>"
  by (simp add: goal_abs_def new_handle_def goal_ctor_def)

abbreviation gh_ops :: "pm_state mstate mutex_ops" where
  "gh_ops \<equiv> detail_mutex (posix_api ERRORCHECK)"

lemmas spec_defs = spec_run_def spec_start_def spec_finish_def spec_end_def spec_publish_def end_goal_def
  pending_def client_cancel_def new_view_def

text \<open>On \<open>rcl_api\<close> no \<^verbatim>\<open>publish_feedback\<close> of a run fails.\<close>

lemma rcl_failures: "publish_failures rcl_api (\<lambda>v. v) = {None}"
  by (auto simp: publish_failures_def rcl_api_failing_def)

lemma no_failures: "length fs = n \<Longrightarrow> set fs \<subseteq> {None} \<Longrightarrow> fs = replicate n None"
  by (induction fs arbitrary: n) auto

definition demo_calls :: "(tid \<times> (int, int) goal_cmd) list" where
  "demo_calls = [(1, Do_execute), (2, Do_run), (1, Do_try_feedback (\<lambda>m. (m + 4, None))), (2, Do_run),
     (1, Do_succeed (Some 9)), (1, Do_abort (Some 8)), (2, Do_run)]"

lemma demo_spec:
  assumes "length fs = length demo_calls" "set fs \<subseteq> {None}"
  shows "fst (spec_goals (zip demo_calls fs) (goal_abs (\<lambda>v. v) new_handle)) = replicate 7 (Return True) \<and>
    sp_goal (snd (spec_goals (zip demo_calls fs) (goal_abs (\<lambda>v. v) new_handle))) =
      Some \<lparr>gstate = SUCCEEDED, sent = [4], ended = [(SUCCEEDED, 9)]\<rparr>"
proof -
  have "fs = [None, None, None, None, None, None, None]"
    using no_failures [OF assms] by (simp add: demo_calls_def numeral_eq_Suc)
  then show ?thesis by (simp add: demo_calls_def new_handle_abs spec_defs bindp_def numeral_eq_Suc)
qed

theorem goal_refines_spec_witness:
  "\<exists>h. exec_goals gh_ops rcl_api demo_calls new_handle = (replicate 7 (Return True), h) \<and>
    map_option sent (gh h) = Some [4] \<and> map_option ended (gh h) = Some [(SUCCEEDED, 9)]"
proof -
  obtain rs h where e: "exec_goals gh_ops rcl_api demo_calls new_handle = (rs, h)" by fastforce
  have p: "\<not> pending (goal_abs (\<lambda>v. v) new_handle)" by (simp add: new_handle_abs pending_def)
  have c: "\<forall>(t, c) \<in> set demo_calls. result_given c" by (simp add: demo_calls_def)
  obtain fs where fs: "length fs = length demo_calls" "set fs \<subseteq> {None}"
      "rs = fst (spec_goals (zip demo_calls fs) (goal_abs (\<lambda>v. v) new_handle))"
      "goal_abs (\<lambda>v. v) h = snd (spec_goals (zip demo_calls fs) (goal_abs (\<lambda>v. v) new_handle))"
    using goal_refines_spec [OF prio_inherit_mutex.lockable_axioms rcl_laws new_handle_ok, of demo_calls None] e p c
    unfolding rcl_failures by auto
  have "sp_goal (goal_abs (\<lambda>v. v) h) = Some \<lparr>gstate = SUCCEEDED, sent = [4], ended = [(SUCCEEDED, 9)]\<rparr>"
    using demo_spec [OF fs(1,2)] fs(4) by simp
  then have "gh h = Some \<lparr>gstate = SUCCEEDED, sent = [4], ended = [(SUCCEEDED, 9)]\<rparr>"
    by (simp add: goal_abs_def)
  then show ?thesis using demo_spec [OF fs(1,2)] fs(3) e by simp
qed

fun requests :: "goal_state \<Rightarrow> 'r \<Rightarrow> ('r, 'f) goal_cmd \<Rightarrow> bool" where
  "requests SUCCEEDED r (Do_succeed r') = (r' = Some r)"
| "requests CANCELED r (Do_cancel r') = (r' = Some r)"
| "requests ABORTED r (Do_abort r') = (r' = Some r)"
| "requests _ r c = False"

text \<open>The calls made so far account for the pending request and for the end of the goal.\<close>

definition flags_ok :: "('r, 'f) goal_cmd set \<Rightarrow> ('r, 'f) goal_spec \<Rightarrow> bool" where
  "flags_ok C p \<longleftrightarrow>
     (sp_succeed p \<longrightarrow> Do_succeed (sp_result p) \<in> C) \<and> (sp_cancel p \<longrightarrow> Do_cancel (sp_result p) \<in> C) \<and>
     (sp_abort p \<longrightarrow> Do_abort (sp_result p) \<in> C)"

definition end_ok :: "('r, 'f) goal_cmd set \<Rightarrow> ('r, 'f) goal_view \<Rightarrow> bool" where
  "end_ok C v \<longleftrightarrow>
     (if terminal (gstate v) then \<exists>r. ended v = [(gstate v, r)] \<and> (\<exists>c\<in>C. requests (gstate v) r c)
      else ended v = [])"

definition goal_ok :: "('r, 'f) goal_cmd set \<Rightarrow> ('r, 'f) goal_spec \<Rightarrow> bool" where
  "goal_ok C p \<longleftrightarrow> flags_ok C p \<and> (\<forall>v. sp_goal p = Some v \<longrightarrow> end_ok C v)"

lemma end_ok_mono: "end_ok C v \<Longrightarrow> C \<subseteq> D \<Longrightarrow> end_ok D v"
  unfolding end_ok_def by (cases "terminal (gstate v)") auto

lemma goal_ok_mono: "goal_ok C p \<Longrightarrow> C \<subseteq> D \<Longrightarrow> goal_ok D p"
  unfolding goal_ok_def flags_ok_def by (blast intro: end_ok_mono)

lemma end_ok_views:
  "end_ok C v \<Longrightarrow> end_ok C (spec_start p v)"
  "end_ok C v \<Longrightarrow> end_ok C (snd (spec_publish failure p v))"
  "end_ok C v \<Longrightarrow> end_ok C (client_cancel v)"
  by (auto simp: end_ok_def spec_start_def spec_publish_def client_cancel_def split: option.splits if_splits)

lemma end_ok_end:
  "end_ok C v \<Longrightarrow> \<not> terminal (gstate v) \<Longrightarrow> terminal st \<Longrightarrow> requests st r c \<Longrightarrow> c \<in> C \<Longrightarrow>
     end_ok C (end_goal st r v)"
  by (auto simp: end_ok_def end_goal_def)

lemma goal_ok_end:
  assumes "goal_ok C p" "end_ok C v" "\<not> terminal (gstate v)" "terminal st"
    and "\<And>r. sp_result p = Some r \<Longrightarrow> \<exists>c\<in>C. requests st r c"
  shows "goal_ok C (snd (spec_end st p v))"
  using assms end_ok_end [OF assms(2-4)]
  by (auto simp: spec_end_def goal_ok_def flags_ok_def split: option.split)

lemma goal_ok_finish:
  assumes "goal_ok C p" "end_ok C v"
  shows "goal_ok C (snd (spec_finish failure p v))"
proof -
  have f: "flags_ok C p" using assms(1) by (simp add: goal_ok_def)
  have "goal_ok C (snd (spec_end ABORTED (p\<lparr>sp_abort := False\<rparr>) v))" if "sp_abort p" "gstate v = EXECUTING"
    using that f assms by (intro goal_ok_end) (auto simp: flags_ok_def goal_ok_def intro!: bexI)
  moreover have "goal_ok C (snd (spec_end CANCELED (p\<lparr>sp_cancel := False\<rparr>) v))" if "sp_cancel p" "gstate v = CANCELING"
    using that f assms by (intro goal_ok_end) (auto simp: flags_ok_def goal_ok_def intro!: bexI)
  moreover have "goal_ok C (snd (spec_end SUCCEEDED (p\<lparr>sp_succeed := False\<rparr>) v))" if "sp_succeed p" "gstate v = EXECUTING"
    using that f assms by (intro goal_ok_end) (auto simp: flags_ok_def goal_ok_def intro!: bexI)
  moreover have "goal_ok C (p\<lparr>sp_goal := Some w\<rparr>)" if "end_ok C w" for w
    using that f by (simp add: goal_ok_def flags_ok_def)
  ultimately show ?thesis
    using end_ok_views(2) [OF assms(2), of failure p] assms(2)
    by (auto simp: spec_finish_def split: prod.split)
qed

lemma goal_ok_run: "goal_ok C p \<Longrightarrow> goal_ok C (snd (spec_run failure p))"
proof (cases "sp_goal p")
  case (Some v)
  assume ok: "goal_ok C p"
  then have "end_ok C (spec_start p v)" using Some end_ok_views(1) by (auto simp: goal_ok_def)
  from goal_ok_finish [OF ok this] show ?thesis by (simp add: spec_run_def Some)
qed (simp add: spec_run_def)

lemma goal_ok_step: "goal_ok C p \<Longrightarrow> goal_ok (insert c C) (snd (spec_goal c failure p))"
proof -
  assume ok: "goal_ok C p"
  note mono = goal_ok_mono [OF ok, of "insert c C"]
  show ?thesis
  proof (cases c)
    case Do_run
    with goal_ok_run [OF mono] show ?thesis by auto
  next
    case Client_cancel
    with mono end_ok_views(3) show ?thesis by (auto simp: goal_ok_def flags_ok_def)
  next
    case (Do_try_feedback f)
    with mono show ?thesis by (auto simp: goal_ok_def flags_ok_def split: prod.split option.split)
  qed (use mono in \<open>auto simp: goal_ok_def flags_ok_def pending_def\<close>)
qed

lemma goal_ok_steps: "goal_ok C p \<Longrightarrow> goal_ok (C \<union> snd ` fst ` set xs) (snd (spec_goals xs p))"
proof (induction xs arbitrary: C p)
  case Nil
  then show ?case by simp
next
  case (Cons x xs)
  obtain t c failure where x: "x = ((t, c), failure)" by (metis prod.collapse)
  let ?D = "insert c C" and ?p = "snd (spec_goal c failure p)"
  have "goal_ok ?D ?p" by (rule goal_ok_step [OF Cons.prems])
  from goal_ok_mono [OF this, of "?D \<union> snd ` fst ` set xs"] Cons.IH [OF this] show ?case
    by (auto simp: x case_prod_unfold)
qed

text \<open>
  C30. A goal ends at most once, and as requested: starting from a handle without requests on a goal
  that has not ended, after any such sequence without undefined behaviour (which needs a request
  with a null result) the goal is in a final state exactly if one end was announced, it is the
  state announced, and the call that requests this end with this result is in the sequence.
\<close>

theorem goal_ends_once:
  assumes "lockable M holder usable" "goal_laws api view" "handle_ok holder usable view h"
    and "\<not> pending (goal_abs view h)" "gh h = Some g" "\<not> terminal (gstate (view g))" "ended (view g) = []"
    and "exec_goals M api cs h = (rs, h')" "Undefined \<notin> set rs \<or> (\<forall>(t, c) \<in> set cs. result_given c)"
    and "gh h' = Some g'"
  shows "if terminal (gstate (view g'))
    then \<exists>r. ended (view g') = [(gstate (view g'), r)] \<and>
      (\<exists>c\<in>snd ` set cs. requests (gstate (view g')) r c)
    else ended (view g') = []"
proof -
  obtain fs where "goal_abs view h' = snd (spec_goals (zip cs fs) (goal_abs view h))"
    using agreement [OF assms(1-3), of cs] assms(4,8,9) by (metis fst_conv snd_conv)
  note fs = this
  have "goal_ok {} (goal_abs view h)"
    using assms(4-7) by (simp add: goal_ok_def flags_ok_def end_ok_def pending_def goal_abs_def)
  from goal_ok_steps [OF this, of "zip cs fs"]
  have "goal_ok (snd ` set cs) (goal_abs view h')"
    unfolding fs by (rule goal_ok_mono) (force dest: set_zip_leftD)
  moreover have "sp_goal (goal_abs view h') = Some (view g')" using assms(10) by (simp add: goal_abs_def)
  ultimately have "end_ok (snd ` set cs) (view g')" by (simp add: goal_ok_def)
  then show ?thesis by (simp add: end_ok_def)
qed

theorem goal_ends_once_witness:
  "\<exists>h v. exec_goals gh_ops rcl_api demo_calls new_handle = (replicate 7 (Return True), h) \<and>
    gh h = Some v \<and> gstate v = SUCCEEDED \<and> (\<exists>r. ended v = [(SUCCEEDED, r)] \<and> Do_succeed (Some r) \<in> snd ` set demo_calls)"
proof -
  obtain rs h where e: "exec_goals gh_ops rcl_api demo_calls new_handle = (rs, h)" by fastforce
  have p: "\<not> pending (goal_abs (\<lambda>v. v) new_handle)" by (simp add: new_handle_abs pending_def)
  have c: "\<forall>(t, c) \<in> set demo_calls. result_given c" by (simp add: demo_calls_def)
  obtain fs where fs: "length fs = length demo_calls" "set fs \<subseteq> {None}"
      "rs = fst (spec_goals (zip demo_calls fs) (goal_abs (\<lambda>v. v) new_handle))"
      "goal_abs (\<lambda>v. v) h = snd (spec_goals (zip demo_calls fs) (goal_abs (\<lambda>v. v) new_handle))"
    using agreement [OF prio_inherit_mutex.lockable_axioms rcl_laws new_handle_ok, of demo_calls None] e p c
    unfolding rcl_failures by auto
  have "sp_goal (goal_abs (\<lambda>v. v) h) = Some \<lparr>gstate = SUCCEEDED, sent = [4], ended = [(SUCCEEDED, 9)]\<rparr>"
    using demo_spec [OF fs(1,2)] fs(4) by simp
  then have gh: "gh h = Some \<lparr>gstate = SUCCEEDED, sent = [4], ended = [(SUCCEEDED, 9)]\<rparr>"
    by (simp add: goal_abs_def)
  have "gh new_handle = Some new_view" by (simp add: new_handle_def goal_ctor_def)
  from goal_ends_once [OF prio_inherit_mutex.lockable_axioms rcl_laws new_handle_ok p this _ _ e _ gh] c
  have "\<exists>c\<in>snd ` set demo_calls. requests SUCCEEDED 9 c" by (simp add: new_view_def)
  then have "Do_succeed (Some 9) \<in> snd ` set demo_calls"
    by (metis goal_cmd.exhaust requests.simps)
  with gh e fs(3) demo_spec [OF fs(1,2)] show ?thesis by auto
qed

text \<open>
  Requests are carried out: on an executing goal without a pending request, \<^verbatim>\<open>setSucceeded\<close> or
  \<^verbatim>\<open>setAborted\<close> followed by \<^verbatim>\<open>runNonRealtime\<close> ends the goal accordingly with the given result, and
  on a goal that is being cancelled \<^verbatim>\<open>setCanceled\<close> does; the request is cleared. With the null
  result that is the default argument of these functions, the run is undefined behaviour.
\<close>

lemma spec_requests:
  assumes "sp_execute p" "\<not> pending p" "sp_goal p = Some v"
    and "gstate v = EXECUTING \<and> (st, c) \<in> {(SUCCEEDED, Do_succeed r), (ABORTED, Do_abort r)} \<or>
      gstate v = CANCELING \<and> (st, c) = (CANCELED, Do_cancel r)"
  shows "r = None \<Longrightarrow> fst (spec_goals [((t, c), f1), ((u, Do_run), f2)] p) = [Return True, Undefined]"
    and "r = Some x \<Longrightarrow> spec_goals [((t, c), f1), ((u, Do_run), f2)] p =
      ([Return True, Return True], p\<lparr>sp_result := r, sp_goal := Some (end_goal st x v)\<rparr>)"
  using assms
  by (cases p; auto simp: spec_run_def spec_start_def spec_finish_def spec_end_def pending_def bindp_def)+

theorem goal_request_fulfilled:
  assumes "lockable M holder usable" "goal_laws api view" "handle_ok holder usable view h"
    and "req_execute h" "\<not> pending (goal_abs view h)" "gh h = Some g"
    and "gstate (view g) = EXECUTING \<and> (st, c) \<in> {(SUCCEEDED, Do_succeed r), (ABORTED, Do_abort r)} \<or>
      gstate (view g) = CANCELING \<and> (st, c) = (CANCELED, Do_cancel r)"
    and "exec_goals M api [(t, c), (u, Do_run)] h = (rs, h')"
  shows "case r of None \<Rightarrow> rs = [Return True, Undefined]
    | Some x \<Rightarrow> rs = [Return True, Return True] \<and>
        goal_abs view h' = (goal_abs view h)\<lparr>sp_result := r, sp_goal := Some (end_goal st x (view g))\<rparr>"
proof -
  let ?cs = "[(t, c), (u, Do_run)]" and ?p = "goal_abs view h"
  have p: "sp_execute ?p" "\<not> pending ?p" "sp_goal ?p = Some (view g)"
    using assms(4-6) by (simp_all add: goal_abs_def)
  obtain fs where fs: "length fs = 2" "rs = fst (spec_goals (zip ?cs fs) ?p)"
      "Undefined \<notin> set rs \<longrightarrow> goal_abs view h' = snd (spec_goals (zip ?cs fs) ?p)"
    using agreement_of [OF assms(1-3,8)] by (metis length_Cons list.size(3) numeral_2_eq_2)
  obtain f1 f2 where "fs = [f1, f2]"
    using fs(1) by (auto simp: numeral_2_eq_2 length_Suc_conv)
  with spec_requests [OF p assms(7), where t = t and ?f1.0 = f1 and u = u and ?f2.0 = f2] fs(2,3) show ?thesis
    by (cases r) (simp_all del: spec_goals.simps)
qed

definition busy_handle :: "goal_state \<Rightarrow> (pm_state mstate, (int, int) goal_view, int, int) goal_handle" where
  "busy_handle st = new_handle\<lparr>req_execute := True, gh := Some (new_view\<lparr>gstate := st\<rparr>)\<rparr>"

lemma busy_handle_ok: "handle_ok (\<lambda>s. pm_holder (os s)) (\<lambda>s. pm_usable (os s)) (\<lambda>v. v) (busy_handle st)"
  by (simp add: handle_ok_def busy_handle_def new_handle_def goal_ctor_def at_most_one_def goal_abs_def)

theorem goal_request_fulfilled_witness:
  "fst (exec_goals gh_ops rcl_api [(1, Do_succeed None), (2, Do_run)] (busy_handle EXECUTING)) =
     [Return True, Undefined]"
proof -
  obtain rs h where e: "exec_goals gh_ops rcl_api [(1, Do_succeed None), (2, Do_run)] (busy_handle EXECUTING) = (rs, h)"
    by fastforce
  have "req_execute (busy_handle EXECUTING)" "\<not> pending (goal_abs (\<lambda>v. v) (busy_handle EXECUTING))"
      "gh (busy_handle EXECUTING) = Some (new_view\<lparr>gstate := EXECUTING\<rparr>)"
    by (simp_all add: busy_handle_def new_handle_def goal_ctor_def goal_abs_def pending_def)
  from goal_request_fulfilled [OF prio_inherit_mutex.lockable_axioms rcl_laws busy_handle_ok this _ e, of SUCCEEDED None]
  show ?thesis unfolding e by simp
qed

definition blocked :: "('r, 'f) goal_spec \<Rightarrow> ('r, 'f) goal_view \<Rightarrow> bool" where
  "blocked p v \<longleftrightarrow> (sp_succeed p \<or> sp_abort p) \<and> at_most_one p \<and> gstate v = CANCELING \<and>
     sp_goal p = Some v"

lemma blocked_step:
  "blocked p v \<Longrightarrow> blocked (snd (spec_goal c failure p)) v \<and> fst (spec_goal c failure p) \<noteq> Undefined"
  by (cases c) (auto simp: blocked_def pending_def at_most_one_def spec_run_def spec_start_def spec_finish_def
      spec_publish_def client_cancel_def fst_bindp_ret split: prod.split option.split)

lemma blocked_steps:
  "blocked p v \<Longrightarrow> blocked (snd (spec_goals xs p)) v \<and> Undefined \<notin> set (fst (spec_goals xs p))"
proof (induction xs arbitrary: p)
  case Nil
  then show ?case by simp
next
  case (Cons x xs)
  obtain t c failure where x: "x = ((t, c), failure)" by (metis prod.collapse)
  from blocked_step [OF Cons.prems, of c failure] Cons.IH [of "snd (spec_goal c failure p)"]
  show ?case by (auto simp: x case_prod_unfold)
qed

text \<open>
  C40. A request that loses a race against the client blocks the goal: once a client's cancel
  request is accepted while \<^verbatim>\<open>setSucceeded\<close> or \<^verbatim>\<open>setAborted\<close> is pending, no sequence of calls of the
  handle ever ends the goal, not even \<^verbatim>\<open>setCanceled\<close>: the run ignores the pending request in this
  state, and the pending request makes the handle ignore every other one.
\<close>

theorem goal_blocked_by_cancel:
  assumes "lockable M holder usable" "goal_laws api view" "handle_ok holder usable view h"
    and "req_succeed h \<or> req_abort h" "gh h = Some g" "gstate (view g) = CANCELING"
  shows "sp_goal (goal_abs view (snd (exec_goals M api cs h))) = Some (view g)"
proof -
  have "blocked (goal_abs view h) (view g)"
    using assms(3-6) by (simp add: blocked_def handle_ok_def goal_abs_def)
  note blocked = blocked_steps [OF this]
  obtain fs where "goal_abs view (snd (exec_goals M api cs h)) = snd (spec_goals (zip cs fs) (goal_abs view h))"
    using agreement [OF assms(1-3), of cs] blocked by metis
  then show ?thesis using blocked by (simp add: blocked_def)
qed

theorem goal_blocked_by_cancel_witness:
  "sp_goal (goal_abs (\<lambda>v. v) (snd (exec_goals gh_ops rcl_api
      [(2, Do_run), (1, Do_cancel (Some 1)), (2, Do_run)]
      ((busy_handle CANCELING)\<lparr>req_succeed := True\<rparr>)))) = Some (new_view\<lparr>gstate := CANCELING\<rparr>)"
proof -
  have ok: "handle_ok (\<lambda>s. pm_holder (os s)) (\<lambda>s. pm_usable (os s)) (\<lambda>v. v)
      ((busy_handle CANCELING)\<lparr>req_succeed := True\<rparr>)"
    by (simp add: handle_ok_def busy_handle_def new_handle_def goal_ctor_def at_most_one_def goal_abs_def)
  show ?thesis
    by (rule goal_blocked_by_cancel [OF prio_inherit_mutex.lockable_axioms rcl_laws ok])
      (simp_all add: busy_handle_def)
qed

lemma spec_republish:
  assumes "\<not> pending p" "sp_feedback p = Some a" "set fs \<subseteq> {None}"
  shows "length fs = n \<Longrightarrow> sp_goal p = Some v \<Longrightarrow> gstate v = EXECUTING \<Longrightarrow>
    spec_goals (zip (replicate n (t, Do_run)) fs) p = (replicate n (Return True),
      p\<lparr>sp_goal := Some (v\<lparr>sent := sent v @ replicate n (sp_messages p a)\<rparr>)\<rparr>)"
  using assms
proof (induction n arbitrary: p v fs)
  case 0
  then show ?case by (cases p) simp
next
  case (Suc n)
  then obtain gs where fs: "fs = None # gs" by (cases fs) auto
  let ?p = "p\<lparr>sp_goal := Some (v\<lparr>sent := sent v @ [sp_messages p a]\<rparr>)\<rparr>"
  have run: "spec_run None p = (Return (), ?p)"
    using Suc.prems
    by (simp add: spec_run_def spec_start_def spec_finish_def spec_publish_def pending_def)
  have "spec_goals (zip (replicate n (t, Do_run)) gs) ?p = (replicate n (Return True),
      ?p\<lparr>sp_goal := Some (v\<lparr>sent := (sent v @ [sp_messages p a]) @ replicate n (sp_messages ?p a)\<rparr>)\<rparr>)"
    using Suc.IH [of gs ?p "v\<lparr>sent := sent v @ [sp_messages p a]\<rparr>"] Suc.prems fs
    by (simp add: pending_def)
  then show ?case by (simp add: fs bindp_simps run)
qed

text \<open>
  Feedback stays set: on an executing goal without a pending request, each \<^verbatim>\<open>runNonRealtime\<close>
  sends the message that was set last once more, so that \<open>n\<close> runs send \<open>n\<close> copies, as long as
  \<^verbatim>\<open>publish_feedback\<close> does not fail.
\<close>

theorem feedback_republished:
  assumes "lockable M holder usable" "goal_laws api view" "handle_ok holder usable view h"
    and "\<not> pending (goal_abs view h)" "gh h = Some g" "gstate (view g) = EXECUTING" "req_feedback h = Some a"
    and "publish_failures api view = {None}"
  shows "sp_goal (goal_abs view (snd (exec_goals M api (replicate n (t, Do_run)) h))) =
    Some ((view g)\<lparr>sent := sent (view g) @ replicate n (feedback_at h a)\<rparr>)"
proof -
  let ?cs = "replicate n (t, Do_run)"
  obtain rs h' where e: "exec_goals M api ?cs h = (rs, h')" by fastforce
  obtain fs where fs: "length fs = n" "set fs \<subseteq> {None}" "rs = fst (spec_goals (zip ?cs fs) (goal_abs view h))"
      "Undefined \<notin> set rs \<longrightarrow> goal_abs view h' = snd (spec_goals (zip ?cs fs) (goal_abs view h))"
    using agreement_of [OF assms(1-3) e] unfolding assms(8) by (metis length_replicate)
  from spec_republish [OF assms(4) _ fs(2,1), of a "view g" t] fs(3,4) assms(5-7)
  show ?thesis by (simp add: e goal_abs_def set_replicate_conv_if split: if_splits)
qed

theorem feedback_republished_witness:
  "sp_goal (goal_abs (\<lambda>v. v) (snd (exec_goals gh_ops rcl_api (replicate 3 (2, Do_run))
      ((busy_handle EXECUTING)\<lparr>req_feedback := Some 7\<rparr>)))) =
   Some (new_view\<lparr>gstate := EXECUTING, sent := [0, 0, 0]\<rparr>)"
proof -
  have ok: "handle_ok (\<lambda>s. pm_holder (os s)) (\<lambda>s. pm_usable (os s)) (\<lambda>v. v)
      ((busy_handle EXECUTING)\<lparr>req_feedback := Some 7\<rparr>)"
    by (simp add: handle_ok_def busy_handle_def new_handle_def goal_ctor_def at_most_one_def goal_abs_def)
  show ?thesis
    using feedback_republished [OF prio_inherit_mutex.lockable_axioms rcl_laws ok,
        of "new_view\<lparr>gstate := EXECUTING\<rparr>" 7 None 3 2] rcl_failures
    by (simp add: busy_handle_def new_handle_def goal_ctor_def goal_abs_def pending_def new_view_def
        numeral_eq_Suc)
qed

section \<open>Two requests at the same time\<close>

text \<open>
  The requests at the granularity of their accesses to shared memory: the four loads of the guard,
  the lock, the two stores, the unlock. A thread that found a load unfavourable returns.
\<close>

datatype request = R_abort | R_cancel | R_succeed

datatype 'r req_pc =
    Req_idle
  | Req_load_execute request "'r option"
  | Req_load_succeed request "'r option"
  | Req_load_abort request "'r option"
  | Req_load_cancel request "'r option"
  | Req_lock request "'r option"
  | Req_store_result request "'r option"
  | Req_store_flag request
  | Req_unlock

record 'r shared_requests =
  r_execute :: bool
  r_flags :: "request \<Rightarrow> bool"
  r_result :: "'r option"
  r_mutex :: "tid std_mutex"
  r_pc :: "tid \<Rightarrow> 'r req_pc"

abbreviation req_at :: "tid \<Rightarrow> 'r req_pc \<Rightarrow> 'r shared_requests \<Rightarrow> 'r shared_requests" where
  "req_at t p s \<equiv> s\<lparr>r_pc := (r_pc s)(t := p)\<rparr>"

inductive request_step :: "'r shared_requests \<Rightarrow> 'r shared_requests \<Rightarrow> bool" where
  req_call: "r_pc s t = Req_idle \<Longrightarrow> request_step s (req_at t (Req_load_execute q r) s)"
| req_execute: "r_pc s t = Req_load_execute q r \<Longrightarrow>
    request_step s (req_at t (if r_execute s then Req_load_succeed q r else Req_idle) s)"
| req_succeed: "r_pc s t = Req_load_succeed q r \<Longrightarrow>
    request_step s (req_at t (if r_flags s R_succeed then Req_idle else Req_load_abort q r) s)"
| req_abort: "r_pc s t = Req_load_abort q r \<Longrightarrow>
    request_step s (req_at t (if r_flags s R_abort then Req_idle else Req_load_cancel q r) s)"
| req_cancel: "r_pc s t = Req_load_cancel q r \<Longrightarrow>
    request_step s (req_at t (if r_flags s R_cancel then Req_idle else Req_lock q r) s)"
| req_lock: "r_pc s t = Req_lock q r \<Longrightarrow> r_mutex s = None \<Longrightarrow>
    request_step s (req_at t (Req_store_result q r) (s\<lparr>r_mutex := Some t\<rparr>))"
| req_result: "r_pc s t = Req_store_result q r \<Longrightarrow>
    request_step s (req_at t (Req_store_flag q) (s\<lparr>r_result := r\<rparr>))"
| req_flag: "r_pc s t = Req_store_flag q \<Longrightarrow>
    request_step s (req_at t Req_unlock (s\<lparr>r_flags := (r_flags s)(q := True)\<rparr>))"
| req_unlock: "r_pc s t = Req_unlock \<Longrightarrow>
    request_step s (req_at t Req_idle (s\<lparr>r_mutex := None\<rparr>))"

definition requests_start :: "'r shared_requests" where
  "requests_start = \<lparr>r_execute = True, r_flags = (\<lambda>_. False), r_result = None, r_mutex = None,
     r_pc = (\<lambda>_. Req_idle)\<rparr>"

text \<open>A run of two threads: both pass the guard, then one after the other raises its flag.\<close>

definition race_one :: "int shared_requests" where
  "race_one = requests_start\<lparr>r_pc := (\<lambda>_. Req_idle)(1 := Req_lock R_abort (Some 1),
     2 := Req_load_execute R_succeed (Some 2))\<rparr>"

definition race_both :: "int shared_requests" where
  "race_both = requests_start\<lparr>r_pc := (\<lambda>_. Req_idle)(1 := Req_lock R_abort (Some 1),
     2 := Req_lock R_succeed (Some 2))\<rparr>"

definition race_first :: "int shared_requests" where
  "race_first = requests_start\<lparr>r_flags := (\<lambda>_. False)(R_abort := True), r_result := Some 1,
     r_pc := (\<lambda>_. Req_idle)(2 := Req_lock R_succeed (Some 2))\<rparr>"

definition race_done :: "int shared_requests" where
  "race_done = requests_start\<lparr>r_flags := (\<lambda>_. False)(R_abort := True, R_succeed := True),
     r_result := Some 2\<rparr>"

lemmas race_defs = requests_start_def race_one_def race_both_def race_first_def race_done_def

lemma race_run1: "steps request_step requests_start race_one"
  apply (rule steps_step, rule req_call [where t = 1 and q = R_abort and r = "Some 1"], simp add: race_defs)
  apply (rule steps_step, rule req_call [where t = 2 and q = R_succeed and r = "Some 2"], simp add: race_defs)
  apply (rule steps_step, rule req_execute [where t = 1 and q = R_abort and r = "Some 1"], simp add: race_defs)
  apply (rule steps_step, rule req_succeed [where t = 1 and q = R_abort and r = "Some 1"], simp add: race_defs)
  apply (rule steps_step, rule req_abort [where t = 1 and q = R_abort and r = "Some 1"], simp add: race_defs)
  apply (rule steps_step, rule req_cancel [where t = 1 and q = R_abort and r = "Some 1"], simp add: race_defs)
  apply (rule steps_eq)
  apply (simp add: race_defs fun_eq_iff)
  done

lemma race_run2: "steps request_step race_one race_both"
  apply (rule steps_step, rule req_execute [where t = 2 and q = R_succeed and r = "Some 2"], simp add: race_defs)
  apply (rule steps_step, rule req_succeed [where t = 2 and q = R_succeed and r = "Some 2"], simp add: race_defs)
  apply (rule steps_step, rule req_abort [where t = 2 and q = R_succeed and r = "Some 2"], simp add: race_defs)
  apply (rule steps_step, rule req_cancel [where t = 2 and q = R_succeed and r = "Some 2"], simp add: race_defs)
  apply (rule steps_eq)
  apply (simp add: race_defs fun_eq_iff)
  done

lemma race_run3: "steps request_step race_both race_first"
  apply (rule steps_step, rule req_lock [where t = 1 and q = R_abort and r = "Some 1"], simp add: race_defs,
        simp add: race_defs)
  apply (rule steps_step, rule req_result [where t = 1 and q = R_abort and r = "Some 1"], simp add: race_defs)
  apply (rule steps_step, rule req_flag [where t = 1 and q = R_abort], simp add: race_defs)
  apply (rule steps_step, rule req_unlock [where t = 1], simp add: race_defs)
  apply (rule steps_eq)
  apply (simp add: race_defs fun_eq_iff)
  done

lemma race_run4: "steps request_step race_first race_done"
  apply (rule steps_step, rule req_lock [where t = 2 and q = R_succeed and r = "Some 2"], simp add: race_defs,
      simp add: race_defs)
  apply (rule steps_step, rule req_result [where t = 2 and q = R_succeed and r = "Some 2"], simp add: race_defs)
  apply (rule steps_step, rule req_flag [where t = 2 and q = R_succeed], simp add: race_defs)
  apply (rule steps_step, rule req_unlock [where t = 2], simp add: race_defs)
  apply (rule steps_eq)
  apply (simp add: race_defs fun_eq_iff)
  done

text \<open>
  The guard is not repeated under the mutex: two threads can both find no request pending and
  then both raise theirs, so that two ends are requested at once and the result belongs to the
  later one only.
\<close>

theorem both_requests_pass:
  "\<exists>s. steps request_step requests_start s \<and> r_flags s R_abort \<and> r_flags s R_succeed \<and>
     r_result s = Some (2 :: int) \<and> r_pc s = (\<lambda>_. Req_idle)"
  by (rule exI [of _ race_done], rule conjI,
      rule steps_trans [OF race_run1 steps_trans [OF race_run2 steps_trans [OF race_run3 race_run4]]])
    (simp add: race_defs)

end
