(* ===== verification/RT_Helpers.thy ===== *)
theory RT_Helpers
  imports RT_Prelude "HOL-Library.Sublist"
begin

text \<open>
  The helpers of \<^verbatim>\<open>realtime_helpers.cpp\<close>, in their Linux branches: detection of a realtime kernel,
  scheduling policies, memory locking, thread affinity and thread names. The operating system is a
  parameter, a record of functions over its state.
\<close>

section \<open>The operating system\<close>

text \<open>
  What the helpers use of it. \<open>realtime_file\<close> is the value read from \<^verbatim>\<open>/sys/kernel/realtime\<close>, if the
  file opens; \<open>uname_version\<close> is \<open>None\<close> when \<^verbatim>\<open>uname\<close> fails; a set of cores is what \<^verbatim>\<open>cpu_set_t\<close>
  holds; the functions of pthread return their error code, the others return -1 and leave it in
  \<^verbatim>\<open>errno\<close>.
\<close>

datatype sched_policy = SCHED_FIFO | SCHED_RR

record ('w, 'h, 'c) os_api =
  realtime_file :: "'w \<Rightarrow> bool option"
  uname_version :: "'w \<Rightarrow> string option \<times> 'w"
  errno :: "'w \<Rightarrow> int"
  os_strerror :: "int \<Rightarrow> string"
  sched_setscheduler :: "sched_policy \<Rightarrow> int \<Rightarrow> 'w \<Rightarrow> int \<times> 'w"
  mlockall :: "'w \<Rightarrow> int \<times> 'w"
  cap_get_proc :: "'w \<Rightarrow> 'c option \<times> 'w"
  cap_set_flag :: "'c \<Rightarrow> 'w \<Rightarrow> int \<times> 'w"
  cap_set_proc :: "'c \<Rightarrow> 'w \<Rightarrow> int \<times> 'w"
  cap_free :: "'c \<Rightarrow> 'w \<Rightarrow> 'w"
  nprocessors_online :: "'w \<Rightarrow> int"
  pthread_self :: "'w \<Rightarrow> 'h"
  pthread_setaffinity :: "'h \<Rightarrow> nat set \<Rightarrow> 'w \<Rightarrow> int \<times> 'w"
  pthread_setname :: "'h \<Rightarrow> string \<Rightarrow> 'w \<Rightarrow> int \<times> 'w"
  write_cerr :: "string \<Rightarrow> 'w \<Rightarrow> 'w"

definition E_PERM :: int where "E_PERM = 1"
definition E_SRCH :: int where "E_SRCH = 3"
definition E_AGAIN :: int where "E_AGAIN = 11"
definition E_NOMEM :: int where "E_NOMEM = 12"
definition E_FAULT :: int where "E_FAULT = 14"
definition E_INVAL :: int where "E_INVAL = 22"

lemmas e_defs = E_PERM_def E_SRCH_def E_AGAIN_def E_NOMEM_def E_FAULT_def E_INVAL_def

section \<open>Kernel, scheduler, memory\<close>

text \<open>\<^verbatim>\<open>s.find(pat) != npos\<close>.\<close>

fun contains :: "string \<Rightarrow> string \<Rightarrow> bool" where
  "contains pat [] = (pat = [])"
| "contains pat (c # cs) = (prefix pat (c # cs) \<or> contains pat cs)"

definition has_realtime_kernel :: "('w, 'h, 'c) os_api \<Rightarrow> 'w \<Rightarrow> bool \<times> 'w" where
  "has_realtime_kernel api w =
     (let has_realtime = (case realtime_file api w of None \<Rightarrow> False | Some b \<Rightarrow> b) in
      if \<not> has_realtime
      then (case uname_version api w of
              (None, w') \<Rightarrow> (False, write_cerr api
                 (''Error: Could not get kernel information : '' @ os_strerror api (errno api w')) w')
            | (Some version, w') \<Rightarrow> (contains ''PREEMPT_RT'' version, w'))
      else (has_realtime, w))"

definition configure_sched_fifo :: "('w, 'h, 'c) os_api \<Rightarrow> int \<Rightarrow> 'w \<Rightarrow> bool \<times> 'w" where
  "configure_sched_fifo api priority w =
     (case sched_setscheduler api SCHED_FIFO priority w of (r, w') \<Rightarrow> (r = 0, w'))"

definition configure_sched_rr :: "('w, 'h, 'c) os_api \<Rightarrow> int \<Rightarrow> 'w \<Rightarrow> bool \<times> 'w" where
  "configure_sched_rr api priority w =
     (case sched_setscheduler api SCHED_RR priority w of (r, w') \<Rightarrow> (r = 0, w'))"

definition is_capable :: "('w, 'h, 'c) os_api \<Rightarrow> 'w \<Rightarrow> bool \<times> 'w" where
  "is_capable api w =
     (case cap_get_proc api w of
        (None, w1) \<Rightarrow> (False, w1)
      | (Some caps, w1) \<Rightarrow>
         (case cap_set_flag api caps w1 of (r, w2) \<Rightarrow>
           if r = -1 then (False, cap_free api caps w2)
           else (case cap_set_proc api caps w2 of (r', w3) \<Rightarrow> (r' = 0, cap_free api caps w3))))"

definition lock_memory :: "('w, 'h, 'c) os_api \<Rightarrow> 'w \<Rightarrow> (bool \<times> string) \<times> 'w" where
  "lock_memory api w =
     (case mlockall api w of (r, w1) \<Rightarrow>
       if r = -1
       then (case is_capable api w1 of (capable, w2) \<Rightarrow>
         let message =
           (if \<not> capable then ''No proper privileges to lock the memory!''
            else if errno api w2 = E_NOMEM then
              ''The caller had a nonzero RLIMIT_MEMLOCK soft resource limit, but tried to lock more '' @
              ''memory than the limit permitted. Try running the application with privileges!''
            else if errno api w2 = E_PERM then
              ''The caller is not privileged, but needs privilege to perform the requested operation.''
            else if errno api w2 = E_INVAL then
              ''The result of the addition start+len was less than start (e.g., the addition may have '' @
              ''resulted in an overflow).''
            else if errno api w2 = E_AGAIN then
              ''Some or all of the specified address range could not be locked.''
            else ''Unknown error occurred!'')
         in ((False, message), w2))
       else ((True, ''Memory locked successfully!''), w1))"

section \<open>Thread affinity\<close>

text \<open>\<^verbatim>\<open>CPU_SET\<close> has no effect outside the \<^verbatim>\<open>CPU_SETSIZE\<close> cores a \<^verbatim>\<open>cpu_set_t\<close> has room for.\<close>

definition CPU_SETSIZE :: int where "CPU_SETSIZE = 1024"

definition CPU_SET :: "int \<Rightarrow> nat set \<Rightarrow> nat set" where
  "CPU_SET c s = (if 0 \<le> c \<and> c < CPU_SETSIZE then insert (nat c) s else s)"

definition get_number_of_available_processors :: "('w, 'h, 'c) os_api \<Rightarrow> 'w \<Rightarrow> int" where
  "get_number_of_available_processors api w = nprocessors_online api w"

text \<open>The two loops: all cores, and the given ones until the first that is out of range.\<close>

function set_all :: "int \<Rightarrow> int \<Rightarrow> nat set \<Rightarrow> nat set" where
  "set_all i n s = (if i < n then set_all (i + 1) n (CPU_SET i s) else s)"
  by auto
termination by (relation "measure (\<lambda>(i, n, s). nat (n - i))") auto

declare set_all.simps [simp del]

fun set_given :: "int \<Rightarrow> int list \<Rightarrow> nat set \<Rightarrow> bool \<times> nat set" where
  "set_given n [] s = (True, s)"
| "set_given n (core # cores) s =
     (if core < 0 \<or> n \<le> core then (False, s) else set_given n cores (CPU_SET core s))"

definition set_affinity_result_message :: "('w, 'h, 'c) os_api \<Rightarrow> int \<Rightarrow> 'w \<Rightarrow> bool \<times> string" where
  "set_affinity_result_message api result w =
     (if result = 0 then (True, ''Thread affinity set successfully!'')
      else (False,
        if errno api w = E_FAULT then ''Call of sched_setaffinity with invalid cpuset!''
        else if errno api w = E_INVAL then ''Call of sched_setaffinity with an invalid cpu core!''
        else if errno api w = E_SRCH then
          ''Call of sched_setaffinity with a thread id/process id that is invalid or not found!''
        else if errno api w = E_PERM then ''Call of sched_setaffinity with insufficient privileges!''
        else ''Unknown error code: '' @ os_strerror api (errno api w)))"

fun core_numbers :: "int list \<Rightarrow> string" where
  "core_numbers [] = []"
| "core_numbers (c # cs) = to_string c @ '' '' @ core_numbers cs"

definition invalid_cores_message :: "int list \<Rightarrow> int \<Rightarrow> string" where
  "invalid_cores_message cores n =
     ''Invalid core numbers : ['' @ [CHR 0x27] @ core_numbers cores @ [CHR 0x27] @
     ''] passed! The system has '' @ to_string n @
     '' cores. Parsed core number should be between 0 and '' @ to_string (n - 1)"

definition set_thread_affinity ::
    "('w, 'h, 'c) os_api \<Rightarrow> 'h \<Rightarrow> int list \<Rightarrow> 'w \<Rightarrow> (bool \<times> string) \<times> 'w" where
  "set_thread_affinity api thread cores w =
     (let number_of_cores = get_number_of_available_processors api w;
          (valid_cpu_set, cpuset) =
            (if cores = [] then (True, set_all 0 number_of_cores {})
             else set_given number_of_cores cores {})
      in if valid_cpu_set
         then (case pthread_setaffinity api thread cpuset w of (r, w') \<Rightarrow>
                (set_affinity_result_message api r w', w'))
         else ((False, invalid_cores_message cores number_of_cores), w))"

definition set_thread_affinity_core ::
    "('w, 'h, 'c) os_api \<Rightarrow> 'h \<Rightarrow> int \<Rightarrow> 'w \<Rightarrow> (bool \<times> string) \<times> 'w" where
  "set_thread_affinity_core api thread core w =
     (let affinity_cores = (if core < 0 then [] else [core]) in
      set_thread_affinity api thread affinity_cores w)"

text \<open>The overload for a \<^verbatim>\<open>std::thread\<close>, which has a handle only while it is joinable.\<close>

definition set_std_thread_affinity ::
    "('w, 'h, 'c) os_api \<Rightarrow> 'h option \<Rightarrow> int \<Rightarrow> 'w \<Rightarrow> (bool \<times> string) \<times> 'w" where
  "set_std_thread_affinity api thread core w =
     (case thread of
        None \<Rightarrow> ((False, ''Unable to set the thread affinity, as the thread is not joinable!''), w)
      | Some h \<Rightarrow> set_thread_affinity_core api h core w)"

definition set_current_thread_affinity_core ::
    "('w, 'h, 'c) os_api \<Rightarrow> int \<Rightarrow> 'w \<Rightarrow> (bool \<times> string) \<times> 'w" where
  "set_current_thread_affinity_core api core w =
     set_thread_affinity_core api (pthread_self api w) core w"

definition set_current_thread_affinity ::
    "('w, 'h, 'c) os_api \<Rightarrow> int list \<Rightarrow> 'w \<Rightarrow> (bool \<times> string) \<times> 'w" where
  "set_current_thread_affinity api cores w = set_thread_affinity api (pthread_self api w) cores w"

section \<open>Thread names\<close>

definition set_current_thread_name ::
    "('w, 'h, 'c) os_api \<Rightarrow> string \<Rightarrow> 'w \<Rightarrow> (bool \<times> string) \<times> 'w" where
  "set_current_thread_name api name w =
     (if name = [] then ((False, ''Thread name cannot be empty. This should not happen!''), w)
      else
        let t_name = take 15 name;
            msg = (if length name > 15 then ''Thread name (truncated): '' @ t_name
                   else ''Thread name: '' @ t_name)
        in (case pthread_setname api (pthread_self api w) t_name w of (rc, w') \<Rightarrow>
             if rc = 0 then ((True, msg), w')
             else ((False, ''Failed to set thread name. Error code: '' @ to_string rc), w')))"

section \<open>Properties\<close>

text \<open>An operating system of one process on four cores, for the witnesses.\<close>

record sample_os =
  so_errno :: int
  so_mask :: "nat set"
  so_name :: string
  so_realtime :: "bool option"
  so_version :: "string option"

definition sample_api :: "(sample_os, nat, unit) os_api" where
  "sample_api = \<lparr>realtime_file = so_realtime, uname_version = (\<lambda>w. (so_version w, w)), errno = so_errno,
     os_strerror = (\<lambda>r. ''errno '' @ to_string r), sched_setscheduler = (\<lambda>_ p w. (if 1 \<le> p \<and> p \<le> 99 then 0 else -1, w)),
     mlockall = (\<lambda>w. (-1, w\<lparr>so_errno := E_NOMEM\<rparr>)), cap_get_proc = (\<lambda>w. (None, w)),
     cap_set_flag = (\<lambda>_ w. (0, w)), cap_set_proc = (\<lambda>_ w. (0, w)), cap_free = (\<lambda>_ w. w),
     nprocessors_online = (\<lambda>_. 4), pthread_self = (\<lambda>_. 1),
     pthread_setaffinity = (\<lambda>h m w. if h \<noteq> 1 then (E_SRCH, w) else if m = {} then (E_INVAL, w) else (0, w\<lparr>so_mask := m\<rparr>)),
     pthread_setname = (\<lambda>h n w. (0, w\<lparr>so_name := n\<rparr>)), write_cerr = (\<lambda>_ w. w)\<rparr>"

definition sample_world :: sample_os where
  "sample_world = \<lparr>so_errno = 0, so_mask = {}, so_name = '''', so_realtime = Some False,
     so_version = Some ''#1 SMP PREEMPT_RT''\<rparr>"

lemma set_all_result:
  "0 \<le> i \<Longrightarrow> set_all i n s = s \<union> {c. i \<le> int c \<and> int c < n \<and> int c < CPU_SETSIZE}"
proof (induction i n s rule: set_all.induct)
  case (1 i n s)
  show ?case
  proof (cases "i < n")
    case True
    have "set_all i n s = CPU_SET i s \<union> {c. i + 1 \<le> int c \<and> int c < n \<and> int c < CPU_SETSIZE}"
      using 1 True by (simp add: set_all.simps [of i n s])
    also have "\<dots> = s \<union> {c. i \<le> int c \<and> int c < n \<and> int c < CPU_SETSIZE}"
      using True 1(2) by (auto simp: CPU_SET_def)
    finally show ?thesis .
  next
    case False
    then show ?thesis by (auto simp: set_all.simps [of i n s])
  qed
qed

lemma set_given_result:
  "set_given n cores s =
     (if \<forall>c\<in>set cores. 0 \<le> c \<and> c < n
      then (True, s \<union> {c. int c \<in> set cores \<and> int c < CPU_SETSIZE})
      else (False, snd (set_given n cores s)))"
proof (induction cores arbitrary: s)
  case Nil
  then show ?case by simp
next
  case (Cons c cs)
  show ?case
  proof (cases "\<forall>d\<in>set (c # cs). 0 \<le> d \<and> d < n")
    case True
    then have "CPU_SET c s \<union> {d. int d \<in> set cs \<and> int d < CPU_SETSIZE} =
        s \<union> {d. int d \<in> set (c # cs) \<and> int d < CPU_SETSIZE}"
      by (auto simp: CPU_SET_def)
    with True Cons.IH [of "CPU_SET c s"] show ?thesis by simp
  next
    case False
    with Cons.IH [of "CPU_SET c s"] show ?thesis by (auto split: if_splits)
  qed
qed

text \<open>
  C38. \<^verbatim>\<open>set_thread_affinity\<close> asks the system for exactly the cores given, or for all cores when the
  list is empty, and reports whether the system accepted; if any core is out of range, the system
  is not asked at all, nothing changes, and the message lists the cores and the range. Cores that
  a \<^verbatim>\<open>cpu_set_t\<close> has no room for are left out.
\<close>

theorem affinity_mask:
  "set_thread_affinity api th cores w =
     (let n = nprocessors_online api w in
      if \<forall>c\<in>set cores. 0 \<le> c \<and> c < n
      then (case pthread_setaffinity api th
              {c. int c < CPU_SETSIZE \<and> (if cores = [] then int c < n else int c \<in> set cores)} w of
              (r, w') \<Rightarrow> (set_affinity_result_message api r w', w'))
      else ((False, invalid_cores_message cores n), w))"
proof -
  have all: "set_all 0 n {} = {c. int c < CPU_SETSIZE \<and> int c < n}" for n
    using set_all_result [of 0 n "{}"] by auto
  have given: "{c. int c \<in> set cores \<and> int c < CPU_SETSIZE} = {c. int c < CPU_SETSIZE \<and> int c \<in> set cores}"
    by auto
  show ?thesis
    using set_given_result [of "nprocessors_online api w" cores "{}"]
    by (cases "cores = []")
      (auto simp: set_thread_affinity_def get_number_of_available_processors_def Let_def all given
        split: prod.split if_splits)
qed

theorem affinity_mask_witness:
  "set_thread_affinity sample_api 1 [0, 2] sample_world =
     ((True, ''Thread affinity set successfully!''), sample_world\<lparr>so_mask := {0, 2}\<rparr>) \<and>
   fst (fst (set_thread_affinity sample_api 1 [0, 4] sample_world)) = False"
proof -
  have "{c. int c < CPU_SETSIZE \<and> int c \<in> {0, 2}} = {0, 2}" by (auto simp: CPU_SETSIZE_def)
  then show ?thesis
    by (simp add: affinity_mask sample_api_def set_affinity_result_message_def)
qed

text \<open>
  The message for a failed affinity call does not tell why it failed: \<^verbatim>\<open>pthread_setaffinity_np\<close>
  returns its error code and leaves \<^verbatim>\<open>errno\<close> alone, but the message is chosen by \<^verbatim>\<open>errno\<close>, so that
  whatever the code is, the text is the one for an older, unrelated error.
\<close>

theorem affinity_message_stale:
  assumes "pthread_setaffinity api th {c. int c < CPU_SETSIZE \<and> int c \<in> set cores} w = (r, w')"
    and "r \<noteq> 0" "errno api w' = errno api w" "cores \<noteq> []"
    and "\<forall>c\<in>set cores. 0 \<le> c \<and> c < nprocessors_online api w"
  shows "snd (fst (set_thread_affinity api th cores w)) =
    (let e = errno api w in
     if e = E_FAULT then ''Call of sched_setaffinity with invalid cpuset!''
     else if e = E_INVAL then ''Call of sched_setaffinity with an invalid cpu core!''
     else if e = E_SRCH then
       ''Call of sched_setaffinity with a thread id/process id that is invalid or not found!''
     else if e = E_PERM then ''Call of sched_setaffinity with insufficient privileges!''
     else ''Unknown error code: '' @ os_strerror api e)"
proof -
  have "set_given (nprocessors_online api w) cores {} = (True, {c. int c < CPU_SETSIZE \<and> int c \<in> set cores})"
    using set_given_result [of "nprocessors_online api w" cores "{}"] assms(5)
    by (simp add: conj_commute)
  with assms show ?thesis
    by (simp add: set_thread_affinity_def get_number_of_available_processors_def
        set_affinity_result_message_def Let_def)
qed

theorem affinity_message_stale_witness:
  "fst (pthread_setaffinity sample_api 5 {0} sample_world) = E_SRCH \<and>
   snd (fst (set_thread_affinity sample_api 5 [0] sample_world)) =
     ''Unknown error code: '' @ os_strerror sample_api 0"
proof -
  have "{c. int c < CPU_SETSIZE \<and> int c \<in> set [0]} = {0}" by (auto simp: CPU_SETSIZE_def)
  then have "pthread_setaffinity sample_api 5 {c. int c < CPU_SETSIZE \<and> int c \<in> set [0]} sample_world =
      (E_SRCH, sample_world)"
    by (simp add: sample_api_def)
  from affinity_message_stale [OF this] show ?thesis
    by (simp add: sample_api_def sample_world_def e_defs)
qed

lemma contains_iff: "contains pat s \<longleftrightarrow> (\<exists>u v. s = u @ pat @ v)"
proof (induction s)
  case Nil
  then show ?case by auto
next
  case (Cons c cs)
  have "(\<exists>u v. c # cs = u @ pat @ v) \<longleftrightarrow> prefix pat (c # cs) \<or> (\<exists>u v. cs = u @ pat @ v)"
    by (metis (no_types, opaque_lifting) Cons_eq_append_conv append_Cons append_Nil prefix_def)
  with Cons show ?case by simp
qed

text \<open>
  A realtime kernel is reported exactly if the flag file holds a true value, or \<^verbatim>\<open>uname\<close> works
  and \<^verbatim>\<open>PREEMPT_RT\<close> occurs somewhere in the kernel version.
\<close>

theorem realtime_kernel_iff:
  "fst (has_realtime_kernel api w) \<longleftrightarrow>
     realtime_file api w = Some True \<or>
     (\<exists>u v. fst (uname_version api w) = Some (u @ ''PREEMPT_RT'' @ v))"
proof -
  have "fst (has_realtime_kernel api w) \<longleftrightarrow> realtime_file api w = Some True \<or>
      (\<exists>s. fst (uname_version api w) = Some s \<and> contains ''PREEMPT_RT'' s)"
    by (auto simp: has_realtime_kernel_def Let_def split: option.splits prod.splits)
  then show ?thesis by (simp add: contains_iff) blast
qed

end
