(* ===== verification/RT_Platforms.thy ===== *)
theory RT_Platforms
  imports RT_Helpers "HOL-Library.Word"
begin

text \<open>
  The helpers of \<^verbatim>\<open>realtime_helpers.cpp\<close> on every platform they compile for: the preprocessor's
  choice is a \<open>case\<close> on a platform, which carries the functions of its operating system. The Linux
  branches are those of \<open>RT_Helpers\<close>.
\<close>

section \<open>The platforms\<close>

text \<open>
  macOS has the POSIX part of \<open>os_api\<close>, the scheduling of one thread, and \<^verbatim>\<open>pthread_setname_np\<close> for
  the calling thread. On Windows \<^verbatim>\<open>SetThreadPriority\<close> returns a \<^verbatim>\<open>BOOL\<close>, \<^verbatim>\<open>SetThreadDescription\<close> takes
  wide characters and returns an \<^verbatim>\<open>HRESULT\<close>, and the number of processors is a \<^verbatim>\<open>DWORD\<close>.
\<close>

record ('w, 'h, 'c) mac_api =
  mac_posix :: "('w, 'h, 'c) os_api"
  pthread_setschedparam :: "'h \<Rightarrow> sched_policy \<Rightarrow> int \<Rightarrow> 'w \<Rightarrow> int \<times> 'w"
  mac_setname :: "string \<Rightarrow> 'w \<Rightarrow> int \<times> 'w"

record ('w, 'h) win_api =
  GetCurrentThread :: "'w \<Rightarrow> 'h"
  SetThreadPriority :: "'h \<Rightarrow> int \<Rightarrow> 'w \<Rightarrow> int \<times> 'w"
  SetThreadDescription :: "'h \<Rightarrow> 16 word list \<Rightarrow> 'w \<Rightarrow> int \<times> 'w"
  dwNumberOfProcessors :: "'w \<Rightarrow> 32 word"
  win_cerr :: "string \<Rightarrow> 'w \<Rightarrow> 'w"

datatype ('w, 'h, 'c) platform =
    Linux "('w, 'h, 'c) os_api"
  | MacOS "('w, 'h, 'c) mac_api"
  | Windows "('w, 'h) win_api"

section \<open>Kernel, scheduler, memory\<close>

definition has_realtime_kernel_on :: "('w, 'h, 'c) platform \<Rightarrow> 'w \<Rightarrow> bool \<times> 'w" where
  "has_realtime_kernel_on P w =
     (case P of
        Windows a \<Rightarrow> (False, win_cerr a ''Realtime kernel detection is not supported on Windows.'' w)
      | MacOS a \<Rightarrow> has_realtime_kernel (mac_posix a) w
      | Linux a \<Rightarrow> has_realtime_kernel a w)"

definition configure_sched_fifo_on :: "('w, 'h, 'c) platform \<Rightarrow> int \<Rightarrow> 'w \<Rightarrow> bool \<times> 'w" where
  "configure_sched_fifo_on P priority w =
     (case P of
        Windows a \<Rightarrow> (case SetThreadPriority a (GetCurrentThread a w) priority w of (r, w') \<Rightarrow> (r \<noteq> 0, w'))
      | MacOS a \<Rightarrow> (case pthread_setschedparam a (pthread_self (mac_posix a) w) SCHED_FIFO priority w of
          (r, w') \<Rightarrow> if r = 0 then (True, w') else (False, w'))
      | Linux a \<Rightarrow> configure_sched_fifo a priority w)"

definition configure_sched_rr_on :: "('w, 'h, 'c) platform \<Rightarrow> int \<Rightarrow> 'w \<Rightarrow> bool \<times> 'w" where
  "configure_sched_rr_on P priority w =
     (case P of
        Windows a \<Rightarrow> (False, win_cerr a ''SCHED_RR is not supported on Windows.'' w)
      | MacOS a \<Rightarrow> (case pthread_setschedparam a (pthread_self (mac_posix a) w) SCHED_RR priority w of
          (r, w') \<Rightarrow> if r = 0 then (True, w') else (False, w'))
      | Linux a \<Rightarrow> configure_sched_rr a priority w)"

definition lock_memory_on :: "('w, 'h, 'c) platform \<Rightarrow> 'w \<Rightarrow> (bool \<times> string) \<times> 'w" where
  "lock_memory_on P w =
     (case P of
        Linux a \<Rightarrow> lock_memory a w
      | _ \<Rightarrow> ((False, ''Memory locking is not supported on Windows or macOS.''), w))"

section \<open>Thread affinity\<close>

definition set_thread_affinity_on ::
    "('w, 'h, 'c) platform \<Rightarrow> 'h \<Rightarrow> int list \<Rightarrow> 'w \<Rightarrow> (bool \<times> string) \<times> 'w" where
  "set_thread_affinity_on P thread cores w =
     (case P of
        Linux a \<Rightarrow> set_thread_affinity a thread cores w
      | _ \<Rightarrow> ((False, ''Thread affinity is not supported on Windows or macOS.''), w))"

definition set_thread_affinity_core_on ::
    "('w, 'h, 'c) platform \<Rightarrow> 'h \<Rightarrow> int \<Rightarrow> 'w \<Rightarrow> (bool \<times> string) \<times> 'w" where
  "set_thread_affinity_core_on P thread core w =
     set_thread_affinity_on P thread (if core < 0 then [] else [core]) w"

definition set_std_thread_affinity_on ::
    "('w, 'h, 'c) platform \<Rightarrow> 'h option \<Rightarrow> int \<Rightarrow> 'w \<Rightarrow> (bool \<times> string) \<times> 'w" where
  "set_std_thread_affinity_on P thread core w =
     (case thread of
        None \<Rightarrow> ((False, ''Unable to set the thread affinity, as the thread is not joinable!''), w)
      | Some h \<Rightarrow> set_thread_affinity_core_on P h core w)"

fun current_thread :: "('w, 'h, 'c) platform \<Rightarrow> 'w \<Rightarrow> 'h" where
  "current_thread (Windows a) w = GetCurrentThread a w"
| "current_thread (MacOS a) w = pthread_self (mac_posix a) w"
| "current_thread (Linux a) w = pthread_self a w"

definition set_current_thread_affinity_core_on ::
    "('w, 'h, 'c) platform \<Rightarrow> int \<Rightarrow> 'w \<Rightarrow> (bool \<times> string) \<times> 'w" where
  "set_current_thread_affinity_core_on P core w =
     set_thread_affinity_core_on P (current_thread P w) core w"

definition set_current_thread_affinity_on ::
    "('w, 'h, 'c) platform \<Rightarrow> int list \<Rightarrow> 'w \<Rightarrow> (bool \<times> string) \<times> 'w" where
  "set_current_thread_affinity_on P cores w = set_thread_affinity_on P (current_thread P w) cores w"

section \<open>Thread names and processors\<close>

text \<open>
  \<^verbatim>\<open>std::wstring(name.begin(), name.end())\<close> converts each \<^verbatim>\<open>char\<close>, a signed byte, to 16 bits: a byte
  from 128 on becomes a character from 0xFF80 on.
\<close>

definition widen :: "char \<Rightarrow> 16 word" where
  "widen c = word_of_int (let n = int (of_char c) in if n < 128 then n else n - 256)"

definition set_current_thread_name_on ::
    "('w, 'h, 'c) platform \<Rightarrow> string \<Rightarrow> 'w \<Rightarrow> (bool \<times> string) \<times> 'w" where
  "set_current_thread_name_on P name w =
     (if name = [] then ((False, ''Thread name cannot be empty. This should not happen!''), w)
      else (case P of
        Windows a \<Rightarrow>
          (case SetThreadDescription a (GetCurrentThread a w) (map widen name) w of (hr, w') \<Rightarrow>
            if hr \<ge> 0 then ((True, ''Thread name: '' @ name), w')
            else ((False, ''Failed to set thread name on Windows.''), w'))
      | MacOS a \<Rightarrow>
          (let t_name = take 63 name;
               msg = (if length name > 63 then ''Thread name (truncated): '' @ t_name
                      else ''Thread name: '' @ t_name)
           in (case mac_setname a t_name w of (rc, w') \<Rightarrow>
                if rc = 0 then ((True, msg), w')
                else ((False, ''Failed to set thread name on macOS.''), w')))
      | Linux a \<Rightarrow> set_current_thread_name a name w))"

definition get_number_of_available_processors_on :: "('w, 'h, 'c) platform \<Rightarrow> 'w \<Rightarrow> int" where
  "get_number_of_available_processors_on P w =
     (case P of
        Windows a \<Rightarrow> uint (dwNumberOfProcessors a w)
      | MacOS a \<Rightarrow> get_number_of_available_processors (mac_posix a) w
      | Linux a \<Rightarrow> get_number_of_available_processors a w)"

lemmas on_linux_defs = has_realtime_kernel_on_def configure_sched_fifo_on_def configure_sched_rr_on_def
  lock_memory_on_def set_thread_affinity_on_def set_thread_affinity_core_on_def
  set_std_thread_affinity_on_def set_current_thread_affinity_core_on_def
  set_current_thread_affinity_on_def set_current_thread_name_on_def
  get_number_of_available_processors_on_def

text \<open>On Linux the helpers are those of \<open>RT_Helpers\<close>.\<close>

lemma set_current_thread_name_linux [simp]:
  "set_current_thread_name_on (Linux a) name w = set_current_thread_name a name w"
  by (simp add: set_current_thread_name_on_def set_current_thread_name_def)

lemma affinity_linux [simp]:
  "set_thread_affinity_core_on (Linux a) h core w = set_thread_affinity_core a h core w"
  "set_std_thread_affinity_on (Linux a) th core w = set_std_thread_affinity a th core w"
  "set_current_thread_affinity_core_on (Linux a) core w = set_current_thread_affinity_core a core w"
  "set_current_thread_affinity_on (Linux a) cores w = set_current_thread_affinity a cores w"
  by (simp_all add: on_linux_defs set_thread_affinity_core_def set_std_thread_affinity_def
      set_current_thread_affinity_core_def set_current_thread_affinity_def Let_def split: option.split)

section \<open>Properties\<close>

text \<open>
  How many characters of a name the platform takes, and the call that names the current thread,
  with whether it succeeded.
\<close>

fun name_room :: "('w, 'h, 'c) platform \<Rightarrow> nat option" where
  "name_room (Linux a) = Some 15"
| "name_room (MacOS a) = Some 63"
| "name_room (Windows a) = None"

fun name_thread :: "('w, 'h, 'c) platform \<Rightarrow> string \<Rightarrow> 'w \<Rightarrow> bool \<times> 'w" where
  "name_thread (Linux a) t w = apfst (\<lambda>r. r = 0) (pthread_setname a (pthread_self a w) t w)"
| "name_thread (MacOS a) t w = apfst (\<lambda>r. r = 0) (mac_setname a t w)"
| "name_thread (Windows a) t w =
     apfst (\<lambda>r. 0 \<le> r) (SetThreadDescription a (GetCurrentThread a w) (map widen t) w)"

definition fitting :: "('w, 'h, 'c) platform \<Rightarrow> string \<Rightarrow> string" where
  "fitting P name = (case name_room P of None \<Rightarrow> name | Some n \<Rightarrow> take n name)"

text \<open>
  \<^verbatim>\<open>set_current_thread_name\<close> on every platform: an empty name is refused and the system not
  asked; any other is given to the system once, cut to what the platform takes, so never more than
  that; success is reported exactly if the system reported it, and then the message ends with the
  name given and says so exactly if the name was cut.
\<close>

theorem thread_name_fits:
  "\<exists>why. set_current_thread_name_on P name w =
     (if name = [] then ((False, ''Thread name cannot be empty. This should not happen!''), w)
      else (let (ok, w') = name_thread P (fitting P name) w in
        ((ok, if ok then (if fitting P name = name then ''Thread name: '' else ''Thread name (truncated): '')
                         @ fitting P name
              else why), w'))) \<and>
    prefix (fitting P name) name \<and> (case name_room P of None \<Rightarrow> True | Some n \<Rightarrow> length (fitting P name) \<le> n)"
proof -
  have cut: "(take n name = name) = (\<not> n < length name)" for n by auto
  show ?thesis
    by (cases P) (auto simp: set_current_thread_name_on_def set_current_thread_name_def fitting_def
        cut Let_def take_is_prefix split: prod.splits)
qed

text \<open>
  On Windows only the characters of ASCII arrive: every other byte of the name, as in UTF-8, becomes
  a character of its own that is not in the name.
\<close>

theorem widen_faithful_iff: "uint (widen c) = int (of_char c) \<longleftrightarrow> of_char c < (128 :: nat)"
proof -
  define n where "n = (of_char c :: nat)"
  have i: "(of_char c :: int) = int n" by (simp only: n_def of_nat_of_char)
  have "n = n mod 256" using of_char_of [of n] by (simp add: n_def)
  then have b: "n < 256" by (metis mod_less_divisor zero_less_numeral)
  show ?thesis
  proof (cases "n < 128")
    case True
    then have "uint (word_of_int (int n) :: 16 word) = int n"
      by (simp only: uint_word_of_int) simp
    with True show ?thesis by (simp add: widen_def Let_def i flip: n_def)
  next
    case False
    have "(int n - 256) mod 65536 = int n + 65280"
      using b False by (intro int_mod_pos_eq [of _ _ "-1"]) simp_all
    then have "uint (word_of_int (int n - 256) :: 16 word) = int n + 65280"
      by (simp only: uint_word_of_int) simp
    with False show ?thesis by (simp add: widen_def Let_def i flip: n_def)
  qed
qed

end
