(* ===== verification/Async_Params.thy ===== *)
theory Async_Params
  imports RT_Prelude "HOL-Library.Word" "HOL-Library.List_Lexorder"
begin

text \<open>
  \<^verbatim>\<open>AsyncSchedulingPolicy\<close> and \<^verbatim>\<open>AsyncFunctionHandlerParams\<close> (\<^verbatim>\<open>async_function_handler.hpp\<close>): the
  policy and its names, the parameters with their validation, and their initialisation from the
  parameters of a node. The node is a parameter: a map from names to typed values, with the
  exception that its accessors throw for a value of another type.
\<close>

section \<open>The scheduling policy\<close>

datatype policy = UNKNOWN | SYNCHRONIZED | DETACHED

text \<open>The values of the enumeration.\<close>

fun policy_value :: "policy \<Rightarrow> 8 word" where
  "policy_value UNKNOWN = -1"
| "policy_value SYNCHRONIZED = 0"
| "policy_value DETACHED = 1"

definition policy_of_string :: "string \<Rightarrow> policy" where
  "policy_of_string data_type =
     (if data_type = ''synchronized'' then SYNCHRONIZED
      else if data_type = ''detached'' then DETACHED
      else UNKNOWN)"

text \<open>
  The default constructor, the member \<^verbatim>\<open>from_string\<close>, which does not use the object it is called on,
  and the comparison of two policies.
\<close>

definition policy_ctor :: policy where
  "policy_ctor = UNKNOWN"

definition from_string :: "policy \<Rightarrow> string \<Rightarrow> policy" where
  "from_string this data_type = policy_of_string data_type"

definition policy_equal :: "policy \<Rightarrow> policy \<Rightarrow> bool" where
  "policy_equal p q \<longleftrightarrow> policy_value p = policy_value q"

lemma policy_equal_iff [simp]: "policy_equal p q \<longleftrightarrow> p = q"
  by (cases p; cases q) (simp_all add: policy_equal_def)

fun policy_to_string :: "policy \<Rightarrow> string" where
  "policy_to_string SYNCHRONIZED = ''synchronized''"
| "policy_to_string DETACHED = ''detached''"
| "policy_to_string UNKNOWN = ''unknown''"

text \<open>The order of the underlying values, in which \<^verbatim>\<open>UNKNOWN\<close> comes first.\<close>

instantiation policy :: linorder
begin

definition less_eq_policy :: "policy \<Rightarrow> policy \<Rightarrow> bool" where
  "less_eq_policy p q \<longleftrightarrow> sint (policy_value p) \<le> sint (policy_value q)"

definition less_policy :: "policy \<Rightarrow> policy \<Rightarrow> bool" where
  "less_policy p q \<longleftrightarrow> sint (policy_value p) < sint (policy_value q)"

instance
proof
  fix p q :: policy
  assume "p \<le> q" "q \<le> p"
  then show "p = q" by (cases p; cases q) (simp_all add: less_eq_policy_def)
qed (auto simp: less_eq_policy_def less_policy_def)

end

section \<open>The parameters\<close>

text \<open>
  \<open>clock\<close> and \<open>trigger_predicate\<close> are \<open>None\<close> for a null pointer and an empty function. \<^verbatim>\<open>int\<close> has
  32 bits; \<open>thread_priority\<close> and the cores are the values as integers, \<open>exec_rate\<close> is the unsigned
  word.
\<close>

record ('c, 'p) async_params =
  thread_priority :: int
  cpu_affinity_cores :: "int list"
  scheduling_policy :: policy
  exec_rate :: "32 word"
  clock :: "'c option"
  trigger_predicate :: "'p option"
  wait_until_initial_trigger :: bool
  print_warnings :: bool
  thread_name :: string

definition default_params :: "'p \<Rightarrow> ('c, 'p) async_params" where
  "default_params always = \<lparr>thread_priority = 50, cpu_affinity_cores = [],
     scheduling_policy = SYNCHRONIZED, exec_rate = 0, clock = None, trigger_predicate = Some always,
     wait_until_initial_trigger = True, print_warnings = True, thread_name = ''''\<rparr>"

text \<open>\<^verbatim>\<open>validate\<close>: what it returns or throws, and the lines it logs. The loop stops at the first bad core.\<close>

fun validate_cores :: "int list \<Rightarrow> bool \<times> string list" where
  "validate_cores [] = (True, [])"
| "validate_cores (core # cores) =
     (if core < 0
      then (False, [''Invalid CPU core id: '' @ to_string core @ ''. It should be a non-negative integer.''])
      else validate_cores cores)"

definition validate :: "('c, 'p) async_params \<Rightarrow> bool outcome \<times> string list" where
  "validate p =
     (if thread_priority p < 0 \<or> thread_priority p > 99
      then (Return False, [''Invalid thread priority: '' @ to_string (thread_priority p) @
             ''. It should be between 0 and 99.''])
      else if scheduling_policy p = DETACHED \<and> clock p = None
      then (Return False, [''Clock must be set when using DETACHED scheduling policy.''])
      else if scheduling_policy p = DETACHED \<and> exec_rate p = 0
      then (Return False, [''Execution rate must be set when using DETACHED scheduling policy.''])
      else if scheduling_policy p = UNKNOWN
      then (Throw (Runtime_error (''AsyncFunctionHandlerParams: scheduling policy is unknown. '' @
             ''Please set it to either '' @ [CHR 0x27] @ ''synchronized'' @ [CHR 0x27] @ '' or '' @
             [CHR 0x27] @ ''detached'' @ [CHR 0x27] @ ''.'')), [])
      else if trigger_predicate p = None
      then (Return False, [''The parsed trigger predicate is not valid!''])
      else (case validate_cores (cpu_affinity_cores p) of (ok, log) \<Rightarrow> (Return ok, log)))"

section \<open>Initialisation from a node\<close>

text \<open>A node's parameters; integers have 64 bits.\<close>

datatype node_value = Node_int "64 word" | Node_ints "64 word list" | Node_string string | Node_bool bool

type_synonym node = "string \<Rightarrow> node_value option"

text \<open>\<^verbatim>\<open>static_cast<int>\<close> of a 64-bit integer keeps the low 32 bits.\<close>

definition to_int32 :: "64 word \<Rightarrow> int" where
  "to_int32 w = sint (ucast w :: 32 word)"

definition to_uint32 :: "int \<Rightarrow> 32 word" where
  "to_uint32 i = word_of_int i"

text \<open>
  \<^verbatim>\<open>if (has_parameter(name)) use(get_parameter(name).as_...())\<close>: nothing happens when the parameter
  is missing, and the accessor throws when it has another type.
\<close>

definition with_param ::
    "exn \<Rightarrow> node \<Rightarrow> string \<Rightarrow> (node_value \<Rightarrow> 'a option) \<Rightarrow> ('a \<Rightarrow> ('s, unit) prog) \<Rightarrow> ('s, unit) prog" where
  "with_param type_error node name as_type use =
     (case node name of
        None \<Rightarrow> ret ()
      | Some v \<Rightarrow> (case as_type v of None \<Rightarrow> throw type_error | Some x \<Rightarrow> use x))"

fun as_int :: "node_value \<Rightarrow> 64 word option" where
  "as_int (Node_int i) = Some i" | "as_int _ = None"
fun as_integer_array :: "node_value \<Rightarrow> 64 word list option" where
  "as_integer_array (Node_ints is) = Some is" | "as_integer_array _ = None"
fun as_string :: "node_value \<Rightarrow> string option" where
  "as_string (Node_string s) = Some s" | "as_string _ = None"
fun as_bool :: "node_value \<Rightarrow> bool option" where
  "as_bool (Node_bool b) = Some b" | "as_bool _ = None"

definition init_exec_rate :: "64 word \<Rightarrow> (('c, 'p) async_params, unit) prog" where
  "init_exec_rate i =
     (let execution_rate = to_int32 i in
      if execution_rate \<le> 0
      then throw (Runtime_error ''AsyncFunctionHandler: execution_rate parameter must be positive.'')
      else modify (exec_rate_update (\<lambda>_. to_uint32 execution_rate)))"

definition initialize :: "exn \<Rightarrow> node \<Rightarrow> string \<Rightarrow> (('c, 'p) async_params, unit) prog" where
  "initialize type_error node prefix =
     bindp (with_param type_error node (prefix @ ''thread_priority'') as_int
              (\<lambda>i. modify (thread_priority_update (\<lambda>_. to_int32 i)))) (\<lambda>_.
     bindp (with_param type_error node (prefix @ ''cpu_affinity'') as_integer_array
              (\<lambda>is. modify (cpu_affinity_cores_update (\<lambda>cores. cores @ map to_int32 is)))) (\<lambda>_.
     bindp (with_param type_error node (prefix @ ''scheduling_policy'') as_string
              (\<lambda>s. modify (scheduling_policy_update (\<lambda>_. policy_of_string s)))) (\<lambda>_.
     bindp (get_state scheduling_policy) (\<lambda>policy.
     bindp (if policy = DETACHED
            then with_param type_error node (prefix @ ''execution_rate'') as_int init_exec_rate
            else ret ()) (\<lambda>_.
     bindp (with_param type_error node (prefix @ ''wait_until_initial_trigger'') as_bool
              (\<lambda>b. modify (wait_until_initial_trigger_update (\<lambda>_. b)))) (\<lambda>_.
     bindp (with_param type_error node (prefix @ ''print_warnings'') as_bool
              (\<lambda>b. modify (print_warnings_update (\<lambda>_. b)))) (\<lambda>_.
     with_param type_error node (prefix @ ''thread_name'') as_string
              (\<lambda>s. modify (thread_name_update (\<lambda>_. s)))))))))) "

section \<open>Properties\<close>

text \<open>
  The names of the policies: printing and reading back gives the same policy, different
  policies have different names, and a string that is not the name of a known policy reads as
  \<^verbatim>\<open>UNKNOWN\<close>.
\<close>

theorem policy_round_trip:
  "policy_of_string (policy_to_string p) = p \<and> (policy_to_string p = policy_to_string q) = (p = q) \<and>
   (policy_of_string s = UNKNOWN) = (s \<notin> {policy_to_string SYNCHRONIZED, policy_to_string DETACHED}) \<and>
   UNKNOWN \<le> p"
  by (cases p; cases q) (auto simp: policy_of_string_def less_eq_policy_def)

lemma validate_cores_iff:
  "fst (validate_cores cores) = (\<forall>c\<in>set cores. 0 \<le> c)"
  by (induction cores) auto

text \<open>
  C36. \<^verbatim>\<open>validate\<close> decides exactly the documented conditions, and it throws only for an unknown
  policy; but a priority out of range hides an unknown policy, for which it then returns false.
\<close>

theorem validate_decides:
  "(fst (validate p) = Return True) =
     (0 \<le> thread_priority p \<and> thread_priority p \<le> 99 \<and> scheduling_policy p \<noteq> UNKNOWN \<and>
      \<not> (scheduling_policy p = DETACHED \<and> (clock p = None \<or> exec_rate p = 0)) \<and>
      trigger_predicate p \<noteq> None \<and> list_all (\<lambda>c. 0 \<le> c) (cpu_affinity_cores p)) \<and>
   is_throw (fst (validate p)) =
     (0 \<le> thread_priority p \<and> thread_priority p \<le> 99 \<and> scheduling_policy p = UNKNOWN)"
  using validate_cores_iff [of "cpu_affinity_cores p"]
  by (auto simp: validate_def list_all_iff split: prod.splits)

text \<open>A node whose parameters, where present, have the documented types.\<close>

definition typed :: "node \<Rightarrow> string \<Rightarrow> (node_value \<Rightarrow> 'a option) \<Rightarrow> bool" where
  "typed node name as_type \<longleftrightarrow> (case node name of None \<Rightarrow> True | Some v \<Rightarrow> as_type v \<noteq> None)"

definition node_typed :: "node \<Rightarrow> string \<Rightarrow> bool" where
  "node_typed node prefix \<longleftrightarrow>
     typed node (prefix @ ''thread_priority'') as_int \<and>
     typed node (prefix @ ''cpu_affinity'') as_integer_array \<and>
     typed node (prefix @ ''scheduling_policy'') as_string \<and>
     typed node (prefix @ ''execution_rate'') as_int \<and>
     typed node (prefix @ ''wait_until_initial_trigger'') as_bool \<and>
     typed node (prefix @ ''print_warnings'') as_bool \<and>
     typed node (prefix @ ''thread_name'') as_string"

definition node_get :: "node \<Rightarrow> string \<Rightarrow> (node_value \<Rightarrow> 'a option) \<Rightarrow> 'a \<Rightarrow> 'a" where
  "node_get node name as_type dflt =
     (case node name of None \<Rightarrow> dflt | Some v \<Rightarrow> (case as_type v of None \<Rightarrow> dflt | Some x \<Rightarrow> x))"

lemma with_param_modify:
  "typed node name as_type \<Longrightarrow>
     with_param e node name as_type (\<lambda>x. modify (f x)) s =
       (Return (), case node name of None \<Rightarrow> s | Some v \<Rightarrow> f (the (as_type v)) s)"
  by (auto simp: typed_def with_param_def split: option.splits)

lemma to_int32_low:
  "to_int32 (word_of_int x) = signed_take_bit 31 x"
  unfolding to_int32_def by transfer (simp add: signed_take_bit_take_bit)

lemma to_int32_signed:
  "to_int32 w = signed_take_bit 31 (sint w)"
  unfolding to_int32_def by transfer (simp add: signed_take_bit_take_bit)

lemma to_int32_fits:
  "- (2 ^ 31) \<le> sint w \<Longrightarrow> sint w < 2 ^ 31 \<Longrightarrow> to_int32 w = sint w"
  unfolding to_int32_signed by (rule signed_take_bit_int_eq_self) simp_all

lemma to_int32_wraps:
  "to_int32 (word_of_int (2 ^ 32 + k)) = signed_take_bit 31 k"
proof -
  have "take_bit (Suc 31) (2 ^ 32 + k) = take_bit (Suc 31) k"
    by (simp add: take_bit_eq_mod)
  then show ?thesis unfolding to_int32_low by (simp only: signed_take_bit_eq_iff_take_bit_eq)
qed

lemma init_exec_rate_run:
  "init_exec_rate i s =
     (if to_int32 i \<le> 0
      then (Throw (Runtime_error ''AsyncFunctionHandler: execution_rate parameter must be positive.''), s)
      else (Return (), exec_rate_update (\<lambda>_. word_of_int (to_int32 i)) s))"
  by (simp add: init_exec_rate_def to_uint32_def Let_def)

lemma with_param_value:
  "typed node name as_type \<Longrightarrow>
     with_param e node name as_type use s =
       (case node name of None \<Rightarrow> (Return (), s) | Some v \<Rightarrow> use (the (as_type v)) s)"
  by (auto simp: typed_def with_param_def split: option.splits)

text \<open>Reading one parameter into one field: the field keeps its value when the node has no such parameter.\<close>

lemma read_field:
  assumes "typed node name as_type" and "upd (\<lambda>_. sel s) s = s"
  shows "with_param e node name as_type (\<lambda>x. modify (upd (\<lambda>_. g x))) s =
           (Return (), upd (\<lambda>_. node_get node name (\<lambda>v. map_option g (as_type v)) (sel s)) s)"
  using assms by (auto simp: with_param_modify node_get_def typed_def split: option.splits)

lemma read_flag:
  assumes "typed node name as_type" and "upd (\<lambda>_. sel s) s = s"
  shows "with_param e node name as_type (\<lambda>x. modify (upd (\<lambda>_. x))) s =
           (Return (), upd (\<lambda>_. node_get node name as_type (sel s)) s)"
  using assms by (auto simp: with_param_modify node_get_def typed_def split: option.splits)

lemma read_cores:
  assumes "typed node name as_integer_array"
  shows "with_param e node name as_integer_array
           (\<lambda>is. modify (cpu_affinity_cores_update (\<lambda>cores. cores @ map to_int32 is))) s =
         (Return (), s\<lparr>cpu_affinity_cores := cpu_affinity_cores s @
            node_get node name (\<lambda>v. map_option (map to_int32) (as_integer_array v)) []\<rparr>)"
  using assms by (auto simp: with_param_modify node_get_def typed_def split: option.splits)

text \<open>The execution rate that a node has, as an \<^verbatim>\<open>int\<close>, is not positive.\<close>

fun bad_rate :: "node_value option \<Rightarrow> bool" where
  "bad_rate (Some (Node_int i)) = (to_int32 i \<le> 0)"
| "bad_rate _ = False"

abbreviation rate_error :: exn where
  "rate_error \<equiv> Runtime_error ''AsyncFunctionHandler: execution_rate parameter must be positive.''"

lemma read_rate:
  assumes "typed node name as_int"
  shows "with_param e node name as_int init_exec_rate s =
    (if bad_rate (node name) then (Throw rate_error, s)
     else (Return (), s\<lparr>exec_rate := node_get node name
            (\<lambda>v. map_option (\<lambda>i. word_of_int (to_int32 i)) (as_int v)) (exec_rate s)\<rparr>))"
proof (cases "node name")
  case None
  then show ?thesis by (simp add: with_param_def node_get_def)
next
  case (Some v)
  with assms obtain i where v: "v = Node_int i"
    by (cases v) (auto simp: typed_def)
  with Some show ?thesis by (simp add: with_param_def node_get_def init_exec_rate_run)
qed

text \<open>
  C37. Reading the parameters from a node whose parameters have the documented types: the thread
  priority, the cores, the policy, the two flags and the thread name are taken if the node has
  them and keep their values otherwise; the cores are appended to those already there. The
  execution rate is read only if the policy, as read, is the detached one, and one that is not
  positive as an \<^verbatim>\<open>int\<close> is refused by an exception, with what was read before it taken and the
  flags and the name not read.
\<close>

theorem initialize_reads:
  assumes "node_typed node prefix"
  shows "initialize type_error node prefix p =
     (let policy = node_get node (prefix @ ''scheduling_policy'')
                     (\<lambda>v. map_option policy_of_string (as_string v)) (scheduling_policy p);
          q = p\<lparr>thread_priority := node_get node (prefix @ ''thread_priority'')
                            (\<lambda>v. map_option to_int32 (as_int v)) (thread_priority p),
                cpu_affinity_cores := cpu_affinity_cores p @ node_get node (prefix @ ''cpu_affinity'')
                            (\<lambda>v. map_option (map to_int32) (as_integer_array v)) [],
                scheduling_policy := policy\<rparr>
      in if policy = DETACHED \<and> bad_rate (node (prefix @ ''execution_rate''))
         then (Throw rate_error, q)
         else (Return (),
           q\<lparr>exec_rate := (if policy = DETACHED
                      then node_get node (prefix @ ''execution_rate'')
                             (\<lambda>v. map_option (\<lambda>i. word_of_int (to_int32 i)) (as_int v)) (exec_rate p)
                      else exec_rate p),
             wait_until_initial_trigger := node_get node (prefix @ ''wait_until_initial_trigger'') as_bool
                            (wait_until_initial_trigger p),
             print_warnings := node_get node (prefix @ ''print_warnings'') as_bool (print_warnings p),
             thread_name := node_get node (prefix @ ''thread_name'') as_string (thread_name p)\<rparr>))"
proof -
  have t: "typed node (prefix @ ''thread_priority'') as_int"
    "typed node (prefix @ ''cpu_affinity'') as_integer_array"
    "typed node (prefix @ ''scheduling_policy'') as_string"
    "typed node (prefix @ ''execution_rate'') as_int"
    "typed node (prefix @ ''wait_until_initial_trigger'') as_bool"
    "typed node (prefix @ ''print_warnings'') as_bool"
    "typed node (prefix @ ''thread_name'') as_string"
    using assms(1) by (simp_all add: node_typed_def)
  note reads = read_field [OF t(1), where upd = thread_priority_update and sel = thread_priority]
    read_cores [OF t(2)]
    read_field [OF t(3), where upd = scheduling_policy_update and sel = scheduling_policy]
    read_rate [OF t(4)]
    read_flag [OF t(5), where upd = wait_until_initial_trigger_update and sel = wait_until_initial_trigger]
    read_flag [OF t(6), where upd = print_warnings_update and sel = print_warnings]
    read_flag [OF t(7), where upd = thread_name_update and sel = thread_name]
  show ?thesis
    by (simp add: initialize_def bindp_simps reads Let_def)
qed

definition demo_node :: node where
  "demo_node = [''a.thread_priority'' \<mapsto> Node_int 60, ''a.cpu_affinity'' \<mapsto> Node_ints [2, 3],
     ''a.scheduling_policy'' \<mapsto> Node_string ''detached'', ''a.execution_rate'' \<mapsto> Node_int 500]"

theorem initialize_reads_witness:
  "initialize (User_exn 0) demo_node ''a.'' (default_params () :: (unit, unit) async_params) = (Return (),
     \<lparr>thread_priority = 60, cpu_affinity_cores = [2, 3], scheduling_policy = DETACHED, exec_rate = 500,
      clock = None, trigger_predicate = Some (), wait_until_initial_trigger = True,
      print_warnings = True, thread_name = ''''\<rparr>) \<and>
   fst (initialize (User_exn 0) (demo_node(''a.execution_rate'' \<mapsto> Node_int 0)) ''a.''
     (default_params () :: (unit, unit) async_params)) = Throw rate_error"
proof -
  have "node_typed demo_node ''a.''" "node_typed (demo_node(''a.execution_rate'' \<mapsto> Node_int 0)) ''a.''"
    by (simp_all add: node_typed_def typed_def demo_node_def)
  note reads = this [THEN initialize_reads]
  show ?thesis
    by (simp add: reads) (simp add: demo_node_def node_get_def default_params_def
        policy_of_string_def to_int32_def)
qed

text \<open>
  The execution rate is narrowed to an \<^verbatim>\<open>int\<close> before it is checked: a configured rate of
  2^32 + k is not refused, it is accepted and becomes the rate k.
\<close>

theorem initialize_narrows:
  assumes "0 < k" "k < 2 ^ 31"
  shows "init_exec_rate (word_of_int (2 ^ 32 + k)) p = (Return (), p\<lparr>exec_rate := word_of_int k\<rparr>)"
proof -
  have "to_int32 (word_of_int (2 ^ 32 + k)) = k"
    using assms by (simp only: to_int32_wraps) (rule signed_take_bit_int_eq_self, simp_all)
  with assms(1) show ?thesis by (simp only: init_exec_rate_run) simp
qed

theorem initialize_narrows_witness:
  "init_exec_rate (word_of_int 4294967300) (default_params () :: (unit, unit) async_params) =
     (Return (), (default_params ())\<lparr>exec_rate := 4\<rparr>)"
  using initialize_narrows [of 4 "default_params () :: (unit, unit) async_params"] by simp

end
