(* ===== verification/Async_Handler.thy ===== *)
theory Async_Handler
  imports Async_Params RT_Helpers
begin

text \<open>
  \<^verbatim>\<open>AsyncFunctionHandler<T>\<close> (\<^verbatim>\<open>async_function_handler.hpp\<close>), the calls of its clients: each public
  function as a program that runs alone from a given state, with the worker thread seen only
  through what it left in the members, and the start of the worker. A call that has to wait for
  another thread is \<open>Block\<close>; \<open>Async_Worker\<close> has the interleavings with the worker. Logging is left
  out, apart from the lines of the worker's start.
\<close>

section \<open>The members\<close>

text \<open>
  What the class uses of rclcpp's times and of \<open>T\<close>: the zero time and duration, \<open>T()\<close>, the reading
  of a clock, and a time minus some nanoseconds.
\<close>

record ('c, 'time, 'dur, 'r) async_lib =
  time_zero :: 'time
  dur_zero :: 'dur
  T_default :: 'r
  clock_now :: "'c \<Rightarrow> 'time"
  time_before :: "'time \<Rightarrow> int \<Rightarrow> 'time"

text \<open>
  \<open>async_function\<close> and \<open>predicate_fn\<close> are \<open>None\<close> for an empty function, \<open>joinable\<close> is
  \<^verbatim>\<open>thread_.joinable()\<close>, and \<open>exception_ptr\<close> is the exception of the last failed callback.
\<close>

record ('c, 'p, 'f, 'time, 'dur, 'r) async_handler =
  async_function :: "'f option"
  predicate_fn :: "'p option"
  joinable :: bool
  params :: "('c, 'p) async_params"
  thread_prio :: int
  stop_async_callback :: bool
  trigger_in_progress :: bool
  pause_thread :: bool
  callback_return :: 'r
  callback_time :: 'time
  callback_period :: 'dur
  previous_time :: 'time
  async_mtx :: "tid std_mutex"
  last_execution_time :: int
  exception_ptr :: "exn option"

type_synonym ('c, 'p, 'f, 'time, 'dur, 'r, 'a) async_prog =
  "(('c, 'p, 'f, 'time, 'dur, 'r) async_handler, 'a) prog"

text \<open>
  The default constructor. \<^verbatim>\<open>numeric_limits<int>::quiet_NaN()\<close> is 0; the atomics without an
  initialiser start with some value \<open>r\<close> and \<open>n\<close>.
\<close>

definition handler_ctor ::
    "('c, 'time, 'dur, 'r) async_lib \<Rightarrow> 'p \<Rightarrow> 'r \<Rightarrow> int \<Rightarrow> ('c, 'p, 'f, 'time, 'dur, 'r) async_handler" where
  "handler_ctor L always r n = \<lparr>async_function = None, predicate_fn = Some always, joinable = False,
     params = default_params always, thread_prio = 0, stop_async_callback = False,
     trigger_in_progress = False, pause_thread = False, callback_return = r,
     callback_time = time_zero L, callback_period = dur_zero L, previous_time = time_zero L,
     async_mtx = None, last_execution_time = n, exception_ptr = None\<rparr>"

definition is_initialized :: "('c, 'p, 'f, 'time, 'dur, 'r) async_handler \<Rightarrow> bool" where
  "is_initialized s \<longleftrightarrow> async_function s \<noteq> None \<and> predicate_fn s \<noteq> None"

definition is_running :: "('c, 'p, 'f, 'time, 'dur, 'r) async_handler \<Rightarrow> bool" where
  "is_running s \<longleftrightarrow> joinable s"

text \<open>The other questions a client can ask.\<close>

definition is_stopped :: "('c, 'p, 'f, 'time, 'dur, 'r) async_handler \<Rightarrow> bool" where
  "is_stopped s = stop_async_callback s"

definition is_paused :: "('c, 'p, 'f, 'time, 'dur, 'r) async_handler \<Rightarrow> bool" where
  "is_paused s = pause_thread s"

definition get_params :: "('c, 'p, 'f, 'time, 'dur, 'r) async_handler \<Rightarrow> ('c, 'p) async_params" where
  "get_params s = params s"

definition is_trigger_cycle_in_progress :: "('c, 'p, 'f, 'time, 'dur, 'r) async_handler \<Rightarrow> bool" where
  "is_trigger_cycle_in_progress s = trigger_in_progress s"

definition get_last_execution_time :: "('c, 'p, 'f, 'time, 'dur, 'r) async_handler \<Rightarrow> int" where
  "get_last_execution_time s = last_execution_time s"

definition get_last_return_value :: "('c, 'p, 'f, 'time, 'dur, 'r) async_handler \<Rightarrow> 'r" where
  "get_last_return_value s = callback_return s"

definition get_current_callback_time :: "('c, 'p, 'f, 'time, 'dur, 'r) async_handler \<Rightarrow> 'time" where
  "get_current_callback_time s = callback_time s"

definition get_current_callback_period :: "('c, 'p, 'f, 'time, 'dur, 'r) async_handler \<Rightarrow> 'dur" where
  "get_current_callback_period s = callback_period s"

section \<open>\<^verbatim>\<open>init\<close>\<close>

definition init_callback :: "'f option \<Rightarrow> int \<Rightarrow> ('c, 'p, 'f, 'time, 'dur, 'r, unit) async_prog" where
  "init_callback callback priority =
     (if callback = None
      then throw (Runtime_error ''AsyncFunctionHandler: parsed function to call asynchronously is not valid!'')
      else bindp (get_state joinable) (\<lambda>running.
        if running
        then throw (Runtime_error (''AsyncFunctionHandler: Cannot reinitialize while the thread is '' @
               ''running. Please stop the async callback first!''))
        else modify (\<lambda>s. s\<lparr>async_function := callback, thread_prio := priority\<rparr>)))"

definition init_predicate ::
    "'f option \<Rightarrow> 'p option \<Rightarrow> int \<Rightarrow> ('c, 'p, 'f, 'time, 'dur, 'r, unit) async_prog" where
  "init_predicate callback trigger_pred priority =
     (if trigger_pred = None
      then throw (Runtime_error ''AsyncFunctionHandler: parsed trigger predicate is not valid!'')
      else bindp (init_callback callback priority) (\<lambda>_.
        modify (predicate_fn_update (\<lambda>_. trigger_pred))))"

text \<open>The overload with parameters calls \<^verbatim>\<open>validate\<close> for its exception only.\<close>

definition init_params ::
    "'f option \<Rightarrow> ('c, 'p) async_params \<Rightarrow> ('c, 'p, 'f, 'time, 'dur, 'r, unit) async_prog" where
  "init_params callback p =
     bindp (\<lambda>s. (fst (validate p), s)) (\<lambda>_.
     bindp (init_predicate callback (trigger_predicate p) (thread_priority p)) (\<lambda>_.
       modify (\<lambda>s. s\<lparr>params := p, pause_thread := wait_until_initial_trigger p\<rparr>)))"

section \<open>The mutex\<close>

text \<open>A \<^verbatim>\<open>std::unique_lock\<close>; to lock a \<^verbatim>\<open>std::mutex\<close> again is undefined.\<close>

definition async_lock :: "tid \<Rightarrow> ('c, 'p, 'f, 'time, 'dur, 'r, unit) async_prog" where
  "async_lock t s =
     (case async_mtx s of
        None \<Rightarrow> (Return (), s\<lparr>async_mtx := Some t\<rparr>)
      | Some u \<Rightarrow> (if u = t then Undefined else Block, s))"

definition async_try_lock :: "tid \<Rightarrow> ('c, 'p, 'f, 'time, 'dur, 'r, bool) async_prog" where
  "async_try_lock t s =
     (if async_mtx s = Some t then (Undefined, s)
      else (case mtx_try t (async_mtx s) of (owns, m) \<Rightarrow> (Return owns, s\<lparr>async_mtx := m\<rparr>)))"

definition async_unlock ::
    "('c, 'p, 'f, 'time, 'dur, 'r) async_handler \<Rightarrow> ('c, 'p, 'f, 'time, 'dur, 'r) async_handler" where
  "async_unlock s = s\<lparr>async_mtx := None\<rparr>"

section \<open>\<^verbatim>\<open>trigger_async_callback\<close>\<close>

text \<open>
  \<^verbatim>\<open>1'000'000'000 / exec_rate\<close>, an unsigned division of 32 bits, which is undefined for 0, and
  \<^verbatim>\<open>clock->now()\<close>, undefined for a null clock.
\<close>

definition period_ns :: "32 word \<Rightarrow> int outcome" where
  "period_ns rate = (if rate = 0 then Undefined else Return (uint (1000000000 div rate)))"

definition read_clock :: "('c, 'time, 'dur, 'r) async_lib \<Rightarrow> 'c option \<Rightarrow> 'time outcome" where
  "read_clock L c = (case c of None \<Rightarrow> Undefined | Some c \<Rightarrow> Return (clock_now L c))"

definition resume ::
    "('c, 'time, 'dur, 'r) async_lib \<Rightarrow> ('c, 'p, 'f, 'time, 'dur, 'r, unit) async_prog" where
  "resume L =
     bindp (modify (\<lambda>s. s\<lparr>pause_thread := False, callback_return := T_default L\<rparr>)) (\<lambda>_.
     bindp (\<lambda>s. (period_ns (exec_rate (params s)), s)) (\<lambda>sync_period.
     bindp (\<lambda>s. (read_clock L (clock (params s)), s)) (\<lambda>now.
       modify (previous_time_update (\<lambda>_. time_before L now sync_period)))))"

text \<open>The predicate is the user's: it returns a value or throws.\<close>

definition call_predicate ::
    "('p \<Rightarrow> bool outcome) \<Rightarrow> ('c, 'p, 'f, 'time, 'dur, 'r, bool) async_prog" where
  "call_predicate run s =
     (case predicate_fn s of None \<Rightarrow> (Throw Bad_function_call, s) | Some p \<Rightarrow> (run p, s))"

definition accept_trigger ::
    "('p \<Rightarrow> bool outcome) \<Rightarrow> 'time \<Rightarrow> 'dur \<Rightarrow> ('c, 'p, 'f, 'time, 'dur, 'r, bool) async_prog" where
  "accept_trigger run time period =
     bindp (get_state trigger_in_progress) (\<lambda>busy.
       if busy then ret False
       else bindp (call_predicate run) (\<lambda>wanted.
         if \<not> wanted then ret False
         else bindp (modify (\<lambda>s. s\<lparr>trigger_in_progress := True, callback_time := time,
                callback_period := period\<rparr>)) (\<lambda>_. ret True)))"

definition trigger_async_callback ::
    "('c, 'time, 'dur, 'r) async_lib \<Rightarrow> ('p \<Rightarrow> bool outcome) \<Rightarrow> tid \<Rightarrow> 'time \<Rightarrow> 'dur \<Rightarrow>
      ('c, 'p, 'f, 'time, 'dur, 'r, bool \<times> 'r) async_prog" where
  "trigger_async_callback L run t time period s =
     (if \<not> is_initialized s
      then (Throw (Runtime_error ''AsyncFunctionHandler: need to be initialized first!''), s)
      else (case exception_ptr s of
        Some e \<Rightarrow> (Throw e, s)
      | None \<Rightarrow>
          if scheduling_policy (params s) = DETACHED
          then bindp (if pause_thread s then guarded (async_lock t) async_unlock (resume L) else ret ())
                 (\<lambda>_. bindp (get_state callback_return) (\<lambda>r. ret (True, r))) s
          else if \<not> is_running s
          then (Throw (Runtime_error (''AsyncFunctionHandler: need to start the async callback thread '' @
                  ''first before triggering!'')), s)
          else bindp (async_try_lock t) (\<lambda>owns.
                 bindp (if owns then guarded (ret ()) async_unlock (accept_trigger run time period)
                        else ret False) (\<lambda>status.
                 bindp (get_state callback_return) (\<lambda>r. ret (status, r)))) s))"

section \<open>Reset, wait, pause\<close>

definition reset_variables ::
    "('c, 'time, 'dur, 'r) async_lib \<Rightarrow> tid \<Rightarrow> ('c, 'p, 'f, 'time, 'dur, 'r, unit) async_prog" where
  "reset_variables L t =
     guarded (async_lock t) async_unlock
       (modify (\<lambda>s. s\<lparr>stop_async_callback := False, trigger_in_progress := False,
          callback_time := time_zero L, callback_period := dur_zero L, last_execution_time := 0,
          callback_return := T_default L, exception_ptr := None\<rparr>))"

text \<open>
  The wait on \<^verbatim>\<open>cycle_end_condition_\<close> returns at once if no cycle is in progress, and otherwise
  releases the mutex and waits.
\<close>

definition wait_for_trigger_cycle_to_finish :: "tid \<Rightarrow> ('c, 'p, 'f, 'time, 'dur, 'r, bool) async_prog" where
  "wait_for_trigger_cycle_to_finish t =
     bindp (get_state is_running) (\<lambda>running.
       if running
       then guarded (async_lock t) async_unlock
              (\<lambda>s. if trigger_in_progress s then (Block, async_unlock s) else (Return True, s))
       else ret False)"

definition pause_execution :: "tid \<Rightarrow> ('c, 'p, 'f, 'time, 'dur, 'r, bool) async_prog" where
  "pause_execution t s =
     (if scheduling_policy (params s) = SYNCHRONIZED
      then wait_for_trigger_cycle_to_finish t (s\<lparr>pause_thread := True\<rparr>)
      else if is_running s
      then guarded (async_lock t) async_unlock (ret True) (s\<lparr>pause_thread := True\<rparr>)
      else (Return (pause_thread s), s))"

section \<open>\<^verbatim>\<open>start_thread\<close>\<close>

text \<open>
  The system has resources for the thread: the \<^verbatim>\<open>std::system_error\<close> that the constructor of
  \<^verbatim>\<open>std::thread\<close> throws otherwise, after the variables are reset, is not modelled.
\<close>

definition start_thread ::
    "('c, 'time, 'dur, 'r) async_lib \<Rightarrow> tid \<Rightarrow> ('c, 'p, 'f, 'time, 'dur, 'r, unit) async_prog" where
  "start_thread L t s =
     (if \<not> is_initialized s
      then (Throw (Runtime_error ''AsyncFunctionHandler: need to be initialized first!''), s)
      else if \<not> joinable s
      then bindp (reset_variables L t) (\<lambda>_. modify (joinable_update (\<lambda>_. True))) s
      else (Return (), s))"

text \<open>
  What the new thread does first: scheduling, affinity and name, each with the lines it logs, then
  one of the two loops. An exception that leaves the thread's function ends the process.
\<close>

fun join_cores :: "int list \<Rightarrow> string" where
  "join_cores [] = []"
| "join_cores [c] = to_string c"
| "join_cores (c # cs) = to_string c @ '', '' @ join_cores cs"

definition worker_setup ::
    "('w, 'h, 'k) os_api \<Rightarrow> ('c, 'p) async_params \<Rightarrow> int \<Rightarrow> 'w \<Rightarrow> string list \<times> 'w" where
  "worker_setup api p priority w =
     (case configure_sched_fifo api priority w of (fifo, w1) \<Rightarrow>
      case (if cpu_affinity_cores p = [] then ([], w1)
            else (case set_current_thread_affinity api (cpu_affinity_cores p) w1 of ((ok, msg), w2) \<Rightarrow>
              ([if \<not> ok
                then ''Could not set CPU affinity for the async worker thread. Error: '' @ msg
                else ''Async worker thread successfully pinned to Cores: ['' @
                       join_cores (cpu_affinity_cores p) @ '']''], w2))) of (affinity, w2) \<Rightarrow>
      case (if thread_name p = [] then ([], w2)
            else (case set_current_thread_name api (thread_name p) w2 of ((ok, msg), w3) \<Rightarrow>
              ([if \<not> ok then ''Could not set thread name for the async worker thread. Error: '' @ msg
                else msg], w3))) of (name, w3) \<Rightarrow>
      ((if fifo then []
        else [''Could not enable FIFO RT scheduling policy. Consider setting up your user to do FIFO '' @
              ''RT scheduling. See '' @
              ''[https://control.ros.org/master/doc/ros2_control/controller_manager/doc/userdoc.html] '' @
              ''for details.'']) @ affinity @ name, w3))"

datatype worker_loop = Synchronized_loop | Detached_loop int

definition execute_detached_callback :: "('c, 'p) async_params \<Rightarrow> worker_loop outcome" where
  "execute_detached_callback p =
     (if clock p = None
      then Throw (Runtime_error ''AsyncFunctionHandler: Clock must be set when using DETACHED scheduling policy.'')
      else if exec_rate p = 0
      then Throw (Runtime_error (''AsyncFunctionHandler: Execution rate must be set when using '' @
             ''DETACHED scheduling policy.''))
      else (case period_ns (exec_rate p) of Return n \<Rightarrow> Return (Detached_loop n) | _ \<Rightarrow> Undefined))"

definition worker_entry :: "('c, 'p) async_params \<Rightarrow> worker_loop outcome" where
  "worker_entry p =
     (if scheduling_policy p = SYNCHRONIZED then Return Synchronized_loop
      else (case execute_detached_callback p of Throw _ \<Rightarrow> Terminate | r \<Rightarrow> r))"

lemmas async_call_defs = trigger_async_callback_def reset_variables_def start_thread_def
  wait_for_trigger_cycle_to_finish_def pause_execution_def accept_trigger_def call_predicate_def
  async_try_lock_def async_lock_def async_unlock_def is_initialized_def is_running_def guarded_def
  bindp_def

section \<open>Properties\<close>

text \<open>
  A trigger in the synchronized policy never waits and never loses the previous result: it
  returns the last result, and true exactly if it took the mutex, found no cycle in progress and
  the predicate held, in which case the time and the period are handed over; an exception of the
  predicate is passed on. In every case the mutex ends as it was.
\<close>

theorem trigger_sync_contract:
  assumes "async_function s = Some f" "predicate_fn s = Some p" "exception_ptr s = None"
    and "scheduling_policy (params s) = SYNCHRONIZED" "joinable s" "async_mtx s \<noteq> Some t"
    and "is_return (run p) \<or> is_throw (run p)"
  shows "trigger_async_callback L run t time period s =
    (if async_mtx s \<noteq> None \<or> trigger_in_progress s then (Return (False, callback_return s), s)
     else (case run p of
         Return True \<Rightarrow> (Return (True, callback_return s),
           s\<lparr>trigger_in_progress := True, callback_time := time, callback_period := period\<rparr>)
       | Return False \<Rightarrow> (Return (False, callback_return s), s)
       | Throw e \<Rightarrow> (Throw e, s)
       | _ \<Rightarrow> (Undefined, s)))"
proof -
  have keep: "s\<lparr>async_mtx := None\<rparr> = s" if "async_mtx s = None"
    using that by (cases s) simp
  have keep': "s\<lparr>async_mtx := Some u\<rparr> = s" if "async_mtx s = Some u" for u
    using that by (cases s) simp
  show ?thesis
    using assms by (cases "async_mtx s"; cases "run p")
      (auto simp: async_call_defs keep keep')
qed

text \<open>A handler for the witnesses: times and results are integers, predicates are constants.\<close>

definition demo_lib :: "(int, int, int, nat) async_lib" where
  "demo_lib = \<lparr>time_zero = 0, dur_zero = 0, T_default = 0, clock_now = (\<lambda>c. c), time_before = (-)\<rparr>"

definition demo_handler :: "(int, bool, nat, int, int, nat) async_handler" where
  "demo_handler = (handler_ctor demo_lib True 9 0)\<lparr>async_function := Some 1, joinable := True\<rparr>"

lemmas demo_handler_defs = demo_lib_def demo_handler_def handler_ctor_def default_params_def

theorem trigger_sync_contract_witness:
  "trigger_async_callback demo_lib Return 1 5 7 demo_handler =
     (Return (True, 9), demo_handler\<lparr>trigger_in_progress := True, callback_time := 5, callback_period := 7\<rparr>)"
  using trigger_sync_contract [of demo_handler 1 True 1 Return demo_lib 5 7]
  by (simp add: demo_handler_defs)

text \<open>
  After a callback failed, every trigger throws its exception again and changes nothing, until
  \<^verbatim>\<open>reset_variables\<close>; then the next trigger is accepted, with \<^verbatim>\<open>T()\<close> as the previous result.
\<close>

theorem reset_recovers:
  assumes "async_function s = Some f" "predicate_fn s = Some p" "exception_ptr s = Some e"
    and "scheduling_policy (params s) = SYNCHRONIZED" "joinable s" "async_mtx s = None"
    and "run p = Return True"
  shows "trigger_async_callback L run t time period s = (Throw e, s) \<and>
    bindp (reset_variables L t) (\<lambda>_. trigger_async_callback L run t time period) s =
      (Return (True, T_default L),
       s\<lparr>stop_async_callback := False, last_execution_time := 0, callback_return := T_default L,
         exception_ptr := None, trigger_in_progress := True, callback_time := time,
         callback_period := period\<rparr>)"
  using assms by (cases s) (simp add: async_call_defs)

theorem reset_recovers_witness:
  "fst (trigger_async_callback demo_lib Return 1 5 7 (demo_handler\<lparr>exception_ptr := Some (User_exn 3)\<rparr>)) =
     Throw (User_exn 3) \<and>
   fst (bindp (reset_variables demo_lib 1) (\<lambda>_. trigger_async_callback demo_lib Return 1 5 7)
     (demo_handler\<lparr>exception_ptr := Some (User_exn 3)\<rparr>)) = Return (True, 0)"
  using reset_recovers [of "demo_handler\<lparr>exception_ptr := Some (User_exn 3)\<rparr>" 1 True "User_exn 3"
      Return demo_lib 1 5 7]
  by (simp add: demo_handler_defs)

lemma init_params_valid:
  assumes "fst (validate p) = Return b" "trigger_predicate p = Some q" "callback = Some f" "\<not> joinable s"
  shows "init_params callback p s = (Return (), s\<lparr>async_function := callback, thread_prio := thread_priority p,
    predicate_fn := Some q, params := p, pause_thread := wait_until_initial_trigger p\<rparr>)"
  using assms by (simp add: init_params_def init_predicate_def init_callback_def bindp_def)

text \<open>
  From parameters that \<^verbatim>\<open>validate\<close> accepts, with the synchronized policy, \<^verbatim>\<open>init\<close>, \<^verbatim>\<open>start_thread\<close>
  and a trigger whose predicate holds succeed and leave exactly one cycle in progress; the worker
  enters the synchronized loop; a second \<^verbatim>\<open>start_thread\<close> does nothing and a second \<^verbatim>\<open>init\<close> is refused
  without effect.
\<close>

theorem init_start_trigger:
  assumes "fst (validate p) = Return True" "scheduling_policy p = SYNCHRONIZED"
    and "trigger_predicate p = Some q" "run q = Return True"
    and "\<not> joinable s" "async_mtx s = None"
  shows "\<exists>s'. bindp (init_params (Some f) p) (\<lambda>_. bindp (start_thread L t) (\<lambda>_.
      trigger_async_callback L run t time period)) s = (Return (True, T_default L), s') \<and>
    worker_entry (params s') = Return Synchronized_loop \<and>
    trigger_in_progress s' \<and> callback_time s' = time \<and> callback_period s' = period \<and>
    \<not> stop_async_callback s' \<and> exception_ptr s' = None \<and> async_mtx s' = None \<and>
    start_thread L t s' = (Return (), s') \<and> is_throw (fst (init_params (Some g) p s')) \<and>
    snd (init_params (Some g) p s') = s'"
proof -
  have init: "bindp (init_params (Some f) p) k s = k () (s\<lparr>async_function := Some f,
      thread_prio := thread_priority p, predicate_fn := Some q, params := p,
      pause_thread := wait_until_initial_trigger p\<rparr>)" for k
    by (rule bindp_simps(1)) (rule init_params_valid [OF assms(1,3) refl assms(5)])
  show ?thesis
    using assms by (cases s)
      (simp add: init async_call_defs worker_entry_def init_params_def
        init_predicate_def init_callback_def)
qed

definition demo_params :: "(int, bool) async_params" where
  "demo_params = default_params True"

theorem init_start_trigger_witness:
  "\<exists>s'. bindp (init_params (Some 1) demo_params) (\<lambda>_. bindp (start_thread demo_lib 1) (\<lambda>_.
      trigger_async_callback demo_lib Return 1 5 7)) (demo_handler\<lparr>joinable := False\<rparr>) =
      (Return (True, 0), s') \<and> trigger_in_progress s' \<and> callback_time s' = 5"
  using init_start_trigger [of demo_params True Return "demo_handler\<lparr>joinable := False\<rparr>" 1 demo_lib 1 5 7]
  by (force simp: demo_params_def demo_handler_defs validate_def)

lemma period_ns_bounds:
  "0 < rate \<Longrightarrow> period_ns rate = Return (1000000000 div uint rate)"
  by (auto simp: period_ns_def uint_div_distrib)

text \<open>
  With the detached policy a trigger never asks the predicate: it resumes a paused worker with
  \<^verbatim>\<open>T()\<close> as the result and the previous time one period before now, and otherwise returns the last
  result; the period is 10^9 ns divided by the rate, rounded down.
\<close>

theorem detached_trigger:
  assumes "async_function s = Some f" "predicate_fn s = Some q" "exception_ptr s = None"
    and "scheduling_policy (params s) = DETACHED" "clock (params s) = Some c" "0 < exec_rate (params s)"
    and "async_mtx s = None"
  shows "trigger_async_callback L run t time period s =
    (if pause_thread s
     then (Return (True, T_default L), s\<lparr>pause_thread := False, callback_return := T_default L,
        previous_time := time_before L (clock_now L c) (1000000000 div uint (exec_rate (params s)))\<rparr>)
     else (Return (True, callback_return s), s))"
  using assms by (cases s) (simp add: async_call_defs resume_def period_ns_bounds read_clock_def)

definition demo_detached :: "(int, bool, nat, int, int, nat) async_handler" where
  "demo_detached = demo_handler\<lparr>pause_thread := True,
     params := demo_params\<lparr>scheduling_policy := DETACHED, clock := Some 1000, exec_rate := 3\<rparr>\<rparr>"

theorem detached_trigger_witness:
  "previous_time (snd (trigger_async_callback demo_lib Return 1 5 7 demo_detached)) = 1000 - 333333333"
  using detached_trigger [of demo_detached 1 True 1000 demo_lib Return 1 5 7]
  by (simp add: demo_detached_def demo_params_def demo_handler_defs)

text \<open>
  C39. \<^verbatim>\<open>init\<close> ignores the answer of \<^verbatim>\<open>validate\<close>: parameters for the detached policy without a clock or
  a rate are refused by \<^verbatim>\<open>validate\<close> and accepted by \<^verbatim>\<open>init\<close>; then the worker ends the process with an
  exception, and, as long as the handler is paused, a trigger divides by zero or dereferences null.
\<close>

theorem init_ignores_validation:
  assumes "0 \<le> thread_priority p" "thread_priority p \<le> 99" "scheduling_policy p = DETACHED"
    and "clock p = None \<or> exec_rate p = 0" "trigger_predicate p = Some q"
    and "\<not> joinable s" "async_mtx s = None" "exception_ptr s = None"
  shows "fst (validate p) = Return False \<and>
    (\<exists>s'. init_params (Some f) p s = (Return (), s') \<and> is_initialized s' \<and>
      worker_entry (params s') = Terminate \<and>
      (pause_thread s' \<longrightarrow> fst (trigger_async_callback L run t time period s') = Undefined))"
proof -
  have v: "fst (validate p) = Return False" using assms(1-4) by (auto simp: validate_def)
  note init = init_params_valid [OF v assms(5) refl assms(6), of f]
  have "worker_entry p = Terminate"
    using assms(3,4) by (auto simp: worker_entry_def execute_detached_callback_def)
  moreover have "fst (trigger_async_callback L run t time period (s\<lparr>async_function := Some f,
      thread_prio := thread_priority p, predicate_fn := Some q, params := p, pause_thread := True\<rparr>)) = Undefined"
    using assms(3,4,7,8) by (auto simp: async_call_defs resume_def period_ns_def read_clock_def)
  ultimately show ?thesis using v by (auto simp: init is_initialized_def)
qed

theorem init_ignores_validation_witness:
  "fst (validate (demo_params\<lparr>scheduling_policy := DETACHED\<rparr>)) = Return False \<and>
   (\<exists>s'. init_params (Some 1) (demo_params\<lparr>scheduling_policy := DETACHED\<rparr>)
      (demo_handler\<lparr>joinable := False\<rparr>) = (Return (), s') \<and>
    fst (trigger_async_callback demo_lib Return 1 5 7 s') = Undefined)"
proof -
  have p: "pause_thread s'"
    if "init_params (Some 1) (demo_params\<lparr>scheduling_policy := DETACHED\<rparr>)
      (demo_handler\<lparr>joinable := False\<rparr>) = (Return (), s')" for s'
    using that by (auto simp: init_params_def init_predicate_def init_callback_def bindp_def
        demo_params_def demo_handler_defs validate_def split: prod.splits outcome.splits)
  show ?thesis
    using init_ignores_validation [of "demo_params\<lparr>scheduling_policy := DETACHED\<rparr>" True
        "demo_handler\<lparr>joinable := False\<rparr>" 1 demo_lib Return 1 5 7] p
    by (auto simp: demo_params_def demo_handler_defs)
qed

end
