(* ===== verification/Async_Worker.thy ===== *)
theory Async_Worker
  imports RT_Prelude
begin

text \<open>
  The worker thread of \<^verbatim>\<open>AsyncFunctionHandler\<close> under the synchronized policy, together with any
  number of clients that trigger it, wait for it, pause it, stop it and reset it
  (\<^verbatim>\<open>async_function_handler.hpp\<close>): every interleaving of their accesses to the shared members. The
  callback and the predicate are the user's: each call of them returns any value or throws. They
  do not call the handler themselves.
\<close>

section \<open>The state\<close>

datatype worker_id = Worker | Client tid

text \<open>
  Where the worker is in \<^verbatim>\<open>execute_synchronized_callback\<close>. From \<open>WPred\<close> to \<open>WBlock\<close> and from \<open>WPred\<close>
  to \<open>WUnlock\<close> it holds \<^verbatim>\<open>async_mtx_\<close>. \<open>WClear called\<close> is the end of the block, after a cycle that called
  the callback or not.
\<close>

datatype 'r worker_pc =
    WTest | WLock | WPred | WBlock | WWait | WRelock
  | WStop | WCall | WStore 'r | WThrow exn | WThrown exn | WTime | WClear bool
  | WUnlock | WNotify | WDone

text \<open>
  Where a client is: \<open>T\<close> in \<^verbatim>\<open>trigger_async_callback\<close> with the arguments, \<open>V\<close> in
  \<^verbatim>\<open>wait_for_trigger_cycle_to_finish\<close>, \<open>S\<close> in \<^verbatim>\<open>stop_thread\<close>, \<open>J\<close> in
  \<^verbatim>\<open>join_async_callback_thread\<close>, \<open>R\<close> in \<^verbatim>\<open>reset_variables\<close>. \<open>TRace\<close> is a read of
  \<^verbatim>\<open>async_exception_ptr_\<close> in the middle of a write to it.
\<close>

datatype ('a, 'r) client_pc =
    Idle
  | TExc 'a | TRun 'a | TTry 'a | TCheck 'a bool | TPred 'a | TSet 'a | TUnlock | TNotify | TLate
  | TRead bool | TRel bool 'r | TUnwind exn | TRet bool 'r | TFail exn | TRace
  | VRun | VLock | VPred | VWait | VRelock | VUnlock | VRet bool
  | SRun | SStore | SLock | SUnlock | SNotify | SJoin | SThrow exn
  | JRun
  | RLock | RSet | REnd | RUnlock

text \<open>
  The members. \<open>args\<close> stands for \<^verbatim>\<open>current_callback_time_\<close> and \<^verbatim>\<open>current_callback_period_\<close>. Four
  fields are history: the arguments of the accepted triggers, in order; the finished triggers with
  whether the callback was called for them; whether a stop or a reset was begun; and whether a
  reset was.
\<close>

record ('a, 'r) async =
  a_mtx :: "worker_id std_mutex"
  stop_flag :: bool
  in_progress :: bool
  paused :: bool
  args :: 'a
  last_return :: 'r
  last_time :: int
  exc_slot :: "exn option content"
  thread_joinable :: bool
  worker :: "'r worker_pc"
  clients :: "tid \<Rightarrow> ('a, 'r) client_pc"
  accepted :: "'a list"
  finished :: "('a \<times> bool) list"
  cancelled :: bool
  was_reset :: bool

definition at_client :: "tid \<Rightarrow> ('a, 'r) client_pc \<Rightarrow> ('a, 'r) async \<Rightarrow> ('a, 'r) async" where
  [effect_defs]: "at_client i p s = s\<lparr>clients := (clients s)(i := p)\<rparr>"

text \<open>After \<^verbatim>\<open>start_thread\<close>: the variables are reset, the worker is about to enter its loop.\<close>

definition async_init :: "('a, 'r) async \<Rightarrow> bool" where
  "async_init s \<longleftrightarrow> a_mtx s = None \<and> \<not> stop_flag s \<and> \<not> in_progress s \<and> exc_slot s = Whole None \<and>
     thread_joinable s \<and> worker s = WTest \<and> clients s = (\<lambda>_. Idle) \<and>
     accepted s = [] \<and> finished s = [] \<and> \<not> cancelled s \<and> \<not> was_reset s"

section \<open>The worker\<close>

text \<open>
  \<^verbatim>\<open>cycle_end_condition_.notify_all()\<close> wakes every waiting client;
  \<^verbatim>\<open>async_callback_condition_.notify_one()\<close> can only find the worker.
\<close>

fun woken :: "('a, 'r) client_pc \<Rightarrow> ('a, 'r) client_pc" where
  "woken VWait = VRelock"
| "woken p = p"

definition notify_waiters :: "('a, 'r) async \<Rightarrow> ('a, 'r) async" where
  [effect_defs]: "notify_waiters s = s\<lparr>clients := woken \<circ> clients s\<rparr>"

definition notify_worker :: "('a, 'r) async \<Rightarrow> ('a, 'r) async" where
  [effect_defs]: "notify_worker s = (if worker s = WWait then s\<lparr>worker := WRelock\<rparr> else s)"

text \<open>A cycle that ends without a call of the callback drops the trigger, if there is one.\<close>

definition drop_trigger :: "('a, 'r) async \<Rightarrow> ('a, 'r) async" where
  [effect_defs]: "drop_trigger s =
     s\<lparr>finished := finished s @ (if in_progress s then [(args s, False)] else []), in_progress := False\<rparr>"

text \<open>
  \<^verbatim>\<open>execute_synchronized_callback\<close>. The wait is: evaluate the predicate; if it is false, release
  the lock and block; when notified, or spuriously, take the lock back and evaluate again.
  \<^verbatim>\<open>stop_async_callback_\<close> is an atomic that can change while the worker holds the mutex.
\<close>

inductive worker_step :: "('a, 'r) async \<Rightarrow> ('a, 'r) async \<Rightarrow> bool" where
  w_again: "worker s = WTest \<Longrightarrow> \<not> stop_flag s \<Longrightarrow> worker_step s (s\<lparr>worker := WLock\<rparr>)"
| w_leave: "worker s = WTest \<Longrightarrow> stop_flag s \<Longrightarrow> worker_step s (s\<lparr>worker := WDone\<rparr>)"
| w_lock: "worker s = WLock \<Longrightarrow> a_mtx s = None \<Longrightarrow>
     worker_step s (s\<lparr>a_mtx := Some Worker, worker := WPred\<rparr>)"
| w_pred: "worker s = WPred \<Longrightarrow> in_progress s \<or> stop_flag s \<Longrightarrow> worker_step s (s\<lparr>worker := WStop\<rparr>)"
| w_pred_false: "worker s = WPred \<Longrightarrow> \<not> (in_progress s \<or> stop_flag s) \<Longrightarrow>
     worker_step s (s\<lparr>worker := WBlock\<rparr>)"
| w_block: "worker s = WBlock \<Longrightarrow> worker_step s (s\<lparr>a_mtx := None, worker := WWait\<rparr>)"
| w_spurious: "worker s = WWait \<Longrightarrow> worker_step s (s\<lparr>worker := WRelock\<rparr>)"
| w_relock: "worker s = WRelock \<Longrightarrow> a_mtx s = None \<Longrightarrow>
     worker_step s (s\<lparr>a_mtx := Some Worker, worker := WPred\<rparr>)"
| w_go: "worker s = WStop \<Longrightarrow> \<not> stop_flag s \<Longrightarrow> worker_step s (s\<lparr>worker := WCall\<rparr>)"
| w_skip: "worker s = WStop \<Longrightarrow> stop_flag s \<Longrightarrow> worker_step s (s\<lparr>worker := WClear False\<rparr>)"
| w_call: "worker s = WCall \<Longrightarrow>
     worker_step s (s\<lparr>finished := finished s @ [(args s, True)], worker := WStore r\<rparr>)"
| w_call_throws: "worker s = WCall \<Longrightarrow>
     worker_step s (s\<lparr>finished := finished s @ [(args s, True)], worker := WThrow e\<rparr>)"
| w_store: "worker s = WStore r \<Longrightarrow> worker_step s (s\<lparr>last_return := r, worker := WTime\<rparr>)"
| w_throw: "worker s = WThrow e \<Longrightarrow> worker_step s (s\<lparr>exc_slot := Torn, worker := WThrown e\<rparr>)"
| w_thrown: "worker s = WThrown e \<Longrightarrow>
     worker_step s (s\<lparr>exc_slot := Whole (Some e), worker := WTime\<rparr>)"
| w_time: "worker s = WTime \<Longrightarrow> worker_step s (s\<lparr>last_time := d, worker := WClear True\<rparr>)"
| w_clear: "worker s = WClear called \<Longrightarrow>
     worker_step s ((if called then s\<lparr>in_progress := False\<rparr> else drop_trigger s)\<lparr>worker := WUnlock\<rparr>)"
| w_unlock: "worker s = WUnlock \<Longrightarrow> worker_step s (s\<lparr>a_mtx := None, worker := WNotify\<rparr>)"
| w_notify: "worker s = WNotify \<Longrightarrow> worker_step s ((notify_waiters s)\<lparr>worker := WTest\<rparr>)"

section \<open>The clients\<close>

text \<open>
  \<^verbatim>\<open>trigger_async_callback\<close>. When it does not trigger although it owns the lock, it keeps the lock
  until it has read the result. The three stores of \<open>t_set\<close> are one step: they are made with the
  lock, without which nobody reads them.
\<close>

inductive trigger_step :: "tid \<Rightarrow> ('a, 'r) async \<Rightarrow> ('a, 'r) async \<Rightarrow> bool" for i :: tid where
  t_call: "clients s i = Idle \<Longrightarrow> trigger_step i s (at_client i (TExc a) s)"
| t_exc_none: "clients s i = TExc a \<Longrightarrow> exc_slot s = Whole None \<Longrightarrow>
     trigger_step i s (at_client i (TRun a) s)"
| t_exc_some: "clients s i = TExc a \<Longrightarrow> exc_slot s = Whole (Some e) \<Longrightarrow>
     trigger_step i s (at_client i (TFail e) s)"
| t_exc_race: "clients s i = TExc a \<Longrightarrow> exc_slot s = Torn \<Longrightarrow> trigger_step i s (at_client i TRace s)"
| t_run: "clients s i = TRun a \<Longrightarrow>
     trigger_step i s (at_client i (if thread_joinable s then TTry a
       else TFail (Runtime_error (''AsyncFunctionHandler: need to start the async callback thread '' @
              ''first before triggering!''))) s)"
| t_try: "clients s i = TTry a \<Longrightarrow> mtx_try (Client i) (a_mtx s) = (owns, m) \<Longrightarrow>
     trigger_step i s (at_client i (TCheck a owns) (s\<lparr>a_mtx := m\<rparr>))"
| t_check: "clients s i = TCheck a owns \<Longrightarrow>
     trigger_step i s (at_client i (if owns \<and> \<not> in_progress s then TPred a else TRead owns) s)"
| t_pred: "clients s i = TPred a \<Longrightarrow>
     trigger_step i s (at_client i (if wanted then TSet a else TRead True) s)"
| t_pred_throws: "clients s i = TPred a \<Longrightarrow> trigger_step i s (at_client i (TUnwind e) s)"
| t_unwind: "clients s i = TUnwind e \<Longrightarrow> trigger_step i s (at_client i (TFail e) (s\<lparr>a_mtx := None\<rparr>))"
| t_set: "clients s i = TSet a \<Longrightarrow>
     trigger_step i s
       (at_client i TUnlock (s\<lparr>in_progress := True, args := a, accepted := accepted s @ [a]\<rparr>))"
| t_unlock: "clients s i = TUnlock \<Longrightarrow> trigger_step i s (at_client i TNotify (s\<lparr>a_mtx := None\<rparr>))"
| t_notify: "clients s i = TNotify \<Longrightarrow> trigger_step i s (at_client i TLate (notify_worker s))"
| t_late: "clients s i = TLate \<Longrightarrow> trigger_step i s (at_client i (TRet True (last_return s)) s)"
| t_read: "clients s i = TRead owns \<Longrightarrow>
     trigger_step i s (at_client i (TRel owns (last_return s)) s)"
| t_rel: "clients s i = TRel owns r \<Longrightarrow>
     trigger_step i s (at_client i (TRet False r) (if owns then s\<lparr>a_mtx := None\<rparr> else s))"
| t_ret: "clients s i = TRet b r \<Longrightarrow> trigger_step i s (at_client i Idle s)"
| t_fail: "clients s i = TFail e \<Longrightarrow> trigger_step i s (at_client i Idle s)"

text \<open>\<^verbatim>\<open>wait_for_trigger_cycle_to_finish\<close>, and \<^verbatim>\<open>pause_execution\<close>, which sets its flag first.\<close>

inductive wait_step :: "tid \<Rightarrow> ('a, 'r) async \<Rightarrow> ('a, 'r) async \<Rightarrow> bool" for i :: tid where
  v_call: "clients s i = Idle \<Longrightarrow> wait_step i s (at_client i VRun s)"
| v_pause: "clients s i = Idle \<Longrightarrow> wait_step i s (at_client i VRun (s\<lparr>paused := True\<rparr>))"
| v_run: "clients s i = VRun \<Longrightarrow>
     wait_step i s (at_client i (if thread_joinable s then VLock else VRet False) s)"
| v_lock: "clients s i = VLock \<Longrightarrow> a_mtx s = None \<Longrightarrow>
     wait_step i s (at_client i VPred (s\<lparr>a_mtx := Some (Client i)\<rparr>))"
| v_pred: "clients s i = VPred \<Longrightarrow> \<not> in_progress s \<Longrightarrow> wait_step i s (at_client i VUnlock s)"
| v_block: "clients s i = VPred \<Longrightarrow> in_progress s \<Longrightarrow>
     wait_step i s (at_client i VWait (s\<lparr>a_mtx := None\<rparr>))"
| v_spurious: "clients s i = VWait \<Longrightarrow> wait_step i s (at_client i VRelock s)"
| v_relock: "clients s i = VRelock \<Longrightarrow> a_mtx s = None \<Longrightarrow>
     wait_step i s (at_client i VPred (s\<lparr>a_mtx := Some (Client i)\<rparr>))"
| v_unlock: "clients s i = VUnlock \<Longrightarrow> wait_step i s (at_client i (VRet True) (s\<lparr>a_mtx := None\<rparr>))"
| v_ret: "clients s i = VRet b \<Longrightarrow> wait_step i s (at_client i Idle s)"

text \<open>
  \<^verbatim>\<open>stop_thread\<close>. Joins of two calls take place one after the other; the later one throws, as does
  every \<^verbatim>\<open>join\<close> of a joined thread.
\<close>

inductive stop_thread_step :: "tid \<Rightarrow> ('a, 'r) async \<Rightarrow> ('a, 'r) async \<Rightarrow> bool" for i :: tid where
  s_call: "clients s i = Idle \<Longrightarrow> stop_thread_step i s (at_client i SRun s)"
| s_run: "clients s i = SRun \<Longrightarrow>
     stop_thread_step i s (at_client i (if thread_joinable s then SStore else Idle) s)"
| s_store: "clients s i = SStore \<Longrightarrow>
     stop_thread_step i s (at_client i SLock (s\<lparr>stop_flag := True, cancelled := True\<rparr>))"
| s_lock: "clients s i = SLock \<Longrightarrow> a_mtx s = None \<Longrightarrow>
     stop_thread_step i s (at_client i SUnlock (s\<lparr>a_mtx := Some (Client i)\<rparr>))"
| s_unlock: "clients s i = SUnlock \<Longrightarrow> stop_thread_step i s (at_client i SNotify (s\<lparr>a_mtx := None\<rparr>))"
| s_notify: "clients s i = SNotify \<Longrightarrow> stop_thread_step i s (at_client i SJoin (notify_worker s))"
| s_join: "clients s i = SJoin \<Longrightarrow> thread_joinable s \<Longrightarrow> worker s = WDone \<Longrightarrow>
     stop_thread_step i s (at_client i Idle (s\<lparr>thread_joinable := False\<rparr>))"
| s_joined: "clients s i = SJoin \<Longrightarrow> \<not> thread_joinable s \<Longrightarrow>
     stop_thread_step i s (at_client i (SThrow joined_already) s)"
| s_throw: "clients s i = SThrow e \<Longrightarrow> stop_thread_step i s (at_client i Idle s)"

text \<open>\<^verbatim>\<open>join_async_callback_thread\<close>; the join itself is \<open>s_join\<close>.\<close>

inductive join_step :: "tid \<Rightarrow> ('a, 'r) async \<Rightarrow> ('a, 'r) async \<Rightarrow> bool" for i :: tid where
  j_call: "clients s i = Idle \<Longrightarrow> join_step i s (at_client i JRun s)"
| j_run: "clients s i = JRun \<Longrightarrow>
     join_step i s (at_client i (if thread_joinable s then SJoin else Idle) s)"

text \<open>\<^verbatim>\<open>reset_variables\<close>, called by a client; \<open>dflt\<close> is \<^verbatim>\<open>T()\<close> and \<open>zero\<close> the zero time and period.\<close>

inductive reset_step :: "'a \<Rightarrow> 'r \<Rightarrow> tid \<Rightarrow> ('a, 'r) async \<Rightarrow> ('a, 'r) async \<Rightarrow> bool"
  for zero :: 'a and dflt :: 'r and i :: tid where
  r_call: "clients s i = Idle \<Longrightarrow> reset_step zero dflt i s (at_client i RLock s)"
| r_lock: "clients s i = RLock \<Longrightarrow> a_mtx s = None \<Longrightarrow>
     reset_step zero dflt i s (at_client i RSet (s\<lparr>a_mtx := Some (Client i)\<rparr>))"
| r_set: "clients s i = RSet \<Longrightarrow>
     reset_step zero dflt i s (at_client i REnd
       ((drop_trigger s)\<lparr>stop_flag := False, args := zero, last_time := 0, last_return := dflt,
          exc_slot := Torn, cancelled := True, was_reset := True\<rparr>))"
| r_end: "clients s i = REnd \<Longrightarrow>
     reset_step zero dflt i s (at_client i RUnlock (s\<lparr>exc_slot := Whole None\<rparr>))"
| r_unlock: "clients s i = RUnlock \<Longrightarrow> reset_step zero dflt i s (at_client i Idle (s\<lparr>a_mtx := None\<rparr>))"

text \<open>Everything but a reset, and everything.\<close>

inductive calm_client :: "tid \<Rightarrow> ('a, 'r) async \<Rightarrow> ('a, 'r) async \<Rightarrow> bool" for i :: tid where
  c_trigger: "trigger_step i s t \<Longrightarrow> calm_client i s t"
| c_wait: "wait_step i s t \<Longrightarrow> calm_client i s t"
| c_stop: "stop_thread_step i s t \<Longrightarrow> calm_client i s t"
| c_join: "join_step i s t \<Longrightarrow> calm_client i s t"

inductive async_client :: "'a \<Rightarrow> 'r \<Rightarrow> tid \<Rightarrow> ('a, 'r) async \<Rightarrow> ('a, 'r) async \<Rightarrow> bool"
  for zero :: 'a and dflt :: 'r and i :: tid where
  ac_calm: "calm_client i s t \<Longrightarrow> async_client zero dflt i s t"
| ac_reset: "reset_step zero dflt i s t \<Longrightarrow> async_client zero dflt i s t"

inductive async_step :: "'a \<Rightarrow> 'r \<Rightarrow> ('a, 'r) async \<Rightarrow> ('a, 'r) async \<Rightarrow> bool"
  for zero :: 'a and dflt :: 'r where
  as_worker: "worker_step s t \<Longrightarrow> async_step zero dflt s t"
| as_client: "async_client zero dflt i s t \<Longrightarrow> async_step zero dflt s t"

section \<open>The invariant\<close>

fun w_holds :: "'r worker_pc \<Rightarrow> bool" where
  "w_holds WTest = False" | "w_holds WLock = False" | "w_holds WWait = False"
| "w_holds WRelock = False" | "w_holds WNotify = False" | "w_holds WDone = False"
| "w_holds _ = True"

fun c_holds :: "('a, 'r) client_pc \<Rightarrow> bool" where
  "c_holds (TCheck _ owns) = owns" | "c_holds (TPred _) = True" | "c_holds (TSet _) = True"
| "c_holds TUnlock = True" | "c_holds (TRead owns) = owns" | "c_holds (TRel owns _) = owns"
| "c_holds (TUnwind _) = True" | "c_holds VPred = True" | "c_holds VUnlock = True"
| "c_holds SUnlock = True" | "c_holds RSet = True" | "c_holds REnd = True" | "c_holds RUnlock = True"
| "c_holds _ = False"

definition lock_inv :: "('a, 'r) async \<Rightarrow> bool" where
  "lock_inv s \<longleftrightarrow> monitor_ok c_holds Client Worker (clients s) (w_holds (worker s)) (a_mtx s)"

interpretation aw_monitor: monitor c_holds Client Worker
  by unfold_locales (auto simp: inj_def)

text \<open>The callback was called for the trigger in progress.\<close>

fun called_pc :: "'r worker_pc \<Rightarrow> bool" where
  "called_pc (WStore _) = True" | "called_pc (WThrow _) = True" | "called_pc (WThrown _) = True"
| "called_pc WTime = True" | "called_pc (WClear called) = called" | "called_pc _ = False"

fun worker_ok :: "('a, 'r) async \<Rightarrow> 'r worker_pc \<Rightarrow> bool" where
  "worker_ok s WBlock = (\<not> in_progress s)"
| "worker_ok s WStop = (in_progress s \<or> stop_flag s)"
| "worker_ok s WCall = in_progress s"
| "worker_ok s (WClear called) = (if called then in_progress s else cancelled s)"
| "worker_ok s p = (called_pc p \<longrightarrow> in_progress s)"

text \<open>What a client relies on, given whether a cycle is in progress.\<close>

fun c_ok :: "bool \<Rightarrow> ('a, 'r) client_pc \<Rightarrow> bool" where
  "c_ok busy (TPred _) = (\<not> busy)"
| "c_ok busy (TSet _) = (\<not> busy)"
| "c_ok busy VUnlock = (\<not> busy)"
| "c_ok busy _ = True"

definition c_inv :: "('a, 'r) async \<Rightarrow> bool" where
  "c_inv s \<longleftrightarrow> (\<forall>i. c_ok (in_progress s) (clients s i))"

text \<open>The trigger that is accepted and not finished.\<close>

definition slot :: "('a, 'r) async \<Rightarrow> 'a option" where
  "slot s = (if in_progress s \<and> \<not> called_pc (worker s) then Some (args s) else None)"

definition trace_inv :: "('a, 'r) async \<Rightarrow> bool" where
  "trace_inv s \<longleftrightarrow>
     accepted s = map fst (finished s) @ (case slot s of None \<Rightarrow> [] | Some a \<Rightarrow> [a]) \<and>
     (\<not> cancelled s \<longrightarrow> list_all snd (finished s)) \<and>
     (stop_flag s \<longrightarrow> cancelled s) \<and> (was_reset s \<longrightarrow> cancelled s) \<and>
     (\<not> thread_joinable s \<longrightarrow> worker s = WDone)"

text \<open>Who owes the worker, or a waiting client, a notification.\<close>

fun trigger_notifies :: "('a, 'r) client_pc \<Rightarrow> bool" where
  "trigger_notifies TUnlock = True" | "trigger_notifies TNotify = True" | "trigger_notifies _ = False"

fun stop_notifies :: "('a, 'r) client_pc \<Rightarrow> bool" where
  "stop_notifies SLock = True" | "stop_notifies SUnlock = True" | "stop_notifies SNotify = True"
| "stop_notifies _ = False"

definition wake_inv :: "('a, 'r) async \<Rightarrow> bool" where
  "wake_inv s \<longleftrightarrow>
     (worker s = WWait \<and> in_progress s \<longrightarrow> (\<exists>i. trigger_notifies (clients s i))) \<and>
     (worker s = WWait \<and> stop_flag s \<longrightarrow> (\<exists>i. stop_notifies (clients s i))) \<and>
     (worker s = WBlock \<and> stop_flag s \<longrightarrow> (\<exists>i. clients s i = SLock))"

definition waiter_inv :: "('a, 'r) async \<Rightarrow> bool" where
  "waiter_inv s \<longleftrightarrow> (\<not> was_reset s \<longrightarrow> (\<exists>i. clients s i = VWait) \<longrightarrow>
     in_progress s \<or> worker s \<in> {WUnlock, WNotify})"

definition async_inv :: "('a, 'r) async \<Rightarrow> bool" where
  "async_inv s \<longleftrightarrow> lock_inv s \<and> worker_ok s (worker s) \<and> c_inv s \<and> trace_inv s \<and> wake_inv s \<and> waiter_inv s"

lemma async_inv_init: "async_init s \<Longrightarrow> async_inv s"
  by (simp add: async_init_def async_inv_def lock_inv_def monitor_ok_def lock_agrees_def c_inv_def trace_inv_def
      slot_def wake_inv_def waiter_inv_def)

lemma woken_holds [simp]: "c_holds (woken p) = c_holds p"
  by (cases p) simp_all

lemma woken_ok [simp]: "c_ok s (woken p) = c_ok s p"
  by (cases p) simp_all

lemma woken_notifies [simp]:
  "trigger_notifies (woken p) = trigger_notifies p" "stop_notifies (woken p) = stop_notifies p"
  by (cases p; simp)+

lemma woken_pc [simp]: "woken p \<noteq> VWait" "(woken p = SLock) = (p = SLock)"
  by (cases p; simp)+

subsection \<open>Steps of the worker\<close>

lemma worker_lock_inv: "worker_step s t \<Longrightarrow> lock_inv s \<Longrightarrow> lock_inv t"
  by (erule worker_step.cases)
    (auto simp: lock_inv_def monitor_ok_def lock_agrees_def effect_defs)

lemma worker_worker_ok:
  "worker_step s t \<Longrightarrow> worker_ok s (worker s) \<Longrightarrow> trace_inv s \<Longrightarrow> worker_ok t (worker t)"
  by (erule worker_step.cases) (auto simp: trace_inv_def effect_defs)

lemma c_ok_free: "c_ok busy p \<Longrightarrow> c_ok False p"
  by (cases p) simp_all

lemma worker_c_inv: "worker_step s t \<Longrightarrow> c_inv s \<Longrightarrow> c_inv t"
  by (erule worker_step.cases) (auto simp: c_inv_def effect_defs intro: c_ok_free)

lemma worker_trace_inv:
  "worker_step s t \<Longrightarrow> worker_ok s (worker s) \<Longrightarrow> trace_inv s \<Longrightarrow> trace_inv t"
  by (erule worker_step.cases) (auto simp: trace_inv_def slot_def effect_defs)

lemma slock_notifies: "clients s i = SLock \<Longrightarrow> \<exists>i. stop_notifies (clients s i)"
  by (rule exI [of _ i]) simp

lemma worker_wake_inv:
  "worker_step s t \<Longrightarrow> worker_ok s (worker s) \<Longrightarrow> wake_inv s \<Longrightarrow> wake_inv t"
  by (erule worker_step.cases) (auto simp: wake_inv_def effect_defs intro: slock_notifies)

lemma worker_waiter_inv: "worker_step s t \<Longrightarrow> waiter_inv s \<Longrightarrow> waiter_inv t"
  by (erule worker_step.cases) (auto simp: waiter_inv_def effect_defs)

lemma worker_step_inv: "worker_step s t \<Longrightarrow> async_inv s \<Longrightarrow> async_inv t"
  by (simp add: async_inv_def worker_lock_inv worker_worker_ok worker_c_inv worker_trace_inv
      worker_wake_inv worker_waiter_inv)

subsection \<open>Steps of a client\<close>

lemmas client_cases = trigger_step.cases wait_step.cases stop_thread_step.cases join_step.cases reset_step.cases

lemma async_client_cases:
  assumes "async_client z d i s t"
    and "trigger_step i s t \<Longrightarrow> P" "wait_step i s t \<Longrightarrow> P" "stop_thread_step i s t \<Longrightarrow> P"
    and "join_step i s t \<Longrightarrow> P" "reset_step z d i s t \<Longrightarrow> P"
  shows P
  using assms by (auto elim: async_client.cases calm_client.cases)

lemma notify_worker_frame:
  "w_holds (worker (notify_worker s)) = w_holds (worker s)"
  "clients (notify_worker s) = clients s" "a_mtx (notify_worker s) = a_mtx s"
  by (simp_all add: notify_worker_def)

lemma client_lock_inv: "async_client z d i s t \<Longrightarrow> lock_inv s \<Longrightarrow> lock_inv t"
  by (erule async_client_cases; erule client_cases) (simp_all add: at_client_def drop_trigger_def notify_worker_frame lock_inv_def aw_monitor.rules)

text \<open>A client that holds the mutex excludes the other clients and the worker.\<close>

lemma aw_others_unlocked:
  "lock_inv s \<Longrightarrow> c_holds (clients s i) \<Longrightarrow> j \<noteq> i \<Longrightarrow> \<not> c_holds (clients s j)"
  unfolding lock_inv_def by (rule aw_monitor.alone)

lemma worker_unlocked: "lock_inv s \<Longrightarrow> c_holds (clients s i) \<Longrightarrow> \<not> w_holds (worker s)"
  unfolding lock_inv_def using aw_monitor.owner by blast

lemma called_holds: "called_pc p \<Longrightarrow> w_holds p"
  by (cases p) simp_all

lemma c_ok_unlocked: "c_ok busy p \<Longrightarrow> \<not> c_holds p \<Longrightarrow> c_ok busy' p"
  by (cases p) simp_all

lemma client_c_inv:
  assumes "async_client z d i s t" "lock_inv s" "c_inv s"
  shows "c_inv t"
proof -
  have others: "c_holds (clients s i) \<Longrightarrow> j \<noteq> i \<Longrightarrow> c_ok b (clients s j)" for j b
    using aw_others_unlocked [OF assms(2)] c_ok_unlocked assms(3) unfolding c_inv_def by blast
  have all: "in_progress s = b \<Longrightarrow> c_ok b (clients s j)" for j b
    using assms(3) by (auto simp: c_inv_def)
  show ?thesis
    using assms(1) all [OF refl, of i]
    by (elim async_client_cases; elim client_cases)
      (auto simp: effect_defs c_inv_def others all)
qed

lemma worker_ok_unlocked:
  "\<not> w_holds (worker s) \<Longrightarrow> worker_ok t (worker s)"
  by (cases "worker s") auto

lemma worker_ok_frame:
  "worker_ok s p \<Longrightarrow> in_progress t = in_progress s \<Longrightarrow> (stop_flag s \<longrightarrow> stop_flag t) \<Longrightarrow>
     (cancelled s \<longrightarrow> cancelled t) \<Longrightarrow> worker_ok t p"
  by (cases p) (auto split: if_splits)

lemma client_worker_ok:
  assumes "async_client z d i s t" "lock_inv s" "worker_ok s (worker s)"
  shows "worker_ok t (worker t)"
proof -
  have "c_holds (clients s i) \<Longrightarrow> worker_ok u (worker s)" for u
    using worker_unlocked [OF assms(2)] worker_ok_unlocked by blast
  then show ?thesis
    using assms(1)
    by (elim async_client_cases; elim client_cases)
      (auto simp: effect_defs intro: worker_ok_frame [OF assms(3)])
qed

lemma client_trace_inv:
  assumes "async_client z d i s t" "lock_inv s" "c_inv s" "trace_inv s"
  shows "trace_inv t"
proof -
  have w: "c_holds (clients s i) \<Longrightarrow> \<not> called_pc (worker s)"
    using worker_unlocked [OF assms(2)] called_holds by blast
  have "c_ok (in_progress s) (clients s i)" using assms(3) by (simp add: c_inv_def)
  then show ?thesis
    using assms(1) w assms(4)
    by (elim async_client_cases; elim client_cases)
      (auto simp: effect_defs trace_inv_def slot_def)
qed

definition wake_at :: "bool \<Rightarrow> bool \<Rightarrow> bool \<Rightarrow> ('a, 'r) async \<Rightarrow> bool" where
  "wake_at trig stp slk s \<longleftrightarrow> (worker s = WWait \<and> in_progress s \<longrightarrow> trig) \<and>
     (worker s = WWait \<and> stop_flag s \<longrightarrow> stp) \<and> (worker s = WBlock \<and> stop_flag s \<longrightarrow> slk)"

lemma wake_inv_at:
  "wake_inv s = wake_at (\<exists>j. trigger_notifies (clients s j)) (\<exists>j. stop_notifies (clients s j))
     (\<exists>j. clients s j = SLock) s"
  by (simp add: wake_inv_def wake_at_def)

lemma client_wake_inv:
  assumes "async_client z d i s t" "lock_inv s" "wake_inv s"
  shows "wake_inv t"
proof -
  have w: "c_holds (clients s i) \<Longrightarrow> worker s \<noteq> WBlock"
    using worker_unlocked [OF assms(2)] by (metis w_holds.simps(8))
  have lk: "a_mtx s = None \<Longrightarrow> worker s \<noteq> WBlock"
    using assms(2) aw_monitor.free by (fastforce simp: lock_inv_def)
  note old = assms(3) [unfolded wake_inv_at ex_client_split [of _ "clients s" i]
      ex_client_split [of "\<lambda>p. p = SLock" "clients s" i]]
  note new = ex_client_upd [of trigger_notifies] ex_client_upd [of stop_notifies]
    ex_client_upd [of "\<lambda>p. p = SLock"]
  show ?thesis
    using assms(1)
    by (elim async_client_cases; elim client_cases; insert old lk w)
      (simp_all add: wake_inv_at effect_defs new wake_at_def del: fun_upd_apply)
qed


lemma client_waiter_inv:
  assumes "async_client z d i s t" "lock_inv s" "waiter_inv s"
  shows "waiter_inv t"
proof -
  have w: "c_holds (clients s i) \<Longrightarrow> \<not> w_holds (worker s)"
    using worker_unlocked [OF assms(2)] by blast
  note old = assms(3) [unfolded waiter_inv_def ex_client_split [of "\<lambda>p. p = VWait" "clients s" i]]
  note new = ex_client_upd [of "\<lambda>p. p = VWait"]
  show ?thesis
    using assms(1)
    by (elim async_client_cases; elim client_cases; insert old w)
      (simp_all add: waiter_inv_def effect_defs new del: fun_upd_apply, auto)
qed

lemma aw_client_step_inv: "async_client z d i s t \<Longrightarrow> async_inv s \<Longrightarrow> async_inv t"
  by (simp add: async_inv_def client_lock_inv client_worker_ok client_c_inv client_trace_inv
      client_wake_inv client_waiter_inv)

interpretation asyncm: safety async_init "async_step z d" async_inv for z d
proof
  show "async_init s \<Longrightarrow> async_inv s" for s :: "('a, 'b) async"
    by (rule async_inv_init)
  show "async_inv s \<Longrightarrow> async_step z d s t \<Longrightarrow> async_inv t" for s t :: "('a, 'b) async"
    by (auto elim!: async_step.cases intro: worker_step_inv aw_client_step_inv)
qed

abbreviation async_reach :: "'a \<Rightarrow> 'r \<Rightarrow> ('a, 'r) async \<Rightarrow> bool" where
  "async_reach z d \<equiv> reach async_init (async_step z d)"

lemmas async_reach_inv = asyncm.reach_inv

lemma async_invD:
  assumes "async_inv s"
  shows "lock_inv s" "worker_ok s (worker s)" "c_ok (in_progress s) (clients s i)" "trace_inv s"
    "wake_inv s" "waiter_inv s"
  using assms by (simp_all add: async_inv_def c_inv_def)

section \<open>The specification\<close>

text \<open>
  What the class promises its clients: a cell with room for one trigger. An accepted trigger is
  served, with its own arguments, or dropped, but dropped only once the cell is being closed by a
  stop or a reset.
\<close>

record 'a cell =
  waiting :: "'a option"
  served :: "('a \<times> bool) list"
  closing :: bool

inductive cell_step :: "'a cell \<Rightarrow> 'a cell \<Rightarrow> bool" where
  cell_put: "waiting c = None \<Longrightarrow> cell_step c (c\<lparr>waiting := Some a\<rparr>)"
| cell_serve: "waiting c = Some a \<Longrightarrow> cell_step c (c\<lparr>waiting := None, served := served c @ [(a, True)]\<rparr>)"
| cell_drop: "waiting c = Some a \<Longrightarrow>
     cell_step c (c\<lparr>waiting := None, served := served c @ [(a, False)], closing := True\<rparr>)"
| cell_close: "cell_step c (c\<lparr>closing := True\<rparr>)"

definition cell_init :: "'a cell \<Rightarrow> bool" where
  "cell_init c \<longleftrightarrow> c = \<lparr>waiting = None, served = [], closing = False\<rparr>"

definition cell_abs :: "('a, 'r) async \<Rightarrow> 'a cell" where
  "cell_abs s = \<lparr>waiting = slot s, served = finished s, closing = cancelled s\<rparr>"

lemma cell_puts: "waiting c = None \<Longrightarrow> c' = c\<lparr>waiting := Some a\<rparr> \<Longrightarrow> cell_step c c'"
  by (simp add: cell_put)

lemma cell_serves:
  "waiting c = Some a \<Longrightarrow> c' = c\<lparr>waiting := None, served := served c @ [(a, True)]\<rparr> \<Longrightarrow> cell_step c c'"
  by (simp add: cell_serve)

lemma cell_drops:
  "waiting c = Some a \<Longrightarrow>
     c' = c\<lparr>waiting := None, served := served c @ [(a, False)], closing := True\<rparr> \<Longrightarrow> cell_step c c'"
  by (simp add: cell_drop)

lemma cell_closes: "c' = c\<lparr>closing := True\<rparr> \<Longrightarrow> cell_step c c'"
  by (simp add: cell_close)

lemma worker_step_abs:
  assumes "worker_step s t" "worker_ok s (worker s)"
  shows "cell_abs t = cell_abs s \<or> cell_step (cell_abs s) (cell_abs t)"
  using assms
proof cases
  case (w_call r)
  with assms(2) show ?thesis
    by (intro disjI2 cell_serves [where a = "args s"]) (simp_all add: cell_abs_def slot_def)
next
  case (w_call_throws e)
  with assms(2) show ?thesis
    by (intro disjI2 cell_serves [where a = "args s"]) (simp_all add: cell_abs_def slot_def)
next
  case (w_clear called)
  show ?thesis
  proof (cases "in_progress s \<and> \<not> called")
    case True
    with w_clear assms(2) show ?thesis
      by (intro disjI2 cell_drops [where a = "args s"]) (simp_all add: cell_abs_def slot_def effect_defs)
  next
    case False
    with w_clear assms(2) show ?thesis
      by (intro disjI1) (auto simp: cell_abs_def slot_def effect_defs)
  qed
qed (auto simp: cell_abs_def slot_def effect_defs)

lemma aw_client_step_abs:
  assumes "async_client z d i s t" "lock_inv s" "c_ok (in_progress s) (clients s i)"
  shows "cell_abs t = cell_abs s \<or> cell_step (cell_abs s) (cell_abs t)"
proof -
  have w: "c_holds (clients s i) \<Longrightarrow> \<not> called_pc (worker s)"
    using worker_unlocked [OF assms(2)] called_holds by blast
  show ?thesis
    using assms(1)
  proof (rule async_client_cases)
    assume "trigger_step i s t"
    then show ?thesis
    proof cases
      case (t_set a)
      with assms(3) w show ?thesis
        by (intro disjI2 cell_puts [where a = a]) (simp_all add: cell_abs_def slot_def effect_defs)
    qed (simp_all add: cell_abs_def slot_def effect_defs)
  next
    assume "wait_step i s t"
    then show ?thesis by cases (simp_all add: cell_abs_def slot_def effect_defs)
  next
    assume "stop_thread_step i s t"
    then show ?thesis
    proof cases
      case s_store
      then show ?thesis
        by (intro disjI2 cell_closes) (simp add: cell_abs_def slot_def effect_defs)
    qed (simp_all add: cell_abs_def slot_def effect_defs)
  next
    assume "join_step i s t"
    then show ?thesis by cases (simp_all add: cell_abs_def slot_def effect_defs)
  next
    assume "reset_step z d i s t"
    then show ?thesis
    proof cases
      case r_set
      show ?thesis
      proof (cases "in_progress s")
        case True
        with r_set w show ?thesis
          by (intro disjI2 cell_drops [where a = "args s"])
            (simp_all add: cell_abs_def slot_def effect_defs)
      next
        case False
        with r_set show ?thesis
          by (intro disjI2 cell_closes) (simp add: cell_abs_def slot_def effect_defs)
      qed
    qed (simp_all add: cell_abs_def slot_def effect_defs)
  qed
qed

interpretation async_cell: simulation async_init "async_step z d" async_inv cell_init cell_step cell_abs
  for z d
proof
  show "cell_init (cell_abs s)" if "async_init s" for s :: "('a, 'b) async"
    using that by (simp add: async_init_def cell_init_def cell_abs_def slot_def)
  show "cell_abs t = cell_abs s \<or> cell_step (cell_abs s) (cell_abs t)"
    if inv: "async_inv s" and step: "async_step z d s t" for s t :: "('a, 'b) async"
    using step
  proof cases
    case as_worker
    then show ?thesis by (rule worker_step_abs) (rule async_invD(2) [OF inv])
  next
    case (as_client i)
    then show ?thesis
      by (rule aw_client_step_abs) (rule async_invD(1) [OF inv], rule async_invD(3) [OF inv])
  qed
qed

section \<open>Runs to show that the hypotheses can hold\<close>

text \<open>The worker waits; then client 1 has a trigger with argument 7 accepted, and the worker runs it.\<close>

definition demo_start :: "(nat, nat) async" where
  "demo_start = \<lparr>a_mtx = None, stop_flag = False, in_progress = False, paused = False, args = 0,
     last_return = 0, last_time = 0, exc_slot = Whole None, thread_joinable = True, worker = WTest,
     clients = (\<lambda>_. Idle), accepted = [], finished = [], cancelled = False, was_reset = False\<rparr>"

definition demo_waiting :: "(nat, nat) async" where
  "demo_waiting = demo_start\<lparr>worker := WWait\<rparr>"

definition demo_stored :: "(nat, nat) async" where
  "demo_stored = demo_waiting\<lparr>a_mtx := Some (Client 1), in_progress := True, args := 7,
     clients := (\<lambda>_. Idle)(1 := TUnlock), accepted := [7]\<rparr>"

definition demo_calling :: "(nat, nat) async" where
  "demo_calling = demo_stored\<lparr>a_mtx := Some Worker, worker := WCall, clients := (\<lambda>_. Idle)(1 := TLate)\<rparr>"

lemmas demo_defs = demo_start_def demo_waiting_def demo_stored_def demo_calling_def

lemmas as_calm = as_client [OF ac_calm]
lemmas as_trigger = as_calm [OF c_trigger]
lemmas as_wait = as_calm [OF c_wait]
lemmas as_stop = as_calm [OF c_stop]

lemma aw_demo_waiting_reach: "async_reach z d demo_waiting"
proof -
  have "steps (async_step z d) demo_start demo_waiting"
    apply (rule steps_step, rule as_worker, rule w_again, simp add: demo_start_def, simp add: demo_start_def)
    apply (rule steps_step, rule as_worker, rule w_lock, simp, simp add: demo_start_def)
    apply (rule steps_step, rule as_worker, rule w_pred_false, simp, simp add: demo_start_def)
    apply (rule steps_step, rule as_worker, rule w_block, simp)
    apply (rule steps_eq)
    apply (simp add: demo_defs)
    done
  then show ?thesis
    by (rule reach_steps) (simp add: reach_init async_init_def demo_start_def)
qed

lemma demo_stored_steps: "steps (async_step z d) demo_waiting demo_stored"
  unfolding demo_waiting_def demo_start_def
  apply (rule steps_step, rule as_trigger [of 1], rule t_call [where a = 7], simp, simp add: effect_defs)
  apply (rule steps_step, rule as_trigger [of 1], rule t_exc_none, simp, simp, simp add: effect_defs)
  apply (rule steps_step, rule as_trigger [of 1], rule t_run, simp, simp add: effect_defs)
  apply (rule steps_step, rule as_trigger [of 1], rule t_try, simp, simp, simp add: effect_defs)
  apply (rule steps_step, rule as_trigger [of 1], rule t_check, simp, simp add: effect_defs)
  apply (rule steps_step, rule as_trigger [of 1], rule t_pred [where wanted = True], simp, simp add: effect_defs)
  apply (rule steps_step, rule as_trigger [of 1], rule t_set, simp, simp add: effect_defs)
  apply (rule steps_eq)
  apply (simp add: demo_defs fun_eq_iff)
  done

lemma aw_demo_stored_reach: "async_reach z d demo_stored"
  by (rule reach_steps [OF demo_stored_steps aw_demo_waiting_reach])

lemma demo_calling_reach: "async_reach z d demo_calling"
proof -
  have "steps (async_step z d) demo_stored demo_calling"
    unfolding demo_stored_def demo_waiting_def demo_start_def
    apply (rule steps_step, rule as_trigger [of 1], rule t_unlock, simp, simp add: effect_defs)
    apply (rule steps_step, rule as_trigger [of 1], rule t_notify, simp, simp add: effect_defs)
    apply (rule steps_step, rule as_worker, rule w_relock, simp, simp, simp)
    apply (rule steps_step, rule as_worker, rule w_pred, simp, simp, simp)
    apply (rule steps_step, rule as_worker, rule w_go, simp, simp, simp)
    apply (rule steps_eq)
    apply (simp add: demo_defs fun_eq_iff)
    done
  then show ?thesis by (rule reach_steps) (rule aw_demo_stored_reach)
qed

section \<open>Properties\<close>

text \<open>
  C2. Every accepted trigger is carried out once: the accepted triggers are, in order, the finished
  ones and at most one that is still waiting; and without a stop or a reset the callback has been
  called, with that trigger's own arguments, for every finished one.
\<close>

theorem triggers_served_once:
  assumes "async_reach z d s"
  shows "accepted s = map fst (finished s) @ (case slot s of None \<Rightarrow> [] | Some a \<Rightarrow> [a]) \<and>
    (\<not> cancelled s \<longrightarrow> list_all snd (finished s))"
  using async_invD(4) [OF async_reach_inv [OF assms]] by (simp add: trace_inv_def)

theorem triggers_served_once_witness:
  "accepted demo_calling = [7] \<and> slot demo_calling = Some 7 \<and> finished demo_calling = []"
  using triggers_served_once [OF demo_calling_reach]
  by (simp add: demo_defs slot_def)

text \<open>
  C16. Refinement: under the map that forgets program counters, lock and condition variables, every
  step of the worker and of the clients is a step of the cell or invisible.
\<close>

theorem async_refines_cell:
  assumes "async_reach z d s"
  shows "reach cell_init cell_step (cell_abs s) \<and>
    (async_step z d s t \<longrightarrow> cell_abs t = cell_abs s \<or> cell_step (cell_abs s) (cell_abs t))"
  using async_cell.reach_abs [OF assms] async_cell.abs_step [OF async_reach_inv [OF assms]]
  by blast

theorem async_refines_cell_witness:
  "reach cell_init cell_step \<lparr>waiting = Some (7::nat), served = [], closing = False\<rparr>"
  using async_refines_cell [OF demo_calling_reach]
  by (simp add: cell_abs_def slot_def demo_defs)

definition worker_blocked :: "('a, 'r) async \<Rightarrow> bool" where
  "worker_blocked s \<longleftrightarrow> worker s = WWait \<or> worker s \<in> {WLock, WRelock} \<and> a_mtx s \<noteq> None"

lemma can_step:
  "trigger_step i s t \<Longrightarrow> \<exists>t. async_client z d i s t"
  "wait_step i s t \<Longrightarrow> \<exists>t. async_client z d i s t"
  "stop_thread_step i s t \<Longrightarrow> \<exists>t. async_client z d i s t"
  "reset_step z d i s t \<Longrightarrow> \<exists>t. async_client z d i s t"
  by (blast intro: async_client.intros calm_client.intros)+

lemma aw_holder_enabled: "c_holds (clients s i) \<Longrightarrow> \<exists>t. async_client z d i s t"
proof (cases "clients s i")
  case (TCheck a owns)
  then show ?thesis by (blast intro: can_step t_check)
next
  case VPred
  then show ?thesis by (cases "in_progress s") (blast intro: can_step v_pred v_block)+
qed (auto intro: can_step t_pred_throws t_set t_unlock t_read t_rel t_unwind v_unlock s_unlock
    r_set r_end r_unlock)

lemma aw_mutex_owner:
  assumes "lock_inv s" "a_mtx s \<noteq> None" "\<not> w_holds (worker s)"
  obtains i where "c_holds (clients s i)"
proof (rule aw_monitor.some_holder)
  show "a_mtx s \<in> insert (Some Worker) (range (Some \<circ> Client))"
    using assms(2) by (cases "a_mtx s"; cases "the (a_mtx s)") auto
qed (use assms in \<open>simp_all add: lock_inv_def\<close>)

lemma aw_notifier_enabled:
  assumes "trigger_notifies (clients s i) \<or> stop_notifies (clients s i)" "lock_inv s"
    and "\<not> w_holds (worker s)"
  shows "\<exists>j t. (c_holds (clients s j) \<or> trigger_notifies (clients s j) \<or> stop_notifies (clients s j)) \<and>
    async_client z d j s t"
proof (cases "a_mtx s")
  case None
  with assms(1) have "\<exists>t. async_client z d i s t"
    by (cases "clients s i") (auto intro: can_step t_unlock t_notify s_lock s_unlock s_notify)
  with assms(1) show ?thesis by blast
next
  case (Some u)
  then obtain j where "c_holds (clients s j)" using aw_mutex_owner [OF assms(2) _ assms(3)] by blast
  then show ?thesis using aw_holder_enabled [of s j] by blast
qed

text \<open>
  C9. No lost wake-up: whenever the worker is blocked, in its wait or for the mutex, although
  there is a trigger to run or a stop to obey, a client inside a call holds the mutex or owes the
  worker a notification, and it or the holder can take its next step.
\<close>

theorem worker_not_stranded:
  assumes "async_reach z d s" "worker_blocked s" "in_progress s \<or> stop_flag s"
  shows "\<exists>i t. (c_holds (clients s i) \<or> trigger_notifies (clients s i) \<or> stop_notifies (clients s i)) \<and>
    async_client z d i s t"
proof -
  note inv = async_invD [OF async_reach_inv [OF assms(1)]]
  have free: "\<not> w_holds (worker s)" using assms(2) by (auto simp: worker_blocked_def)
  show ?thesis
  proof (cases "worker s = WWait")
    case True
    then obtain i where "trigger_notifies (clients s i) \<or> stop_notifies (clients s i)"
      using inv(5) assms(3) unfolding wake_inv_def by blast
    then show ?thesis by (rule aw_notifier_enabled [OF _ inv(1) free])
  next
    case False
    with assms(2) have "a_mtx s \<noteq> None" by (auto simp: worker_blocked_def)
    then obtain i where "c_holds (clients s i)" using aw_mutex_owner [OF inv(1) _ free] by blast
    then show ?thesis using aw_holder_enabled [of s i] by blast
  qed
qed

theorem worker_not_stranded_witness:
  "worker_blocked demo_stored \<and> in_progress demo_stored \<and>
   (\<exists>i t. (c_holds (clients demo_stored i) \<or> trigger_notifies (clients demo_stored i) \<or>
     stop_notifies (clients demo_stored i)) \<and> async_client 0 0 i demo_stored t)"
  using worker_not_stranded [OF aw_demo_stored_reach]
  by (simp add: worker_blocked_def demo_defs)

subsection \<open>Progress\<close>

text \<open>Inside a trigger, and how many steps of its own the call has left.\<close>

fun trigger_rank :: "('a, 'r) client_pc \<Rightarrow> nat" where
  "trigger_rank (TExc _) = 9" | "trigger_rank (TRun _) = 8" | "trigger_rank (TTry _) = 7"
| "trigger_rank (TCheck _ _) = 6" | "trigger_rank (TPred _) = 5" | "trigger_rank (TSet _) = 4"
| "trigger_rank TUnlock = 3" | "trigger_rank TNotify = 2" | "trigger_rank TLate = 1"
| "trigger_rank (TUnwind _) = 1" | "trigger_rank (TRead _) = 2" | "trigger_rank (TRel _ _) = 1"
| "trigger_rank _ = 0"

definition own_trigger :: "tid \<Rightarrow> ('a, 'r) async \<Rightarrow> ('a, 'r) async \<Rightarrow> bool" where
  "own_trigger i s t \<longleftrightarrow> 0 < trigger_rank (clients s i) \<and> trigger_step i s t"

definition others_step :: "'a \<Rightarrow> 'r \<Rightarrow> tid \<Rightarrow> ('a, 'r) async \<Rightarrow> ('a, 'r) async \<Rightarrow> bool" where
  "others_step z d i s t \<longleftrightarrow> worker_step s t \<or> (\<exists>j. j \<noteq> i \<and> async_client z d j s t)"

lemma woken_rank [simp]: "trigger_rank (woken p) = trigger_rank p"
  by (cases p) simp_all

lemma aw_client_step_other: "async_client z d j s t \<Longrightarrow> j \<noteq> i \<Longrightarrow> clients t i = clients s i"
  by (erule async_client_cases; erule client_cases) (simp_all add: effect_defs)

lemma others_step_rank: "others_step z d i s t \<Longrightarrow> trigger_rank (clients t i) = trigger_rank (clients s i)"
  unfolding others_step_def
  by (elim disjE; (elim worker_step.cases)?) (auto simp: effect_defs aw_client_step_other)

lemma trigger_enabled: "0 < trigger_rank (clients s i) \<Longrightarrow> \<exists>t. trigger_step i s t"
proof (cases "clients s i")
  case (TExc a)
  then show ?thesis
    by (cases "exc_slot s") (metis t_exc_none t_exc_some option.exhaust, metis t_exc_race)
next
  case (TTry a)
  then show ?thesis by (cases "mtx_try (Client i) (a_mtx s)") (blast intro: t_try)
qed (auto intro: trigger_step.intros)

interpretation async_trigger: ranked "own_trigger i" "others_step z d i" "\<lambda>_. True"
    "\<lambda>s. trigger_rank (clients s i)" for z d i
proof
  show "trigger_rank (clients t i) < trigger_rank (clients s i)" if "own_trigger i s t"
    for s t :: "('a, 'b) async"
    using that unfolding own_trigger_def by (auto elim!: trigger_step.cases simp: effect_defs)
qed (simp_all add: others_step_rank)

text \<open>
  C25. A trigger under the synchronized policy is wait-free, apart from the user's predicate:
  whatever the others hold or do, the calling thread can take its next step, and it takes at most
  nine steps from the call to the result, even while the callback is running.
\<close>

theorem trigger_wait_free:
  assumes "own_steps (own_trigger i) (others_step z d i) n s t"
  shows "n \<le> 9 \<and> (0 < trigger_rank (clients t i) \<longrightarrow> (\<exists>u. trigger_step i t u))"
proof -
  have "trigger_rank (clients s i) \<le> 9" by (cases "clients s i") auto
  then show ?thesis
    using async_trigger.own_steps_bounded [OF assms] trigger_enabled [of t i] by auto
qed

theorem trigger_wait_free_witness:
  "(1::nat) \<le> 9 \<and> (\<exists>u. trigger_step 1 (at_client 1 TNotify (demo_stored\<lparr>a_mtx := None\<rparr>)) u)"
proof -
  have at: "clients demo_stored 1 = TUnlock" by (simp add: demo_stored_def)
  have "own_steps (own_trigger 1) (others_step 0 0 1) (Suc 0) demo_stored
      (at_client 1 TNotify (demo_stored\<lparr>a_mtx := None\<rparr>))"
    by (rule own_own [OF _ own_none]) (use at t_unlock [OF at] in \<open>simp add: own_trigger_def\<close>)
  from trigger_wait_free [OF this] show ?thesis by (simp add: at_client_def)
qed

text \<open>How many steps the worker has left once it is to stop, if the callback returns.\<close>

fun worker_rank :: "'r worker_pc \<Rightarrow> nat" where
  "worker_rank WBlock = 13" | "worker_rank WWait = 12" | "worker_rank WRelock = 11"
| "worker_rank WLock = 11" | "worker_rank WPred = 10" | "worker_rank WStop = 9"
| "worker_rank WCall = 8" | "worker_rank (WThrow _) = 7" | "worker_rank (WThrown _) = 6"
| "worker_rank (WStore _) = 6" | "worker_rank WTime = 5" | "worker_rank (WClear _) = 4"
| "worker_rank WUnlock = 3" | "worker_rank WNotify = 2" | "worker_rank WTest = 1"
| "worker_rank WDone = 0"

definition calm_step :: "('a, 'r) async \<Rightarrow> ('a, 'r) async \<Rightarrow> bool" where
  "calm_step s t \<longleftrightarrow> (\<exists>i. calm_client i s t)"

lemma calm_cases:
  assumes "calm_client i s t"
    and "trigger_step i s t \<Longrightarrow> P" "wait_step i s t \<Longrightarrow> P" "stop_thread_step i s t \<Longrightarrow> P"
    and "join_step i s t \<Longrightarrow> P"
  shows P
  using assms by (auto elim: calm_client.cases)

lemmas calm_step_cases = trigger_step.cases wait_step.cases stop_thread_step.cases join_step.cases

lemma calm_client_stop: "calm_client i s t \<Longrightarrow> stop_flag s \<Longrightarrow> stop_flag t"
  by (erule calm_cases; erule calm_step_cases) (simp_all add: effect_defs)

lemma calm_client_rank: "calm_client i s t \<Longrightarrow> worker_rank (worker t) \<le> worker_rank (worker s)"
  by (erule calm_cases; erule calm_step_cases) (simp_all add: effect_defs)

interpretation async_stop: ranked worker_step calm_step stop_flag "\<lambda>s. worker_rank (worker s)"
proof
  show "stop_flag t" if "stop_flag s" "worker_step s t" for s t :: "('a, 'b) async"
    using that(2,1) by cases (auto simp: effect_defs)
  show "worker_rank (worker t) < worker_rank (worker s)" if "stop_flag s" "worker_step s t"
    for s t :: "('a, 'b) async"
    using that(2,1) by cases (auto simp: effect_defs)
qed (auto simp: calm_step_def calm_client_stop calm_client_rank)

lemma worker_enabled:
  "worker s \<noteq> WDone \<Longrightarrow> \<not> worker_blocked s \<Longrightarrow> \<exists>t. worker_step s t"
proof (cases "worker s")
  case WTest
  then show ?thesis by (metis w_again w_leave)
next
  case WPred
  then show ?thesis by (metis w_pred w_pred_false)
next
  case WStop
  then show ?thesis by (metis w_go w_skip)
qed (auto simp: worker_blocked_def intro: worker_step.intros)

text \<open>
  C28. \<^verbatim>\<open>stop_thread\<close> ends the worker: once the flag is set, whatever the clients do short of a
  reset and however often the wait wakes spuriously, the worker takes at most thirteen more steps
  before it has returned, and short of that it is only ever held up in its wait or for the mutex.
\<close>

theorem stop_ends_worker:
  assumes "own_steps worker_step calm_step n s t" "stop_flag s"
  shows "n \<le> 13 \<and> stop_flag t \<and> (worker t = WDone \<or> worker_blocked t \<or> (\<exists>u. worker_step t u))"
proof -
  have "worker_rank (worker s) \<le> 13" by (cases "worker s") auto
  then show ?thesis
    using async_stop.own_steps_bounded [OF assms] worker_enabled [of t] by auto
qed

theorem stop_ends_worker_witness:
  "(1::nat) \<le> 13 \<and> stop_flag (demo_start\<lparr>stop_flag := True, worker := WDone\<rparr>)"
proof -
  have "own_steps worker_step calm_step (Suc 0) (demo_start\<lparr>stop_flag := True\<rparr>)
      (demo_start\<lparr>stop_flag := True, worker := WDone\<rparr>)"
    apply (rule own_own, rule w_leave, simp add: demo_start_def, simp)
    apply (simp add: demo_start_def own_none)
    done
  from stop_ends_worker [OF this] show ?thesis by simp
qed

text \<open>
  \<^verbatim>\<open>wait_for_trigger_cycle_to_finish\<close> does not miss the end of the cycle: if a client waits
  although no cycle is in progress, and nobody has reset the variables, then the worker is about
  to wake it, within two steps of its own that nothing can hold up.
\<close>

theorem waiter_is_woken:
  assumes "async_reach z d s" "clients s i = VWait" "\<not> in_progress s" "\<not> was_reset s"
  shows "\<exists>t. steps worker_step s t \<and> clients t i = VRelock"
proof -
  have "worker s = WUnlock \<or> worker s = WNotify"
    using async_invD(6) [OF async_reach_inv [OF assms(1)]] assms(2-4) by (auto simp: waiter_inv_def)
  then show ?thesis
  proof
    assume "worker s = WNotify"
    then have "steps worker_step s ((notify_waiters s)\<lparr>worker := WTest\<rparr>)"
      by (intro steps_one w_notify)
    with assms(2) show ?thesis by (force simp: effect_defs)
  next
    assume "worker s = WUnlock"
    then have "worker_step s (s\<lparr>a_mtx := None, worker := WNotify\<rparr>)" by (rule w_unlock)
    then have "steps worker_step s ((notify_waiters (s\<lparr>a_mtx := None, worker := WNotify\<rparr>))\<lparr>worker := WTest\<rparr>)"
      by (rule steps_step) (simp add: steps_one w_notify)
    with assms(2) show ?thesis by (force simp: effect_defs)
  qed
qed

text \<open>Client 2 waits for the cycle of client 1's trigger, which has just ended.\<close>

definition demo_ended :: "(nat, nat) async" where
  "demo_ended = demo_stored\<lparr>a_mtx := Some Worker, in_progress := False, last_return := 5, last_time := 3,
     worker := WUnlock, clients := (\<lambda>_. Idle)(1 := TLate, 2 := VWait), finished := [(7, True)]\<rparr>"

definition demo_waited :: "(nat, nat) async" where
  "demo_waited = demo_stored\<lparr>a_mtx := None, worker := WRelock,
     clients := (\<lambda>_. Idle)(1 := TLate, 2 := VWait)\<rparr>"

lemma demo_waited_reach: "async_reach z d demo_waited"
proof -
  have "steps (async_step z d) demo_stored demo_waited"
    unfolding demo_stored_def demo_waiting_def demo_start_def
    apply (rule steps_step, rule as_trigger [of 1], rule t_unlock, simp, simp add: effect_defs)
    apply (rule steps_step, rule as_wait [of 2], rule v_call, simp, simp add: effect_defs)
    apply (rule steps_step, rule as_wait [of 2], rule v_run, simp, simp add: effect_defs)
    apply (rule steps_step, rule as_wait [of 2], rule v_lock, simp, simp, simp add: effect_defs)
    apply (rule steps_step, rule as_wait [of 2], rule v_block, simp, simp, simp add: effect_defs)
    apply (rule steps_step, rule as_trigger [of 1], rule t_notify, simp, simp add: effect_defs)
    apply (rule steps_eq)
    apply (simp add: demo_waited_def demo_defs fun_eq_iff)
    done
  then show ?thesis by (rule reach_steps) (rule aw_demo_stored_reach)
qed

lemma demo_ended_reach: "async_reach z d demo_ended"
proof -
  have "steps (async_step z d) demo_waited demo_ended"
    unfolding demo_waited_def demo_defs
    apply (rule steps_step, rule as_worker, rule w_relock, simp, simp, simp)
    apply (rule steps_step, rule as_worker, rule w_pred, simp, simp, simp)
    apply (rule steps_step, rule as_worker, rule w_go, simp, simp, simp)
    apply (rule steps_step, rule as_worker, rule w_call [where r = 5], simp, simp)
    apply (rule steps_step, rule as_worker, rule w_store, simp, simp)
    apply (rule steps_step, rule as_worker, rule w_time [where d = 3], simp, simp)
    apply (rule steps_step, rule as_worker, rule w_clear, simp, simp)
    apply (rule steps_eq)
    apply (simp add: demo_ended_def demo_defs fun_eq_iff)
    done
  then show ?thesis by (rule reach_steps) (rule demo_waited_reach)
qed

theorem waiter_is_woken_witness:
  "clients demo_ended 2 = VWait \<and> (\<exists>t. steps worker_step demo_ended t \<and> clients t 2 = VRelock)"
  using waiter_is_woken [OF demo_ended_reach, of 2]
  by (simp add: demo_ended_def demo_stored_def demo_waiting_def demo_start_def)

subsection \<open>Defects\<close>

text \<open>
  The calls of \<^verbatim>\<open>wait_for_trigger_cycle_to_finish\<close> that have passed the test of \<^verbatim>\<open>is_running\<close> and have not
  found the cycle finished.
\<close>

fun in_wait :: "('a, 'r) client_pc \<Rightarrow> bool" where
  "in_wait VLock = True" | "in_wait VPred = True" | "in_wait VWait = True" | "in_wait VRelock = True"
| "in_wait _ = False"

inductive calm :: "('a, 'r) async \<Rightarrow> ('a, 'r) async \<Rightarrow> bool" where
  calm_worker: "worker_step s t \<Longrightarrow> calm s t"
| calm_clients: "calm_client i s t \<Longrightarrow> calm s t"

definition stranded :: "tid \<Rightarrow> ('a, 'r) async \<Rightarrow> bool" where
  "stranded i s \<longleftrightarrow> worker s = WDone \<and> in_progress s \<and> in_wait (clients s i)"

lemma calm_client_stranded:
  assumes "calm_client j s t" "stranded i s"
  shows "stranded i t"
proof (cases "j = i")
  case True
  with assms show ?thesis
    by (auto simp: stranded_def effect_defs elim!: calm_cases calm_step_cases)
next
  case False
  then have "clients t i = clients s i" using aw_client_step_other [OF ac_calm [OF assms(1)]] by blast
  with assms show ?thesis
    by (auto simp: stranded_def effect_defs elim!: calm_cases calm_step_cases split: if_splits)
qed

interpretation stranding: safety "stranded i" calm "stranded i" for i
proof
  show "stranded i t" if "stranded i s" "calm s t" for s t :: "('a, 'b) async"
    using that(2)
  proof cases
    case calm_worker
    with that(1) show ?thesis by (auto simp: stranded_def elim: worker_step.cases)
  next
    case (calm_clients j)
    then show ?thesis using that(1) by (rule calm_client_stranded)
  qed
qed

definition demo_stopped :: "(nat, nat) async" where
  "demo_stopped = demo_start\<lparr>stop_flag := True, worker := WDone, cancelled := True,
     clients := (\<lambda>_. Idle)(0 := SJoin)\<rparr>"

definition demo_stopping :: "(nat, nat) async" where
  "demo_stopping = demo_start\<lparr>stop_flag := True, worker := WRelock, cancelled := True,
     clients := (\<lambda>_. Idle)(0 := SJoin)\<rparr>"

definition demo_stranded :: "(nat, nat) async" where
  "demo_stranded = demo_start\<lparr>stop_flag := True, in_progress := True, args := 7, worker := WDone,
     cancelled := True, accepted := [7], clients := (\<lambda>_. Idle)(0 := SJoin, 1 := VWait)\<rparr>"

definition demo_late :: "(nat, nat) async" where
  "demo_late = demo_start\<lparr>stop_flag := True, in_progress := True, args := 7, worker := WDone,
     cancelled := True, accepted := [7], clients := (\<lambda>_. Idle)(0 := SJoin, 1 := TUnlock),
     a_mtx := Some (Client 1)\<rparr>"

lemma demo_stopping_steps: "steps (async_step z d) demo_waiting demo_stopping"
  unfolding demo_waiting_def demo_start_def
  apply (rule steps_step, rule as_stop [of 0], rule s_call, simp, simp add: effect_defs)
  apply (rule steps_step, rule as_stop [of 0], rule s_run, simp, simp add: effect_defs)
  apply (rule steps_step, rule as_stop [of 0], rule s_store, simp, simp add: effect_defs)
  apply (rule steps_step, rule as_stop [of 0], rule s_lock, simp, simp, simp add: effect_defs)
  apply (rule steps_step, rule as_stop [of 0], rule s_unlock, simp, simp add: effect_defs)
  apply (rule steps_step, rule as_stop [of 0], rule s_notify, simp, simp add: effect_defs)
  apply (rule steps_eq)
  apply (simp add: demo_stopping_def demo_defs fun_eq_iff)
  done

lemma demo_stopped_steps: "steps (async_step z d) demo_stopping demo_stopped"
  unfolding demo_stopping_def demo_start_def
  apply (rule steps_step, rule as_worker, rule w_relock, simp, simp, simp)
  apply (rule steps_step, rule as_worker, rule w_pred, simp, simp, simp)
  apply (rule steps_step, rule as_worker, rule w_skip, simp, simp, simp)
  apply (rule steps_step, rule as_worker, rule w_clear [where called = False], simp, simp add: effect_defs)
  apply (rule steps_step, rule as_worker, rule w_unlock, simp, simp)
  apply (rule steps_step, rule as_worker, rule w_notify, simp, simp add: effect_defs)
  apply (rule steps_step, rule as_worker, rule w_leave, simp, simp, simp)
  apply (rule steps_eq)
  apply (simp add: demo_stopped_def demo_defs fun_eq_iff)
  done

lemma demo_late_steps: "steps (async_step z d) demo_stopped demo_late"
  unfolding demo_stopped_def demo_start_def
  apply (rule steps_step, rule as_trigger [of 1], rule t_call [where a = 7], simp, simp add: effect_defs)
  apply (rule steps_step, rule as_trigger [of 1], rule t_exc_none, simp, simp, simp add: effect_defs)
  apply (rule steps_step, rule as_trigger [of 1], rule t_run, simp, simp add: effect_defs)
  apply (rule steps_step, rule as_trigger [of 1], rule t_try, simp, simp, simp add: effect_defs)
  apply (rule steps_step, rule as_trigger [of 1], rule t_check, simp, simp add: effect_defs)
  apply (rule steps_step, rule as_trigger [of 1], rule t_pred [where wanted = True], simp, simp add: effect_defs)
  apply (rule steps_step, rule as_trigger [of 1], rule t_set, simp, simp add: effect_defs)
  apply (rule steps_eq)
  apply (simp add: demo_late_def demo_defs fun_eq_iff)
  done

lemma demo_stranded_steps: "steps (async_step z d) demo_late demo_stranded"
  unfolding demo_late_def demo_start_def
  apply (rule steps_step, rule as_trigger [of 1], rule t_unlock, simp, simp add: effect_defs)
  apply (rule steps_step, rule as_trigger [of 1], rule t_notify, simp, simp add: effect_defs)
  apply (rule steps_step, rule as_trigger [of 1], rule t_late, simp, simp add: effect_defs)
  apply (rule steps_step, rule as_trigger [of 1], rule t_ret, simp, simp add: effect_defs)
  apply (rule steps_step, rule as_wait [of 1], rule v_call, simp, simp add: effect_defs)
  apply (rule steps_step, rule as_wait [of 1], rule v_run, simp, simp add: effect_defs)
  apply (rule steps_step, rule as_wait [of 1], rule v_lock, simp, simp, simp add: effect_defs)
  apply (rule steps_step, rule as_wait [of 1], rule v_block, simp, simp, simp add: effect_defs)
  apply (rule steps_eq)
  apply (simp add: demo_stranded_def demo_defs fun_eq_iff)
  done

text \<open>
  A trigger does not look at the stop flag. While one client is in \<^verbatim>\<open>stop_thread\<close> and the worker
  has already left its loop, another client's trigger is still accepted; nobody serves it, and if
  that client then waits for the cycle to finish, it waits for ever, whatever happens short of a
  reset, even after the join.
\<close>

theorem stop_can_strand_waiter:
  "\<exists>s. async_reach z d (s :: (nat, nat) async) \<and> clients s 1 = VWait \<and>
     \<not> (\<exists>t. steps calm s t \<and> \<not> in_wait (clients t 1))"
proof (intro exI [of _ demo_stranded] conjI)
  have "stranded 1 demo_stranded" by (simp add: stranded_def demo_stranded_def demo_start_def)
  then show "\<not> (\<exists>t. steps calm demo_stranded t \<and> \<not> in_wait (clients t 1))"
    using stranding.steps_inv by (auto simp: stranded_def)
  show "async_reach z d demo_stranded"
    by (rule reach_steps [OF steps_trans [OF demo_stopping_steps steps_trans [OF demo_stopped_steps
          steps_trans [OF demo_late_steps demo_stranded_steps]]] aw_demo_waiting_reach])
qed (simp add: demo_stranded_def)

text \<open>
  \<^verbatim>\<open>async_exception_ptr_\<close> is written by the worker under the mutex but read by the trigger
  without it: a trigger can read it in the middle of the worker's write, which is a data race.
\<close>

theorem exception_read_races:
  "\<exists>s. async_reach z d (s :: (nat, nat) async) \<and> clients s 0 = TRace \<and> (\<exists>e. worker s = WThrown e)"
proof -
  let ?s = "demo_calling\<lparr>finished := [(7, True)], exc_slot := Torn, worker := WThrown (User_exn 1),
    clients := (clients demo_calling)(0 := TRace)\<rparr>"
  have "steps (async_step z d) demo_calling ?s"
    unfolding demo_defs
    apply (rule steps_step, rule as_worker, rule w_call_throws [where e = "User_exn 1"], simp, simp)
    apply (rule steps_step, rule as_worker, rule w_throw, simp, simp)
    apply (rule steps_step, rule as_trigger [of 0], rule t_call [where a = 8], simp, simp add: effect_defs)
    apply (rule steps_step, rule as_trigger [of 0], rule t_exc_race, simp, simp, simp add: effect_defs)
    apply (rule steps_eq)
    apply (simp add: fun_eq_iff)
    done
  then have "async_reach z d ?s" by (rule reach_steps [OF _ demo_calling_reach])
  moreover have "clients ?s 0 = TRace" "worker ?s = WThrown (User_exn 1)" by simp_all
  ultimately show ?thesis by blast
qed

text \<open>
  \<^verbatim>\<open>reset_variables\<close> clears the stop flag. When it runs between the store of the flag in \<^verbatim>\<open>stop_thread\<close>
  and the worker's next look at it, the stop is lost: the worker goes back to its wait, and the
  join of \<^verbatim>\<open>stop_thread\<close> does not return, whatever happens short of another stop.
\<close>

inductive unstopping :: "'a \<Rightarrow> 'r \<Rightarrow> tid \<Rightarrow> ('a, 'r) async \<Rightarrow> ('a, 'r) async \<Rightarrow> bool" for z :: 'a and d :: 'r and i :: tid where
  un_worker: "worker_step s t \<Longrightarrow> unstopping z d i s t"
| un_trigger: "trigger_step j s t \<Longrightarrow> unstopping z d i s t"
| un_wait: "wait_step j s t \<Longrightarrow> unstopping z d i s t"
| un_join: "join_step j s t \<Longrightarrow> unstopping z d i s t"
| un_reset: "reset_step z d j s t \<Longrightarrow> unstopping z d i s t"
| un_own: "stop_thread_step i s t \<Longrightarrow> unstopping z d i s t"

definition forgotten :: "tid \<Rightarrow> ('a, 'r) async \<Rightarrow> bool" where
  "forgotten i s \<longleftrightarrow> worker s \<noteq> WDone \<and> \<not> stop_flag s \<and> thread_joinable s \<and> clients s i = SJoin"

interpretation forgetting: safety "forgotten i" "unstopping z d i" "forgotten i" for z d i
proof
  show "forgotten i t" if f: "forgotten i s" and step: "unstopping z d i s t" for s t :: "('a, 'b) async"
    using step
  proof cases
    case un_worker
    then show ?thesis using f by cases (simp_all add: forgotten_def effect_defs)
  next
    case (un_trigger j)
    then show ?thesis using f by cases (auto simp: forgotten_def effect_defs)
  next
    case (un_wait j)
    then show ?thesis using f by cases (auto simp: forgotten_def effect_defs)
  next
    case (un_join j)
    then show ?thesis using f by cases (auto simp: forgotten_def effect_defs)
  next
    case (un_reset j)
    then show ?thesis using f by cases (auto simp: forgotten_def effect_defs)
  next
    case un_own
    then show ?thesis using f by cases (auto simp: forgotten_def effect_defs)
  qed
qed

lemma reset_loses_stop:
  "\<exists>s. async_reach z d (s :: (nat, nat) async) \<and> clients s 0 = SJoin \<and>
     (\<forall>t. steps (unstopping z d 0) s t \<longrightarrow> clients t 0 = SJoin \<and> worker t \<noteq> WDone)"
proof -
  let ?s = "demo_start\<lparr>args := z, last_return := d, last_time := 0, cancelled := True, was_reset := True,
    worker := WRelock, clients := (\<lambda>_. Idle)(0 := SJoin)\<rparr>"
  have "steps (async_step z d) demo_waiting ?s"
    unfolding demo_waiting_def demo_start_def
    apply (rule steps_step, rule as_stop [of 0], rule s_call, simp, simp add: effect_defs)
    apply (rule steps_step, rule as_stop [of 0], rule s_run, simp, simp add: effect_defs)
    apply (rule steps_step, rule as_stop [of 0], rule s_store, simp, simp add: effect_defs)
    apply (rule steps_step, rule as_client [of _ _ 1], rule ac_reset, rule r_call, simp, simp add: effect_defs)
    apply (rule steps_step, rule as_client [of _ _ 1], rule ac_reset, rule r_lock, simp, simp, simp add: effect_defs)
    apply (rule steps_step, rule as_client [of _ _ 1], rule ac_reset, rule r_set, simp, simp add: effect_defs)
    apply (rule steps_step, rule as_client [of _ _ 1], rule ac_reset, rule r_end, simp, simp add: effect_defs)
    apply (rule steps_step, rule as_client [of _ _ 1], rule ac_reset, rule r_unlock, simp, simp add: effect_defs)
    apply (rule steps_step, rule as_stop [of 0], rule s_lock, simp, simp, simp add: effect_defs)
    apply (rule steps_step, rule as_stop [of 0], rule s_unlock, simp, simp add: effect_defs)
    apply (rule steps_step, rule as_stop [of 0], rule s_notify, simp, simp add: effect_defs)
    apply (rule steps_eq)
    apply (simp add: demo_defs fun_eq_iff)
    done
  then have "async_reach z d ?s" by (rule reach_steps) (rule aw_demo_waiting_reach)
  moreover have "forgotten 0 ?s" by (simp add: forgotten_def demo_start_def)
  ultimately show ?thesis
    using forgetting.steps_inv [of z d 0 ?s] by (fastforce simp: forgotten_def)
qed

end
