(* ===== verification/Async_Agreement.thy ===== *)
theory Async_Agreement
  imports Async_Handler Async_Worker
begin

text \<open>
  The two models of \<^verbatim>\<open>trigger_async_callback\<close> agree: the call as one program of \<open>Async_Handler\<close> gives
  exactly the results and the states of its executions, step by step, in the machine of
  \<open>Async_Worker\<close> while nobody else moves.
\<close>

text \<open>The members the two models share; \<open>h\<close> has the others. The worker's thread is thread 0.\<close>

fun thread_of :: "worker_id \<Rightarrow> tid" where
  "thread_of Worker = 0"
| "thread_of (Client i) = Suc i"

fun settled :: "exn option content \<Rightarrow> exn option" where
  "settled (Whole e) = e"
| "settled Torn = None"

definition handler_view ::
    "('c, 'p, 'f, 'time, 'dur, 'r) async_handler \<Rightarrow> ('time \<times> 'dur, 'r) async \<Rightarrow>
      ('c, 'p, 'f, 'time, 'dur, 'r) async_handler" where
  "handler_view h s = h\<lparr>joinable := thread_joinable s, stop_async_callback := stop_flag s,
     trigger_in_progress := in_progress s, pause_thread := paused s, callback_return := last_return s,
     callback_time := fst (args s), callback_period := snd (args s),
     async_mtx := map_option thread_of (a_mtx s), last_execution_time := last_time s,
     exception_ptr := settled (exc_slot s)\<rparr>"

text \<open>The result a client's program counter shows.\<close>

fun trigger_result :: "('a, 'r) client_pc \<Rightarrow> (bool \<times> 'r) outcome option" where
  "trigger_result (TRet b r) = Some (Return (b, r))"
| "trigger_result (TFail e) = Some (Throw e)"
| "trigger_result _ = None"

abbreviation not_started :: exn where
  "not_started \<equiv> Runtime_error (''AsyncFunctionHandler: need to start the async callback thread '' @
     ''first before triggering!'')"

text \<open>Where a client that triggers alone from \<open>s\<close> can be, and in which state.\<close>

definition ready :: "('a, 'r) async \<Rightarrow> bool" where
  "ready s \<longleftrightarrow> exc_slot s = Whole None \<and> thread_joinable s"

definition open_slot :: "('a, 'r) async \<Rightarrow> bool" where
  "open_slot s \<longleftrightarrow> ready s \<and> a_mtx s = None \<and> \<not> in_progress s"

fun solo :: "tid \<Rightarrow> 'a \<Rightarrow> ('a, 'r) async \<Rightarrow> ('a, 'r) client_pc \<Rightarrow> ('a, 'r) async \<Rightarrow> bool" where
  "solo i a s (TExc b) u = (b = a \<and> u = at_client i (TExc a) s)"
| "solo i a s (TRun b) u = (b = a \<and> exc_slot s = Whole None \<and> u = at_client i (TRun a) s)"
| "solo i a s (TTry b) u = (b = a \<and> ready s \<and> u = at_client i (TTry a) s)"
| "solo i a s (TCheck b owns) u = (b = a \<and> ready s \<and> owns = (a_mtx s = None) \<and>
     u = at_client i (TCheck a owns) (if owns then s\<lparr>a_mtx := Some (Client i)\<rparr> else s))"
| "solo i a s (TPred b) u = (b = a \<and> open_slot s \<and> u = at_client i (TPred a) (s\<lparr>a_mtx := Some (Client i)\<rparr>))"
| "solo i a s (TSet b) u = (b = a \<and> open_slot s \<and> u = at_client i (TSet a) (s\<lparr>a_mtx := Some (Client i)\<rparr>))"
| "solo i a s TUnlock u = (open_slot s \<and> u = at_client i TUnlock (s\<lparr>a_mtx := Some (Client i),
     in_progress := True, args := a, accepted := accepted s @ [a]\<rparr>))"
| "solo i a s TNotify u = (open_slot s \<and> u = at_client i TNotify (s\<lparr>in_progress := True, args := a,
     accepted := accepted s @ [a]\<rparr>))"
| "solo i a s TLate u = (open_slot s \<and> u = at_client i TLate (notify_worker (s\<lparr>in_progress := True,
     args := a, accepted := accepted s @ [a]\<rparr>)))"
| "solo i a s (TUnwind e) u = (open_slot s \<and> u = at_client i (TUnwind e) (s\<lparr>a_mtx := Some (Client i)\<rparr>))"
| "solo i a s (TRead owns) u = (ready s \<and> owns = (a_mtx s = None) \<and>
     u = at_client i (TRead owns) (if owns then s\<lparr>a_mtx := Some (Client i)\<rparr> else s))"
| "solo i a s (TRel owns r) u = (ready s \<and> owns = (a_mtx s = None) \<and> r = last_return s \<and>
     u = at_client i (TRel owns r) (if owns then s\<lparr>a_mtx := Some (Client i)\<rparr> else s))"
| "solo i a s (TRet b r) u = (ready s \<and> r = last_return s \<and> (if b then open_slot s \<and>
       u = at_client i (TRet True r) (notify_worker (s\<lparr>in_progress := True, args := a,
         accepted := accepted s @ [a]\<rparr>))
     else u = at_client i (TRet False r) s))"
| "solo i a s (TFail e) u = (u = at_client i (TFail e) s \<and> (exc_slot s = Whole (Some e) \<or>
     exc_slot s = Whole None \<and> \<not> thread_joinable s \<and> e = not_started \<or> open_slot s))"
| "solo i a s p u = False"

lemma at_client_at [simp]: "at_client i p (at_client i q s) = at_client i p s"
  by (simp add: at_client_def)

lemma at_client_sel [simp]:
  "clients (at_client i p s) i = p" "a_mtx (at_client i p s) = a_mtx s"
  "exc_slot (at_client i p s) = exc_slot s" "thread_joinable (at_client i p s) = thread_joinable s"
  "in_progress (at_client i p s) = in_progress s" "last_return (at_client i p s) = last_return s"
  "accepted (at_client i p s) = accepted s" "worker (at_client i p s) = worker s"
  by (simp_all add: at_client_def)

lemma at_client_upd [simp]:
  "(at_client i p s)\<lparr>a_mtx := m\<rparr> = at_client i p (s\<lparr>a_mtx := m\<rparr>)"
  "(at_client i p s)\<lparr>in_progress := b, args := a, accepted := l\<rparr> =
     at_client i p (s\<lparr>in_progress := b, args := a, accepted := l\<rparr>)"
  "notify_worker (at_client i p s) = at_client i p (notify_worker s)"
  by (simp_all add: at_client_def notify_worker_def)

lemma notify_worker_sel [simp]:
  "last_return (notify_worker s) = last_return s" "exc_slot (notify_worker s) = exc_slot s"
  "thread_joinable (notify_worker s) = thread_joinable s" "in_progress (notify_worker s) = in_progress s"
  "a_mtx (notify_worker s) = a_mtx s" "args (notify_worker s) = args s" "stop_flag (notify_worker s) = stop_flag s"
  "paused (notify_worker s) = paused s" "last_time (notify_worker s) = last_time s"
  by (simp_all add: notify_worker_def)

lemma same_mtx [simp]: "a_mtx s = m \<Longrightarrow> s\<lparr>a_mtx := m\<rparr> = s"
  by (cases s) simp

lemma solo_step:
  assumes "solo i a s (clients u i) u" "own_trigger i u v" "exc_slot s \<noteq> Torn" "a_mtx s \<noteq> Some (Client i)"
  shows "solo i a s (clients v i) v"
proof -
  have "trigger_step i u v" "0 < trigger_rank (clients u i)" using assms(2) by (simp_all add: own_trigger_def)
  then show ?thesis
    using assms(1,3,4)
    by cases (auto simp: ready_def open_slot_def mtx_try_def split: if_splits option.splits)
qed


lemma solo_steps:
  assumes "steps (own_trigger i) u v" "solo i a s (clients u i) u" "exc_slot s \<noteq> Torn"
    and "a_mtx s \<noteq> Some (Client i)"
  shows "solo i a s (clients v i) v"
  using assms by (induction rule: steps.induct) (auto intro: solo_step)

lemma view_at_client [simp]: "handler_view h (at_client i p s) = handler_view h s"
  by (simp add: handler_view_def at_client_def)

lemma view_notify [simp]: "handler_view h (notify_worker s) = handler_view h s"
  by (simp add: handler_view_def)

lemmas view_defs = handler_view_def async_call_defs ready_def open_slot_def

text \<open>The runs that exist, one move at a time.\<close>

lemma own_at:
  "trigger_step i (at_client i p s) t \<Longrightarrow> 0 < trigger_rank p \<Longrightarrow> steps (own_trigger i) t u \<Longrightarrow>
     steps (own_trigger i) (at_client i p s) u"
  by (rule steps_step [where t = t]) (simp_all add: own_trigger_def)

lemma solo_moves:
  "exc_slot s = Whole (Some e) \<Longrightarrow> trigger_step i (at_client i (TExc a) s) (at_client i (TFail e) s)"
  "exc_slot s = Whole None \<Longrightarrow> trigger_step i (at_client i (TExc a) s) (at_client i (TRun a) s)"
  "\<not> thread_joinable s \<Longrightarrow> trigger_step i (at_client i (TRun a) s) (at_client i (TFail not_started) s)"
  "thread_joinable s \<Longrightarrow> trigger_step i (at_client i (TRun a) s) (at_client i (TTry a) s)"
  "owns \<Longrightarrow> \<not> in_progress s \<Longrightarrow> trigger_step i (at_client i (TCheck a owns) s) (at_client i (TPred a) s)"
  "\<not> owns \<or> in_progress s \<Longrightarrow> trigger_step i (at_client i (TCheck a owns) s) (at_client i (TRead owns) s)"
  "trigger_step i (at_client i (TPred a) s) (at_client i (TSet a) s)"
  "trigger_step i (at_client i (TPred a) s) (at_client i (TRead True) s)"
  "trigger_step i (at_client i (TPred a) s) (at_client i (TUnwind e) s)"
  "trigger_step i (at_client i (TUnwind e) s) (at_client i (TFail e) (s\<lparr>a_mtx := None\<rparr>))"
  "trigger_step i (at_client i (TRead owns) s) (at_client i (TRel owns (last_return s)) s)"
  using t_exc_some [of "at_client i (TExc a) s" i a e] t_exc_none [of "at_client i (TExc a) s" i a]
    t_run [of "at_client i (TRun a) s" i a] t_check [of "at_client i (TCheck a owns) s" i a owns]
    t_pred [of "at_client i (TPred a) s" i a True] t_pred [of "at_client i (TPred a) s" i a False]
    t_pred_throws [of "at_client i (TPred a) s" i a e] t_unwind [of "at_client i (TUnwind e) s" i e]
    t_read [of "at_client i (TRead owns) s" i owns]
  by auto

lemma solo_locks:
  "a_mtx s = None \<Longrightarrow> trigger_step i (at_client i (TTry a) s)
     (at_client i (TCheck a True) (s\<lparr>a_mtx := Some (Client i)\<rparr>))"
  "a_mtx s \<noteq> None \<Longrightarrow> trigger_step i (at_client i (TTry a) s) (at_client i (TCheck a False) s)"
  "trigger_step i (at_client i (TRel True r) s) (at_client i (TRet False r) (s\<lparr>a_mtx := None\<rparr>))"
  "trigger_step i (at_client i (TRel False r) s) (at_client i (TRet False r) s)"
  "trigger_step i (at_client i (TSet a) s)
     (at_client i TUnlock (s\<lparr>in_progress := True, args := a, accepted := accepted s @ [a]\<rparr>))"
  "trigger_step i (at_client i TUnlock s) (at_client i TNotify (s\<lparr>a_mtx := None\<rparr>))"
  "trigger_step i (at_client i TNotify s) (at_client i TLate (notify_worker s))"
  "trigger_step i (at_client i TLate s) (at_client i (TRet True (last_return s)) s)"
proof -
  show "a_mtx s = None \<Longrightarrow> trigger_step i (at_client i (TTry a) s)
     (at_client i (TCheck a True) (s\<lparr>a_mtx := Some (Client i)\<rparr>))"
    using t_try [of "at_client i (TTry a) s" i a True "Some (Client i)"] by simp
  show "a_mtx s \<noteq> None \<Longrightarrow> trigger_step i (at_client i (TTry a) s) (at_client i (TCheck a False) s)"
    using t_try [of "at_client i (TTry a) s" i a False "a_mtx s"] by (cases "a_mtx s") simp_all
qed (use t_rel [of "at_client i (TRel True r) s" i True r] t_rel [of "at_client i (TRel False r) s" i False r]
    t_set [of "at_client i (TSet a) s" i a] t_unlock [of "at_client i TUnlock s" i]
    t_notify [of "at_client i TNotify s" i] t_late [of "at_client i TLate s" i] in simp_all)

lemma solo_throws:
  "exc_slot s = Whole (Some e) \<Longrightarrow> steps (own_trigger i) (at_client i (TExc a) s) (at_client i (TFail e) s)"
  by (rule own_at [OF solo_moves(1) _ steps_refl]) simp_all

lemma solo_unstarted:
  "exc_slot s = Whole None \<Longrightarrow> \<not> thread_joinable s \<Longrightarrow>
     steps (own_trigger i) (at_client i (TExc a) s) (at_client i (TFail not_started) s)"
  by (rule own_at [OF solo_moves(2) _ own_at [OF solo_moves(3) _ steps_refl]]) simp_all

lemma solo_to_try:
  "ready s \<Longrightarrow> steps (own_trigger i) (at_client i (TTry a) s) u \<Longrightarrow>
     steps (own_trigger i) (at_client i (TExc a) s) u"
  by (rule own_at [OF solo_moves(2) _ own_at [OF solo_moves(4)]]) (simp_all add: ready_def)

lemma solo_turned_down:
  assumes "ready s" "a_mtx s \<noteq> None"
  shows "steps (own_trigger i) (at_client i (TExc a) s) (at_client i (TRet False (last_return s)) s)"
  by (rule solo_to_try [OF assms(1)], rule own_at [OF solo_locks(2) _ own_at [OF solo_moves(6) _
        own_at [OF solo_moves(11) _ own_at [OF solo_locks(4) _ steps_refl]]]])
    (simp_all add: assms)

lemma solo_read_unlock:
  assumes "a_mtx s = None"
  shows "steps (own_trigger i) (at_client i (TRead True) (s\<lparr>a_mtx := Some (Client i)\<rparr>))
     (at_client i (TRet False (last_return s)) s)"
proof -
  let ?h = "s\<lparr>a_mtx := Some (Client i)\<rparr>"
  have "steps (own_trigger i) (at_client i (TRel True (last_return ?h)) ?h)
      (at_client i (TRet False (last_return s)) s)"
    by (rule own_at [OF solo_locks(3)]) (simp_all add: assms steps_refl)
  then show ?thesis by (intro own_at [OF solo_moves(11)]) simp_all
qed

lemma solo_to_check:
  "ready s \<Longrightarrow> a_mtx s = None \<Longrightarrow>
     steps (own_trigger i) (at_client i (TCheck a True) (s\<lparr>a_mtx := Some (Client i)\<rparr>)) u \<Longrightarrow>
     steps (own_trigger i) (at_client i (TExc a) s) u"
  by (rule solo_to_try, assumption, rule own_at [OF solo_locks(1)]) simp_all

lemma solo_busy:
  "ready s \<Longrightarrow> a_mtx s = None \<Longrightarrow> in_progress s \<Longrightarrow>
     steps (own_trigger i) (at_client i (TExc a) s) (at_client i (TRet False (last_return s)) s)"
  by (rule solo_to_check, assumption+, rule own_at [OF solo_moves(6) _ solo_read_unlock]) simp_all

lemma solo_rejected:
  "ready s \<Longrightarrow> a_mtx s \<noteq> None \<or> in_progress s \<Longrightarrow>
     steps (own_trigger i) (at_client i (TExc a) s) (at_client i (TRet False (last_return s)) s)"
  by (cases "a_mtx s = None") (simp_all add: solo_turned_down solo_busy)

lemma solo_to_pred:
  "open_slot s \<Longrightarrow> steps (own_trigger i) (at_client i (TPred a) (s\<lparr>a_mtx := Some (Client i)\<rparr>)) u \<Longrightarrow>
     steps (own_trigger i) (at_client i (TExc a) s) u"
  by (rule solo_to_check, (simp add: open_slot_def)+, rule own_at [OF solo_moves(5)])
    (simp_all add: open_slot_def)

lemma solo_open:
  assumes "open_slot s"
  shows "steps (own_trigger i) (at_client i (TExc a) s) (at_client i (TRet False (last_return s)) s)"
    and "steps (own_trigger i) (at_client i (TExc a) s) (at_client i (TFail e) s)"
    and "steps (own_trigger i) (at_client i (TExc a) s) (at_client i (TRet True (last_return s))
      (notify_worker (s\<lparr>in_progress := True, args := a, accepted := accepted s @ [a]\<rparr>)))"
proof -
  have m: "a_mtx s = None" using assms by (simp add: open_slot_def)
  let ?h = "s\<lparr>a_mtx := Some (Client i)\<rparr>"
  show "steps (own_trigger i) (at_client i (TExc a) s) (at_client i (TRet False (last_return s)) s)"
    by (rule solo_to_pred [OF assms], rule own_at [OF solo_moves(8) _ solo_read_unlock [OF m]]) simp
  show "steps (own_trigger i) (at_client i (TExc a) s) (at_client i (TFail e) s)"
  proof (rule solo_to_pred [OF assms], rule own_at [OF solo_moves(9)], simp)
    show "steps (own_trigger i) (at_client i (TUnwind e) ?h) (at_client i (TFail e) s)"
      by (rule own_at [OF solo_moves(10)]) (simp_all add: m steps_refl)
  qed
  let ?t = "s\<lparr>in_progress := True, args := a, accepted := accepted s @ [a]\<rparr>"
  have "steps (own_trigger i) (at_client i TLate (notify_worker ?t))
      (at_client i (TRet True (last_return s)) (notify_worker ?t))"
    by (rule own_at [OF solo_locks(8)]) (simp_all add: steps_refl)
  then have "steps (own_trigger i) (at_client i TNotify ?t)
      (at_client i (TRet True (last_return s)) (notify_worker ?t))"
    by (intro own_at [OF solo_locks(7)]) simp_all
  moreover have "?h\<lparr>in_progress := True, args := a, accepted := accepted s @ [a], a_mtx := None\<rparr> = ?t"
    using m by (cases s) simp
  ultimately have "steps (own_trigger i)
      (at_client i TUnlock (?h\<lparr>in_progress := True, args := a, accepted := accepted s @ [a]\<rparr>))
      (at_client i (TRet True (last_return s)) (notify_worker ?t))"
    by (intro own_at [OF solo_locks(6)]) (simp, simp only:)
  then have "steps (own_trigger i) (at_client i (TSet a) ?h)
      (at_client i (TRet True (last_return s)) (notify_worker ?t))"
    by (intro own_at [OF solo_locks(5)]) simp_all
  then show "steps (own_trigger i) (at_client i (TExc a) s)
      (at_client i (TRet True (last_return s)) (notify_worker ?t))"
    by (intro solo_to_pred [OF assms] own_at [OF solo_moves(7)]) simp_all
qed

section \<open>Agreement\<close>

lemma view_fields:
  "joinable (handler_view h s) = thread_joinable s" "trigger_in_progress (handler_view h s) = in_progress s"
  "exception_ptr (handler_view h s) = settled (exc_slot s)" "params (handler_view h s) = params h"
  "async_mtx (handler_view h s) = map_option thread_of (a_mtx s)"
  "callback_return (handler_view h s) = last_return s"
  "async_function (handler_view h s) = async_function h" "predicate_fn (handler_view h s) = predicate_fn h"
  by (simp_all add: handler_view_def)

text \<open>What the program of \<open>Async_Handler\<close> does on a view, given what the predicate does.\<close>

lemma trigger_on_view:
  assumes "async_function h = Some f" "predicate_fn h = Some p" "scheduling_policy (params h) = SYNCHRONIZED"
    and "exc_slot s = Whole e" "a_mtx s \<noteq> Some (Client i)" "is_return w \<or> is_throw w"
  shows "trigger_async_callback L (\<lambda>_. w) (Suc i) time period (handler_view h s) =
    (case e of Some x \<Rightarrow> (Throw x, handler_view h s)
     | None \<Rightarrow>
        if \<not> thread_joinable s then (Throw not_started, handler_view h s)
        else if a_mtx s \<noteq> None \<or> in_progress s then (Return (False, last_return s), handler_view h s)
        else (case w of Throw x \<Rightarrow> (Throw x, handler_view h s)
          | Return True \<Rightarrow> (Return (True, last_return s),
              handler_view h (s\<lparr>in_progress := True, args := (time, period), accepted := accepted s @ [(time, period)]\<rparr>))
          | _ \<Rightarrow> (Return (False, last_return s), handler_view h s)))"
proof -
  have other: "thread_of u \<noteq> Suc i" if "u \<noteq> Client i" for u
    using that by (cases u) simp_all
  show ?thesis
    using assms other
    by (cases e; cases "a_mtx s"; cases w) (auto simp: handler_view_def async_call_defs)
qed

lemma run_is_call:
  assumes h: "async_function h = Some f" "predicate_fn h = Some p" "scheduling_policy (params h) = SYNCHRONIZED"
    and s: "exc_slot s = Whole e" "a_mtx s \<noteq> Some (Client i)"
    and run: "steps (own_trigger i) (at_client i (TExc a) s) t" "trigger_result (clients t i) = Some r"
  shows "\<exists>w. (is_return w \<or> is_throw w) \<and>
    trigger_async_callback L (\<lambda>_. w) (Suc i) (fst a) (snd a) (handler_view h s) = (r, handler_view h t)"
proof -
  note call = trigger_on_view [OF h s]
  have sol: "solo i a s (clients t i) t"
    using solo_steps [OF run(1)] s by simp
  show ?thesis
  proof (cases "clients t i")
    case (TRet b v)
    with run(2) sol s call [of "Return b"] show ?thesis
      by (intro exI [of _ "Return b"]) (auto simp: ready_def open_slot_def split: if_splits)
  next
    case (TFail x)
    with run(2) sol s call [of "Throw x"] show ?thesis
      by (intro exI [of _ "Throw x"]) (auto simp: ready_def open_slot_def)
  qed (use run(2) in simp_all)
qed

lemma call_is_run:
  assumes h: "async_function h = Some f" "predicate_fn h = Some p" "scheduling_policy (params h) = SYNCHRONIZED"
    and s: "exc_slot s = Whole e" "a_mtx s \<noteq> Some (Client i)" "is_return w \<or> is_throw w"
    and call: "trigger_async_callback L (\<lambda>_. w) (Suc i) (fst a) (snd a) (handler_view h s) = (r, h')"
  shows "\<exists>t. steps (own_trigger i) (at_client i (TExc a) s) t \<and> trigger_result (clients t i) = Some r \<and>
    h' = handler_view h t"
proof -
  have finish: ?thesis
    if "steps (own_trigger i) (at_client i (TExc a) s) (at_client i q u)" "trigger_result q = Some r"
      "h' = handler_view h u" for q u
    using that by (intro exI [of _ "at_client i q u"]) simp
  note r = call [unfolded trigger_on_view [OF h s]]
  show ?thesis
  proof (cases e)
    case (Some x)
    with s(1) r show ?thesis by (intro finish [of "TFail x" s] solo_throws) simp_all
  next
    case None
    show ?thesis
    proof (cases "thread_joinable s")
      case False
      with None s(1) r show ?thesis by (intro finish [of "TFail not_started" s] solo_unstarted) simp_all
    next
      case True
      with None s(1) have ready: "ready s" by (simp add: ready_def)
      show ?thesis
      proof (cases "a_mtx s \<noteq> None \<or> in_progress s")
        case True
        with None ready r show ?thesis
          by (intro finish [of "TRet False (last_return s)" s] solo_rejected [OF ready True])
            (auto simp: ready_def)
      next
        case False
        with ready have o: "open_slot s" by (simp add: open_slot_def)
        from s(3) consider x where "w = Throw x" | "w = Return False" | "w = Return True"
          by (cases w) auto
        then show ?thesis
        proof cases
          case (1 x)
          with False ready None r show ?thesis
            by (intro finish [of "TFail x" s] solo_open(2) [OF o]) (simp_all add: ready_def)
        next
          case 2
          with False ready None r show ?thesis
            by (intro finish [of "TRet False (last_return s)" s] solo_open(1) [OF o]) (simp_all add: ready_def)
        next
          case 3
          with False ready None r show ?thesis
            by (intro finish [OF solo_open(3) [OF o]]) (simp_all add: ready_def)
        qed
      qed
    qed
  qed
qed

section \<open>Properties\<close>

text \<open>
  C19. The call and its steps agree: for a client that does not hold the mutex, in any state whose
  exception pointer nobody is writing, the results of \<^verbatim>\<open>trigger_async_callback\<close> as one program, for
  the things a predicate can do, are exactly the results of its step-by-step executions in which
  no other thread moves, with the same state of the handler.
\<close>

theorem trigger_call_is_its_steps:
  assumes "async_function h = Some f" "predicate_fn h = Some p" "scheduling_policy (params h) = SYNCHRONIZED"
    and "exc_slot s = Whole e" "a_mtx s \<noteq> Some (Client i)"
  shows "(\<exists>t. steps (own_trigger i) (at_client i (TExc a) s) t \<and> trigger_result (clients t i) = Some r \<and>
      h' = handler_view h t) =
    (\<exists>w. (is_return w \<or> is_throw w) \<and>
      trigger_async_callback L (\<lambda>_. w) (Suc i) (fst a) (snd a) (handler_view h s) = (r, h'))"
  using run_is_call [OF assms] call_is_run [OF assms] by blast

definition demo_idle :: "(int \<times> int, nat) async" where
  "demo_idle = \<lparr>a_mtx = None, stop_flag = False, in_progress = False, paused = False, args = (0, 0),
     last_return = 4, last_time = 0, exc_slot = Whole None, thread_joinable = True, worker = WWait,
     clients = (\<lambda>_. Idle), accepted = [], finished = [], cancelled = False, was_reset = False\<rparr>"

theorem trigger_call_is_its_steps_witness:
  "\<exists>t. steps (own_trigger 2) (at_client 2 (TExc (5, 7)) demo_idle) t \<and>
     trigger_result (clients t 2) = Some (Return (True, 4)) \<and> args t = (5, 7)"
proof -
  let ?call = "trigger_async_callback demo_lib (\<lambda>_. Return True) (Suc 2) 5 7
    (handler_view demo_handler demo_idle)"
  have "?call = (Return (True, 4), snd ?call)" "callback_time (snd ?call) = 5" "callback_period (snd ?call) = 7"
    by (simp_all add: async_call_defs handler_view_def demo_handler_defs demo_idle_def)
  then obtain t where t: "steps (own_trigger 2) (at_client 2 (TExc (5, 7)) demo_idle) t"
    "trigger_result (clients t 2) = Some (Return (True, 4))" "snd ?call = handler_view demo_handler t"
    using trigger_call_is_its_steps [of demo_handler 1 True demo_idle None 2 "(5, 7)" "Return (True, 4)"
        "snd ?call" demo_lib]
    by (simp add: demo_idle_def demo_handler_defs) (metis is_return.simps(1))
  moreover have "args t = (5, 7)"
    using t(3) \<open>callback_time (snd ?call) = 5\<close> \<open>callback_period (snd ?call) = 7\<close>
    by (simp add: handler_view_def prod_eq_iff)
  ultimately show ?thesis by blast
qed

end
