(* ===== verification/Async_Timing.thy ===== *)
theory Async_Timing
  imports RT_Prelude Complex_Main "HOL-Library.Word"
begin

text \<open>
  The schedule of the detached worker of \<^verbatim>\<open>AsyncFunctionHandler\<close> (\<^verbatim>\<open>async_function_handler.hpp\<close>): the
  period in nanoseconds and the correction of the next iteration's time after an overrun, which
  the code computes with doubles. Times are integers, in nanoseconds.
\<close>

section \<open>Doubles\<close>

text \<open>
  The results of the operations of \<^verbatim>\<open>double\<close> are the exact ones rounded to 53 significant bits, to the
  nearest and in a tie to the even one. The numbers here are 0 or lie between 10^-7 and 10^29, far
  from the ends of the format.
\<close>

definition round_even :: "real \<Rightarrow> int" where
  "round_even y =
     (let f = \<lfloor>y\<rfloor> in
      if y - of_int f < 1 / 2 then f
      else if y - of_int f > 1 / 2 then f + 1
      else if even f then f else f + 1)"

definition to_double :: "real \<Rightarrow> real" where
  "to_double x =
     (if x = 0 then 0
      else let e = \<lfloor>log 2 \<bar>x\<bar>\<rfloor> - 52 in of_int (round_even (x / 2 powr of_int e)) * 2 powr of_int e)"

lemma round_even_error: "\<bar>of_int (round_even y) - y\<bar> \<le> 1 / 2"
proof -
  define f where "f = \<lfloor>y\<rfloor>"
  have "of_int f \<le> y" "y < of_int f + 1" unfolding f_def by linarith+
  then show ?thesis by (auto simp: round_even_def Let_def f_def [symmetric] abs_if)
qed

lemma to_double_error: "\<bar>to_double x - x\<bar> \<le> \<bar>x\<bar> / 2 ^ 53"
proof (cases "x = 0")
  case True
  then show ?thesis by (simp add: to_double_def)
next
  case False
  define k where "k = \<lfloor>log 2 \<bar>x\<bar>\<rfloor>"
  define w :: real where "w = 2 powr (of_int k - 52)"
  have w: "0 < w" by (simp add: w_def)
  have "2 powr of_int k \<le> 2 powr log 2 \<bar>x\<bar>"
    unfolding k_def by (intro powr_mono) auto
  then have k: "2 powr of_int k \<le> \<bar>x\<bar>" using False by simp
  have "to_double x - x = (of_int (round_even (x / w)) - x / w) * w"
    using False w by (simp add: to_double_def k_def [symmetric] w_def [symmetric] Let_def algebra_simps)
  then have "\<bar>to_double x - x\<bar> = \<bar>of_int (round_even (x / w)) - x / w\<bar> * w"
    using w by (simp add: abs_mult)
  also have "\<dots> \<le> 1 / 2 * w"
    using w by (intro mult_right_mono round_even_error) simp
  also have "w = 2 powr real_of_int k / 2 ^ 52"
    by (simp add: w_def powr_diff powr_realpow [of 2 52, symmetric, simplified])
  also have "1 / 2 * (2 powr real_of_int k / 2 ^ 52) = 2 powr real_of_int k / 2 ^ 53" by simp
  also have "\<dots> \<le> \<bar>x\<bar> / 2 ^ 53" using k by (intro divide_right_mono) auto
  finally show ?thesis .
qed

lemma to_double_bounds:
  assumes "0 \<le> x"
  shows "x * (1 - 1 / 2 ^ 53) \<le> to_double x" "to_double x \<le> x * (1 + 1 / 2 ^ 53)"
proof -
  define v where "v = x / 2 ^ 53"
  have "\<bar>to_double x - x\<bar> \<le> v" using to_double_error [of x] assms by (simp add: v_def)
  then have "x - v \<le> to_double x" "to_double x \<le> x + v" by linarith+
  moreover have "x * (1 - 1 / 2 ^ 53) = x - v" "x * (1 + 1 / 2 ^ 53) = x + v"
    unfolding v_def by (simp_all only: right_diff_distrib distrib_left mult_1_right times_divide_eq_right)
  ultimately show "x * (1 - 1 / 2 ^ 53) \<le> to_double x" "to_double x \<le> x * (1 + 1 / 2 ^ 53)"
    by simp_all
qed

section \<open>The correction\<close>

text \<open>
  \<^verbatim>\<open>overrun_count\<close>: the difference in milliseconds over the period in milliseconds, rounded up; a value
  that an \<^verbatim>\<open>int\<close> cannot hold makes the conversion undefined.
\<close>

definition time_diff_ms :: "int \<Rightarrow> real" where
  "time_diff_ms ns = to_double (to_double (of_int ns) / 1000000)"

definition cm_period_ms :: "32 word \<Rightarrow> real" where
  "cm_period_ms rate = to_double (1000 / of_int (uint rate))"

definition overrun_quotient :: "32 word \<Rightarrow> int \<Rightarrow> real" where
  "overrun_quotient rate ns = to_double (time_diff_ms ns / cm_period_ms rate)"

definition overrun_count :: "32 word \<Rightarrow> int \<Rightarrow> int outcome" where
  "overrun_count rate ns =
     (let c = \<lceil>overrun_quotient rate ns\<rceil> in
      if - (2 ^ 31) \<le> c \<and> c < 2 ^ 31 then Return c else Undefined)"

text \<open>
  The time of the next iteration, given the last one, the period and the time now. Points of time and
  periods are unbounded; in the code they are 64-bit counts of nanoseconds, which overflow 292 years
  after the epoch of their clock.
\<close>

definition next_iteration :: "32 word \<Rightarrow> int \<Rightarrow> int \<Rightarrow> int \<Rightarrow> int outcome" where
  "next_iteration rate period previous now =
     (let planned = previous + period in
      if planned < now
      then (case overrun_count rate (now - planned) of
              Return c \<Rightarrow> Return (planned + c * period)
            | _ \<Rightarrow> Undefined)
      else Return planned)"

text \<open>The exact quotient, and how far the computed one can be from it.\<close>

definition exact_quotient :: "32 word \<Rightarrow> int \<Rightarrow> real" where
  "exact_quotient rate ns = of_int ns * of_int (uint rate) / 1000000000"

lemma quotient_bounds:
  fixes d :: int
  assumes "0 < rate" "0 < d"
  shows "exact_quotient rate d * (1 - 1 / 2 ^ 50) \<le> overrun_quotient rate d"
    and "overrun_quotient rate d \<le> exact_quotient rate d * (1 + 1 / 2 ^ 50)"
proof -
  define u :: real where "u = 1 / 2 ^ 53"
  define r :: real where "r = of_int (uint rate)"
  have "0 < uint rate" using assms(1) by (simp add: word_less_def)
  then have r: "0 < r" unfolding r_def by (simp only: of_int_0_less_iff)
  have u: "0 < u" "u < 1" by (simp_all add: u_def)
  let ?d = "of_int d :: real"
  have d: "0 < ?d" using assms(2) by simp
  have a: "?d * (1 - u) \<le> to_double ?d" "to_double ?d \<le> ?d * (1 + u)"
    using to_double_bounds [of ?d] d by (simp_all add: u_def)
  have td: "?d * (1 - u) / 1000000 * (1 - u) \<le> time_diff_ms d"
    "time_diff_ms d \<le> ?d * (1 + u) / 1000000 * (1 + u)"
  proof -
    have nn: "0 \<le> to_double ?d / 1000000" using a(1) d u by (smt (verit) divide_nonneg_pos mult_nonneg_nonneg)
    have "?d * (1 - u) / 1000000 * (1 - u) \<le> to_double ?d / 1000000 * (1 - u)"
      using a(1) u by (intro mult_right_mono divide_right_mono) auto
    also have "\<dots> \<le> time_diff_ms d"
      using to_double_bounds(1) [OF nn] by (simp add: time_diff_ms_def u_def)
    finally show "?d * (1 - u) / 1000000 * (1 - u) \<le> time_diff_ms d" .
    have "time_diff_ms d \<le> to_double ?d / 1000000 * (1 + u)"
      using to_double_bounds(2) [OF nn] by (simp add: time_diff_ms_def u_def)
    also have "\<dots> \<le> ?d * (1 + u) / 1000000 * (1 + u)"
      using a(2) u by (intro mult_right_mono divide_right_mono) auto
    finally show "time_diff_ms d \<le> ?d * (1 + u) / 1000000 * (1 + u)" .
  qed
  have cm: "1000 / r * (1 - u) \<le> cm_period_ms rate" "cm_period_ms rate \<le> 1000 / r * (1 + u)"
    using to_double_bounds [of "1000 / r"] r by (simp_all add: cm_period_ms_def u_def r_def)
  have cm0: "0 < cm_period_ms rate" using cm(1) r u by (smt (verit) divide_pos_pos mult_pos_pos)
  have td0: "0 < time_diff_ms d"
    using td(1) d u by (smt (verit) divide_pos_pos mult_pos_pos)
  let ?q = "time_diff_ms d / cm_period_ms rate"
  have q0: "0 \<le> ?q" using cm0 td0 by simp
  have x: "exact_quotient rate d = ?d * r / 1000000000" by (simp add: exact_quotient_def r_def)
  have x0: "0 < exact_quotient rate d" using d r by (simp add: x)
  have "exact_quotient rate d * ((1 - u) ^ 2 / (1 + u)) =
      (?d * (1 - u) / 1000000 * (1 - u)) / (1000 / r * (1 + u))"
    using r u by (simp add: x field_simps power2_eq_square)
  also have "\<dots> \<le> ?q"
    using td(1) cm(2) cm0 td0 d u by (intro frac_le) auto
  finally have lo: "exact_quotient rate d * ((1 - u) ^ 2 / (1 + u)) \<le> ?q" .
  have "?q \<le> (?d * (1 + u) / 1000000 * (1 + u)) / (1000 / r * (1 - u))"
    using td(2) cm(1) cm0 td0 r d u by (intro frac_le) auto
  also have "\<dots> = exact_quotient rate d * ((1 + u) ^ 2 / (1 - u))"
    using r u by (simp add: x field_simps power2_eq_square)
  finally have hi: "?q \<le> exact_quotient rate d * ((1 + u) ^ 2 / (1 - u))" .
  have "exact_quotient rate d * (1 - 1 / 2 ^ 50) \<le> exact_quotient rate d * ((1 - u) ^ 2 / (1 + u) * (1 - u))"
    using x0 by (intro mult_left_mono) (simp_all add: u_def field_simps)
  also have "\<dots> = exact_quotient rate d * ((1 - u) ^ 2 / (1 + u)) * (1 - u)" by (simp add: mult.assoc)
  also have "\<dots> \<le> ?q * (1 - u)"
    using lo u by (intro mult_right_mono) auto
  also have "\<dots> \<le> overrun_quotient rate d"
    using to_double_bounds(1) [OF q0] by (simp add: overrun_quotient_def u_def)
  finally show "exact_quotient rate d * (1 - 1 / 2 ^ 50) \<le> overrun_quotient rate d" .
  have "overrun_quotient rate d \<le> ?q * (1 + u)"
    using to_double_bounds(2) [OF q0] by (simp add: overrun_quotient_def u_def)
  also have "\<dots> \<le> exact_quotient rate d * ((1 + u) ^ 2 / (1 - u)) * (1 + u)"
    using hi u by (intro mult_right_mono) auto
  also have "\<dots> = exact_quotient rate d * ((1 + u) ^ 2 / (1 - u) * (1 + u))" by (simp add: mult.assoc)
  also have "\<dots> \<le> exact_quotient rate d * (1 + 1 / 2 ^ 50)"
    using x0 by (intro mult_left_mono) (simp_all add: u_def field_simps)
  finally show "overrun_quotient rate d \<le> exact_quotient rate d * (1 + 1 / 2 ^ 50)" .
qed


text \<open>Every plan adds a positive number of whole periods.\<close>

lemma next_iteration_phase:
  assumes "0 < rate" "next_iteration rate period previous now = Return n"
  shows "\<exists>k>0. n = previous + int k * period"
proof (cases "previous + period < now")
  case True
  let ?d = "now - (previous + period)"
  from True assms(2) obtain c where c: "overrun_count rate ?d = Return c" "n = previous + period + c * period"
    by (auto simp: next_iteration_def Let_def split: outcome.splits)
  have "0 < uint rate" using assms(1) by (simp add: word_less_def)
  then have "0 < (of_int (uint rate) :: real)" by (simp only: of_int_0_less_iff)
  moreover have "0 < ?d" using True by simp
  then have "0 < (of_int ?d :: real)" by (simp only: of_int_0_less_iff)
  ultimately have "0 < exact_quotient rate ?d * (1 - 1 / 2 ^ 50)"
    unfolding exact_quotient_def by (intro mult_pos_pos divide_pos_pos) simp_all
  also have "\<dots> \<le> overrun_quotient rate ?d"
    using quotient_bounds(1) [OF assms(1)] True by simp
  finally have "0 < c" using c(1) by (auto simp: overrun_count_def Let_def split: if_splits)
  with c(2) show ?thesis
    by (intro exI [of _ "nat (1 + c)"]) (simp add: algebra_simps)
qed (use assms(2) in \<open>auto simp: next_iteration_def Let_def intro: exI [of _ 1]\<close>)

lemma ceiling_between:
  fixes c :: int and q x e :: real
  assumes "c = \<lceil>q\<rceil>" "x * (1 - e) \<le> q" "q \<le> x * (1 + e)" "0 < x" "0 < e" "e < 1"
  shows "0 < c" "x * (1 - e) \<le> of_int c" "of_int c < x * (1 + e) + 1"
proof -
  have "0 < x * (1 - e)" using assms(4,6) by simp
  moreover have "q \<le> of_int c" "of_int c < q + 1" unfolding assms(1) by linarith+
  ultimately show "x * (1 - e) \<le> of_int c" "of_int c < x * (1 + e) + 1"
    using assms(2,3) by linarith+
  have "0 < (of_int c :: real)"
    using \<open>0 < x * (1 - e)\<close> \<open>q \<le> of_int c\<close> assms(2) by linarith
  then show "0 < c" by (simp only: of_int_0_less_iff)
qed

lemma int_from_real:
  fixes a b :: int
  assumes "of_int a < of_int b + (1::real)"
  shows "a \<le> b"
  using assms by linarith

lemma period_bounds:
  fixes rate :: "32 word" and P :: int
  assumes "0 < rate" "P = 1000000000 div uint rate"
  shows "1000000000 / of_int (uint rate) - 1 < (of_int P :: real)"
    and "of_int P \<le> (1000000000 / of_int (uint rate) :: real)"
    and "uint rate dvd 1000000000 \<Longrightarrow> of_int P = (1000000000 / of_int (uint rate) :: real)"
proof -
  have p: "P = \<lfloor>1000000000 / of_int (uint rate) :: real\<rfloor>"
    using floor_divide_of_int_eq [of 1000000000 "uint rate", where 'a = real] assms(2) by simp
  then show "1000000000 / of_int (uint rate) - 1 < (of_int P :: real)"
    "of_int P \<le> (1000000000 / of_int (uint rate) :: real)" by linarith+
  show "of_int P = (1000000000 / of_int (uint rate) :: real)" if "uint rate dvd 1000000000"
    using that assms(2) by (simp only: real_of_int_div of_int_numeral)
qed

section \<open>Properties\<close>

text \<open>
  C20. An overrun is made up for: if the planned time of the next iteration has passed by no more
  than 2^50 ns and 2^30 periods, the correction \<open>c\<close>, computed with doubles, is well defined and
  positive; the corrected time is at most one period and a nanosecond ahead of now, and at most
  \<open>c + 1\<close> ns behind it, because the period was rounded down to nanoseconds; and at most one
  nanosecond behind if the rate divides 10^9.
\<close>

theorem overrun_made_up:
  assumes "0 < rate" "period = 1000000000 div uint rate"
    and "previous + period < now" "now - (previous + period) \<le> 2 ^ 50"
    and "(now - (previous + period)) * uint rate \<le> 2 ^ 30 * 1000000000"
  shows "\<exists>c. overrun_count rate (now - (previous + period)) = Return c \<and> 0 < c \<and>
    next_iteration rate period previous now = Return (previous + period + c * period) \<and>
    now - (c + 1) \<le> previous + period + c * period \<and>
    previous + period + c * period \<le> now + period + 1 \<and>
    (uint rate dvd 1000000000 \<longrightarrow> now - 1 \<le> previous + period + c * period)"
proof -
  define d where "d = now - (previous + period)"
  have d: "0 < d" "d \<le> 2 ^ 50" "d * uint rate \<le> 2 ^ 30 * 1000000000"
    using assms(3-5) by (simp_all add: d_def)
  define x where "x = exact_quotient rate d"
  define e :: real where "e = 1 / 2 ^ 50"
  define r :: real where "r = of_int (uint rate)"
  define T where "T = 1000000000 / r"
  have "0 < uint rate" using assms(1) by (simp add: word_less_def)
  then have r: "1 \<le> r" unfolding r_def by linarith
  have T: "0 < T" using r by (simp add: T_def)
  have xT: "x * T = of_int d" using r by (simp add: x_def T_def exact_quotient_def r_def)
  have x: "0 < x" using d(1) r by (simp add: x_def exact_quotient_def r_def)
  have e: "0 < e" "e < 1" by (simp_all add: e_def)
  define c where "c = \<lceil>overrun_quotient rate d\<rceil>"
  note c = ceiling_between [OF c_def quotient_bounds(1) [OF assms(1) d(1), folded x_def e_def]
      quotient_bounds(2) [OF assms(1) d(1), folded x_def e_def] x e]
  have "of_int (d * uint rate) \<le> (of_int (2 ^ 30 * 1000000000) :: real)"
    using d(3) by (simp only: of_int_le_iff)
  then have "x \<le> 2 ^ 30" by (simp add: x_def exact_quotient_def)
  then have "x * (1 + e) \<le> 2 ^ 30 * (1 + e)" using e by (intro mult_right_mono) simp_all
  then have "of_int c < (2 ^ 31 :: real)" using c(3) by (simp add: e_def)
  then have "of_int c < (of_int (2 ^ 31) :: real)" by simp
  then have "c < 2 ^ 31" by (simp only: of_int_less_iff)
  then have count: "overrun_count rate d = Return c"
    using c(1) by (simp add: overrun_count_def c_def [symmetric] Let_def)
  note P = period_bounds [OF assms(1,2), folded r_def, folded T_def]
  have de: "of_int d * e \<le> 1"
  proof -
    have "of_int d \<le> (2 ^ 50 :: real)" using d(2) by (metis of_int_le_iff of_int_numeral of_int_power)
    then show ?thesis by (simp add: e_def)
  qed
  have up: "of_int (c * period) < of_int (d + period + 1) + (1::real)"
  proof -
    have "of_int c * of_int period \<le> of_int c * T"
      using P(2) c(1) by (intro mult_left_mono) simp_all
    also have "\<dots> < (x * (1 + e) + 1) * T" using c(3) T by (intro mult_strict_right_mono)
    also have "\<dots> = of_int d + of_int d * e + T" using xT by (simp add: algebra_simps)
    finally show ?thesis using de P(1) by simp
  qed
  have lo_T: "of_int d - 1 \<le> of_int c * T"
  proof -
    have "of_int d - of_int d * e = x * (1 - e) * T" using xT by (simp add: algebra_simps)
    also have "\<dots> \<le> of_int c * T" using c(2) T by (intro mult_right_mono) simp_all
    finally show ?thesis using de by simp
  qed
  have "of_int c * (T - 1) < of_int c * (of_int period :: real)"
    using P(1) c(1) by (intro mult_strict_left_mono) simp_all
  with lo_T have "of_int d - 1 - of_int c < (of_int (c * period) :: real)" by (simp add: algebra_simps)
  then have "d - (c + 1) \<le> c * period" by linarith
  moreover have "c * period \<le> d + period + 1" using up by (rule int_from_real)
  moreover have "d - 1 \<le> c * period" if "uint rate dvd 1000000000"
    using lo_T P(3) that by (metis of_int_1 of_int_diff of_int_le_iff of_int_mult r_def)
  moreover have "next_iteration rate period previous now = Return (previous + period + c * period)"
    using assms(3) count by (simp add: next_iteration_def Let_def d_def)
  ultimately show ?thesis using count c(1) by (auto simp: d_def)
qed

theorem overrun_made_up_witness:
  "\<exists>c. overrun_count 1000 2500000 = Return c \<and> 0 < c \<and>
     next_iteration 1000 1000000 0 3500000 = Return (1000000 + c * 1000000) \<and>
     3499999 \<le> 1000000 + c * 1000000 \<and> 1000000 + c * 1000000 \<le> 4500001"
  using overrun_made_up [of 1000 1000000 0 3500000] by (simp add: word_less_def dvd_def) blast

end
