(* ===== verification/Async_Detached.thy ===== *)
theory Async_Detached
  imports Async_Timing
begin

text \<open>
  The worker thread of \<^verbatim>\<open>AsyncFunctionHandler\<close> under the detached policy
  (\<^verbatim>\<open>execute_detached_callback\<close> in \<^verbatim>\<open>async_function_handler.hpp\<close>), with any number of clients that
  resume, pause, stop and reset it, in every interleaving of their accesses to the shared members.
  Readings of clocks give any value; the callback returns any value or throws, and does not call
  the handler.
\<close>

section \<open>The state\<close>

datatype detached_id = DWorker | DClient tid

text \<open>
  Where the worker is. The first wait is before the loop; from \<open>DPred\<close> to \<open>DBlock\<close> and to \<open>DUnlock\<close> it
  holds \<^verbatim>\<open>async_mtx_\<close>, the sleep \<open>DSleepUntil\<close> included. \<open>DStarting\<close> is in the write of
  \<^verbatim>\<open>previous_time_\<close> that is made without the mutex. \<open>DCrash\<close> is undefined behaviour.
\<close>

datatype 'r detached_pc =
    DFirst | DLock1 | DPred1 | DBlock1 | DWait1 | DRelock1 | DUnlock1
  | DStart | DStarting int | DSleep | DNext
  | DTest | DLock | DPred | DBlock | DWait | DRelock
  | DStop | DCall int int | DStore 'r | DThrow exn | DThrown exn | DTime | DPlan | DSleepUntil
  | DClear | DUnlock | DNotify | DDone | DCrash

text \<open>
  Where a client is: \<open>T\<close> in \<^verbatim>\<open>trigger_async_callback\<close>, \<open>P\<close> in \<^verbatim>\<open>pause_execution\<close>, \<open>S\<close> in
  \<^verbatim>\<open>stop_thread\<close>, \<open>J\<close> in \<^verbatim>\<open>join_async_callback_thread\<close>, \<open>R\<close> in \<^verbatim>\<open>reset_variables\<close>.
\<close>

datatype 'r dclient_pc =
    DIdle
  | TExc | TPause | TLock | TSet | TZero | TNow | TPrev int | TUnlock | TNotify | TRead | TRet 'r
  | TFail exn | TRace
  | PRun | PStore | PLock | PUnlock | PRet bool
  | SRun | SStore | SLock | SUnlock | SNotify | SJoin | SThrow exn
  | JRun
  | RLock | RSet | REnd | RUnlock

text \<open>
  The members; \<open>next_time\<close> is the local \<^verbatim>\<open>next_iteration_time\<close>. Two fields are history: the arguments
  of the calls of the callback, in order, and whether a trigger has resumed the worker.
\<close>

record 'r detached =
  d_mtx :: "detached_id std_mutex"
  d_stop :: bool
  d_in_progress :: bool
  d_paused :: bool
  d_time :: int
  d_period :: int
  d_previous :: int
  next_time :: int
  d_return :: 'r
  d_last_time :: int
  d_exc :: "exn option content"
  d_joinable :: bool
  dworker :: "'r detached_pc"
  dclients :: "tid \<Rightarrow> 'r dclient_pc"
  calls :: "(int \<times> int) list"
  was_resumed :: bool

definition at_dclient :: "tid \<Rightarrow> 'r dclient_pc \<Rightarrow> 'r detached \<Rightarrow> 'r detached" where
  [effect_defs]: "at_dclient i p s = s\<lparr>dclients := (dclients s)(i := p)\<rparr>"

text \<open>After \<^verbatim>\<open>start_thread\<close>; the handler is paused or not, as its parameters say.\<close>

definition detached_init :: "'r detached \<Rightarrow> bool" where
  "detached_init s \<longleftrightarrow> d_mtx s = None \<and> \<not> d_stop s \<and> \<not> d_in_progress s \<and> d_exc s = Whole None \<and>
     d_joinable s \<and> dworker s = DFirst \<and> dclients s = (\<lambda>_. DIdle) \<and> calls s = [] \<and> \<not> was_resumed s"

section \<open>The worker\<close>

text \<open>The predicate of both waits.\<close>

definition may_run :: "'r detached \<Rightarrow> bool" where
  "may_run s \<longleftrightarrow> \<not> d_paused s \<or> d_stop s"

inductive dworker_step :: "32 word \<Rightarrow> int \<Rightarrow> 'r detached \<Rightarrow> 'r detached \<Rightarrow> bool"
  for rate :: "32 word" and period :: int where
  d_first: "dworker s = DFirst \<Longrightarrow>
     dworker_step rate period s (s\<lparr>dworker := (if d_paused s then DLock1 else DStart)\<rparr>)"
| d_lock1: "dworker s = DLock1 \<Longrightarrow> d_mtx s = None \<Longrightarrow>
     dworker_step rate period s (s\<lparr>d_mtx := Some DWorker, dworker := DPred1\<rparr>)"
| d_pred1: "dworker s = DPred1 \<Longrightarrow>
     dworker_step rate period s (s\<lparr>dworker := (if may_run s then DUnlock1 else DBlock1)\<rparr>)"
| d_block1: "dworker s = DBlock1 \<Longrightarrow> dworker_step rate period s (s\<lparr>d_mtx := None, dworker := DWait1\<rparr>)"
| d_spurious1: "dworker s = DWait1 \<Longrightarrow> dworker_step rate period s (s\<lparr>dworker := DRelock1\<rparr>)"
| d_relock1: "dworker s = DRelock1 \<Longrightarrow> d_mtx s = None \<Longrightarrow>
     dworker_step rate period s (s\<lparr>d_mtx := Some DWorker, dworker := DPred1\<rparr>)"
| d_unlock1: "dworker s = DUnlock1 \<Longrightarrow> dworker_step rate period s (s\<lparr>d_mtx := None, dworker := DStart\<rparr>)"
| d_start: "dworker s = DStart \<Longrightarrow> dworker_step rate period s (s\<lparr>dworker := DStarting now\<rparr>)"
| d_started: "dworker s = DStarting now \<Longrightarrow>
     dworker_step rate period s (s\<lparr>d_previous := now, dworker := DSleep\<rparr>)"
| d_slept: "dworker s = DSleep \<Longrightarrow> dworker_step rate period s (s\<lparr>dworker := DNext\<rparr>)"
| d_next: "dworker s = DNext \<Longrightarrow> dworker_step rate period s (s\<lparr>next_time := now, dworker := DTest\<rparr>)"
| d_test: "dworker s = DTest \<Longrightarrow>
     dworker_step rate period s (s\<lparr>dworker := (if d_stop s then DDone else DLock)\<rparr>)"
| d_lock: "dworker s = DLock \<Longrightarrow> d_mtx s = None \<Longrightarrow>
     dworker_step rate period s (s\<lparr>d_mtx := Some DWorker, dworker := DPred\<rparr>)"
| d_pred: "dworker s = DPred \<Longrightarrow>
     dworker_step rate period s (s\<lparr>dworker := (if may_run s then DStop else DBlock)\<rparr>)"
| d_block: "dworker s = DBlock \<Longrightarrow> dworker_step rate period s (s\<lparr>d_mtx := None, dworker := DWait\<rparr>)"
| d_spurious: "dworker s = DWait \<Longrightarrow> dworker_step rate period s (s\<lparr>dworker := DRelock\<rparr>)"
| d_relock: "dworker s = DRelock \<Longrightarrow> d_mtx s = None \<Longrightarrow>
     dworker_step rate period s (s\<lparr>d_mtx := Some DWorker, dworker := DPred\<rparr>)"
| d_skip: "dworker s = DStop \<Longrightarrow> d_stop s \<Longrightarrow> dworker_step rate period s (s\<lparr>dworker := DClear\<rparr>)"
| d_measure: "dworker s = DStop \<Longrightarrow> \<not> d_stop s \<Longrightarrow>
     dworker_step rate period s (s\<lparr>d_previous := now, d_time := now, d_period := now - d_previous s,
       dworker := DCall now (now - d_previous s)\<rparr>)"
| d_call: "dworker s = DCall t p \<Longrightarrow>
     dworker_step rate period s (s\<lparr>calls := calls s @ [(t, p)], dworker := DStore r\<rparr>)"
| d_call_throws: "dworker s = DCall t p \<Longrightarrow>
     dworker_step rate period s (s\<lparr>calls := calls s @ [(t, p)], dworker := DThrow e\<rparr>)"
| d_store: "dworker s = DStore r \<Longrightarrow>
     dworker_step rate period s (s\<lparr>d_return := r, dworker := DTime\<rparr>)"
| d_throw: "dworker s = DThrow e \<Longrightarrow> dworker_step rate period s (s\<lparr>d_exc := Torn, dworker := DThrown e\<rparr>)"
| d_thrown: "dworker s = DThrown e \<Longrightarrow>
     dworker_step rate period s (s\<lparr>d_exc := Whole (Some e), dworker := DTime\<rparr>)"
| d_took: "dworker s = DTime \<Longrightarrow> dworker_step rate period s (s\<lparr>d_last_time := d, dworker := DPlan\<rparr>)"
| d_plan: "dworker s = DPlan \<Longrightarrow> next_iteration rate period (next_time s) now = Return n \<Longrightarrow>
     dworker_step rate period s (s\<lparr>next_time := n, dworker := DSleepUntil\<rparr>)"
| d_crash: "dworker s = DPlan \<Longrightarrow> next_iteration rate period (next_time s) now = Undefined \<Longrightarrow>
     dworker_step rate period s (s\<lparr>dworker := DCrash\<rparr>)"
| d_slept_until: "dworker s = DSleepUntil \<Longrightarrow> dworker_step rate period s (s\<lparr>dworker := DClear\<rparr>)"
| d_clear: "dworker s = DClear \<Longrightarrow>
     dworker_step rate period s (s\<lparr>d_in_progress := False, dworker := DUnlock\<rparr>)"
| d_unlock: "dworker s = DUnlock \<Longrightarrow> dworker_step rate period s (s\<lparr>d_mtx := None, dworker := DNotify\<rparr>)"
| d_notify: "dworker s = DNotify \<Longrightarrow> dworker_step rate period s (s\<lparr>dworker := DTest\<rparr>)"

section \<open>The clients\<close>

definition notify_detached :: "'r detached \<Rightarrow> 'r detached" where
  [effect_defs]: "notify_detached s =
     (if dworker s = DWait1 then s\<lparr>dworker := DRelock1\<rparr>
      else if dworker s = DWait then s\<lparr>dworker := DRelock\<rparr> else s)"

text \<open>
  \<^verbatim>\<open>trigger_async_callback\<close> of an initialised handler: it resumes a paused worker, with the mutex, and
  returns the last result. \<open>dflt\<close> is \<^verbatim>\<open>T()\<close>.
\<close>

inductive resume_step :: "'r \<Rightarrow> int \<Rightarrow> tid \<Rightarrow> 'r detached \<Rightarrow> 'r detached \<Rightarrow> bool"
  for dflt :: 'r and period :: int and i :: tid where
  dt_call: "dclients s i = DIdle \<Longrightarrow> resume_step dflt period i s (at_dclient i TExc s)"
| dt_exc: "dclients s i = TExc \<Longrightarrow> resume_step dflt period i s (at_dclient i
     (case d_exc s of Torn \<Rightarrow> TRace | Whole None \<Rightarrow> TPause | Whole (Some e) \<Rightarrow> TFail e) s)"
| dt_pause: "dclients s i = TPause \<Longrightarrow>
     resume_step dflt period i s (at_dclient i (if d_paused s then TLock else TRead) s)"
| dt_lock: "dclients s i = TLock \<Longrightarrow> d_mtx s = None \<Longrightarrow>
     resume_step dflt period i s (at_dclient i TSet (s\<lparr>d_mtx := Some (DClient i)\<rparr>))"
| dt_set: "dclients s i = TSet \<Longrightarrow> resume_step dflt period i s (at_dclient i TZero (s\<lparr>d_paused := False\<rparr>))"
| dt_zero: "dclients s i = TZero \<Longrightarrow> resume_step dflt period i s (at_dclient i TNow (s\<lparr>d_return := dflt\<rparr>))"
| dt_now: "dclients s i = TNow \<Longrightarrow> resume_step dflt period i s (at_dclient i (TPrev (now - period)) s)"
| dt_prev: "dclients s i = TPrev x \<Longrightarrow>
     resume_step dflt period i s (at_dclient i TUnlock (s\<lparr>d_previous := x, was_resumed := True\<rparr>))"
| dt_unlock: "dclients s i = TUnlock \<Longrightarrow>
     resume_step dflt period i s (at_dclient i TNotify (s\<lparr>d_mtx := None\<rparr>))"
| dt_notify: "dclients s i = TNotify \<Longrightarrow>
     resume_step dflt period i s (at_dclient i TRead (notify_detached s))"
| dt_read: "dclients s i = TRead \<Longrightarrow> resume_step dflt period i s (at_dclient i (TRet (d_return s)) s)"
| dt_ret: "dclients s i = TRet r \<Longrightarrow> resume_step dflt period i s (at_dclient i DIdle s)"
| dt_fail: "dclients s i = TFail e \<Longrightarrow> resume_step dflt period i s (at_dclient i DIdle s)"

text \<open>\<^verbatim>\<open>pause_execution\<close>.\<close>

inductive pause_step :: "tid \<Rightarrow> 'r detached \<Rightarrow> 'r detached \<Rightarrow> bool" for i :: tid where
  dp_call: "dclients s i = DIdle \<Longrightarrow> pause_step i s (at_dclient i PRun s)"
| dp_run: "dclients s i = PRun \<Longrightarrow>
     pause_step i s (at_dclient i (if d_joinable s then PStore else PRet (d_paused s)) s)"
| dp_store: "dclients s i = PStore \<Longrightarrow> pause_step i s (at_dclient i PLock (s\<lparr>d_paused := True\<rparr>))"
| dp_lock: "dclients s i = PLock \<Longrightarrow> d_mtx s = None \<Longrightarrow>
     pause_step i s (at_dclient i PUnlock (s\<lparr>d_mtx := Some (DClient i)\<rparr>))"
| dp_unlock: "dclients s i = PUnlock \<Longrightarrow> pause_step i s (at_dclient i (PRet True) (s\<lparr>d_mtx := None\<rparr>))"
| dp_ret: "dclients s i = PRet b \<Longrightarrow> pause_step i s (at_dclient i DIdle s)"

text \<open>\<^verbatim>\<open>stop_thread\<close>; the joins of two calls take place one after the other.\<close>

inductive dstop_step :: "tid \<Rightarrow> 'r detached \<Rightarrow> 'r detached \<Rightarrow> bool" for i :: tid where
  ds_call: "dclients s i = DIdle \<Longrightarrow> dstop_step i s (at_dclient i SRun s)"
| ds_run: "dclients s i = SRun \<Longrightarrow>
     dstop_step i s (at_dclient i (if d_joinable s then SStore else DIdle) s)"
| ds_store: "dclients s i = SStore \<Longrightarrow> dstop_step i s (at_dclient i SLock (s\<lparr>d_stop := True\<rparr>))"
| ds_lock: "dclients s i = SLock \<Longrightarrow> d_mtx s = None \<Longrightarrow>
     dstop_step i s (at_dclient i SUnlock (s\<lparr>d_mtx := Some (DClient i)\<rparr>))"
| ds_unlock: "dclients s i = SUnlock \<Longrightarrow> dstop_step i s (at_dclient i SNotify (s\<lparr>d_mtx := None\<rparr>))"
| ds_notify: "dclients s i = SNotify \<Longrightarrow> dstop_step i s (at_dclient i SJoin (notify_detached s))"
| ds_join: "dclients s i = SJoin \<Longrightarrow> d_joinable s \<Longrightarrow> dworker s = DDone \<Longrightarrow>
     dstop_step i s (at_dclient i DIdle (s\<lparr>d_joinable := False\<rparr>))"
| ds_joined: "dclients s i = SJoin \<Longrightarrow> \<not> d_joinable s \<Longrightarrow>
     dstop_step i s (at_dclient i (SThrow joined_already) s)"
| ds_throw: "dclients s i = SThrow e \<Longrightarrow> dstop_step i s (at_dclient i DIdle s)"

text \<open>\<^verbatim>\<open>join_async_callback_thread\<close>; the join itself is \<open>ds_join\<close>.\<close>

inductive djoin_step :: "tid \<Rightarrow> 'r detached \<Rightarrow> 'r detached \<Rightarrow> bool" for i :: tid where
  dj_call: "dclients s i = DIdle \<Longrightarrow> djoin_step i s (at_dclient i JRun s)"
| dj_run: "dclients s i = JRun \<Longrightarrow>
     djoin_step i s (at_dclient i (if d_joinable s then SJoin else DIdle) s)"

text \<open>\<^verbatim>\<open>reset_variables\<close>.\<close>

inductive dreset_step :: "'r \<Rightarrow> tid \<Rightarrow> 'r detached \<Rightarrow> 'r detached \<Rightarrow> bool" for dflt :: 'r and i :: tid where
  dr_call: "dclients s i = DIdle \<Longrightarrow> dreset_step dflt i s (at_dclient i RLock s)"
| dr_lock: "dclients s i = RLock \<Longrightarrow> d_mtx s = None \<Longrightarrow>
     dreset_step dflt i s (at_dclient i RSet (s\<lparr>d_mtx := Some (DClient i)\<rparr>))"
| dr_set: "dclients s i = RSet \<Longrightarrow>
     dreset_step dflt i s (at_dclient i REnd (s\<lparr>d_stop := False, d_in_progress := False, d_time := 0,
       d_period := 0, d_last_time := 0, d_return := dflt, d_exc := Torn\<rparr>))"
| dr_end: "dclients s i = REnd \<Longrightarrow> dreset_step dflt i s (at_dclient i RUnlock (s\<lparr>d_exc := Whole None\<rparr>))"
| dr_unlock: "dclients s i = RUnlock \<Longrightarrow> dreset_step dflt i s (at_dclient i DIdle (s\<lparr>d_mtx := None\<rparr>))"

inductive dclient_step :: "'r \<Rightarrow> int \<Rightarrow> tid \<Rightarrow> 'r detached \<Rightarrow> 'r detached \<Rightarrow> bool"
  for dflt :: 'r and period :: int and i :: tid where
  dc_resume: "resume_step dflt period i s t \<Longrightarrow> dclient_step dflt period i s t"
| dc_pause: "pause_step i s t \<Longrightarrow> dclient_step dflt period i s t"
| dc_stop: "dstop_step i s t \<Longrightarrow> dclient_step dflt period i s t"
| dc_join: "djoin_step i s t \<Longrightarrow> dclient_step dflt period i s t"
| dc_reset: "dreset_step dflt i s t \<Longrightarrow> dclient_step dflt period i s t"

inductive detached_step :: "'r \<Rightarrow> 32 word \<Rightarrow> 'r detached \<Rightarrow> 'r detached \<Rightarrow> bool"
  for dflt :: 'r and rate :: "32 word" where
  ds_worker: "dworker_step rate (1000000000 div uint rate) s t \<Longrightarrow> detached_step dflt rate s t"
| ds_client: "dclient_step dflt (1000000000 div uint rate) i s t \<Longrightarrow> detached_step dflt rate s t"

section \<open>The invariant\<close>

fun dw_holds :: "'r detached_pc \<Rightarrow> bool" where
  "dw_holds DFirst = False" | "dw_holds DLock1 = False" | "dw_holds DWait1 = False"
| "dw_holds DRelock1 = False" | "dw_holds DStart = False" | "dw_holds (DStarting _) = False"
| "dw_holds DSleep = False" | "dw_holds DNext = False" | "dw_holds DTest = False"
| "dw_holds DLock = False" | "dw_holds DWait = False" | "dw_holds DRelock = False"
| "dw_holds DNotify = False" | "dw_holds DDone = False" | "dw_holds _ = True"

fun dc_holds :: "'r dclient_pc \<Rightarrow> bool" where
  "dc_holds TSet = True" | "dc_holds TZero = True" | "dc_holds TNow = True" | "dc_holds (TPrev _) = True"
| "dc_holds TUnlock = True" | "dc_holds PUnlock = True" | "dc_holds SUnlock = True"
| "dc_holds RSet = True" | "dc_holds REnd = True" | "dc_holds RUnlock = True" | "dc_holds _ = False"

definition d_lock_inv :: "'r detached \<Rightarrow> bool" where
  "d_lock_inv s \<longleftrightarrow> monitor_ok dc_holds DClient DWorker (dclients s) (dw_holds (dworker s)) (d_mtx s)"

interpretation d_monitor: monitor dc_holds DClient DWorker
  by unfold_locales (auto simp: inj_def)

text \<open>Who owes the worker a notification.\<close>

fun resume_notifies :: "'r dclient_pc \<Rightarrow> bool" where
  "resume_notifies TZero = True" | "resume_notifies TNow = True" | "resume_notifies (TPrev _) = True"
| "resume_notifies TUnlock = True" | "resume_notifies TNotify = True" | "resume_notifies _ = False"

fun dstop_notifies :: "'r dclient_pc \<Rightarrow> bool" where
  "dstop_notifies SLock = True" | "dstop_notifies SUnlock = True" | "dstop_notifies SNotify = True"
| "dstop_notifies _ = False"

definition d_wake_at :: "bool \<Rightarrow> bool \<Rightarrow> bool \<Rightarrow> 'r detached \<Rightarrow> bool" where
  "d_wake_at res stp slk s \<longleftrightarrow>
     (dworker s \<in> {DWait1, DWait} \<and> \<not> d_paused s \<longrightarrow> res) \<and>
     (dworker s \<in> {DWait1, DWait} \<and> d_stop s \<longrightarrow> stp) \<and>
     (dworker s \<in> {DBlock1, DBlock} \<longrightarrow> d_paused s \<and> (d_stop s \<longrightarrow> slk))"

definition d_wake_inv :: "'r detached \<Rightarrow> bool" where
  "d_wake_inv s \<longleftrightarrow> d_wake_at (\<exists>j. resume_notifies (dclients s j)) (\<exists>j. dstop_notifies (dclients s j))
     (\<exists>j. dclients s j = SLock) s"

text \<open>The callbacks' periods are the times since the callback before, unless a trigger intervened.\<close>

fun chained :: "(int \<times> int) list \<Rightarrow> bool" where
  "chained [] = True"
| "chained [x] = True"
| "chained (x # y # zs) = (snd y = fst y - fst x \<and> chained (y # zs))"

fun measured :: "'r detached_pc \<Rightarrow> (int \<times> int) list \<Rightarrow> int \<Rightarrow> bool" where
  "measured (DCall t p) cs previous = (previous = t \<and> (cs \<noteq> [] \<longrightarrow> p = t - fst (last cs)))"
| "measured _ cs previous = (cs \<noteq> [] \<longrightarrow> previous = fst (last cs))"

definition measure_inv :: "'r detached \<Rightarrow> bool" where
  "measure_inv s \<longleftrightarrow> \<not> was_resumed s \<longrightarrow>
     chained (calls s) \<and> measured (dworker s) (calls s) (d_previous s)"

text \<open>Before its loop the worker has called nothing.\<close>

fun before_loop :: "'r detached_pc \<Rightarrow> bool" where
  "before_loop DFirst = True" | "before_loop DLock1 = True" | "before_loop DPred1 = True"
| "before_loop DBlock1 = True" | "before_loop DWait1 = True" | "before_loop DRelock1 = True"
| "before_loop DUnlock1 = True" | "before_loop DStart = True" | "before_loop (DStarting _) = True"
| "before_loop DSleep = True" | "before_loop DNext = True" | "before_loop _ = False"

definition detached_inv :: "'r detached \<Rightarrow> bool" where
  "detached_inv s \<longleftrightarrow> d_lock_inv s \<and> d_wake_inv s \<and> measure_inv s \<and>
     (before_loop (dworker s) \<longrightarrow> calls s = [])"

lemma detached_inv_init: "detached_init s \<Longrightarrow> detached_inv s"
  by (simp add: detached_init_def detached_inv_def d_lock_inv_def monitor_ok_def lock_agrees_def
      d_wake_inv_def d_wake_at_def measure_inv_def)

lemma chained_snoc:
  "chained xs \<Longrightarrow> (xs \<noteq> [] \<longrightarrow> snd y = fst y - fst (last xs)) \<Longrightarrow> chained (xs @ [y])"
  by (induction xs rule: chained.induct) auto

subsection \<open>Steps of the worker\<close>

lemma dworker_lock_inv: "dworker_step r p s t \<Longrightarrow> d_lock_inv s \<Longrightarrow> d_lock_inv t"
  by (erule dworker_step.cases) (auto simp: d_lock_inv_def monitor_ok_def lock_agrees_def)

lemma dslock_notifies: "dclients s i = SLock \<Longrightarrow> \<exists>i. dstop_notifies (dclients s i)"
  by (rule exI [of _ i]) simp

lemma dworker_wake_inv: "dworker_step r p s t \<Longrightarrow> d_wake_inv s \<Longrightarrow> d_wake_inv t"
  by (erule dworker_step.cases)
    (auto simp: d_wake_inv_def d_wake_at_def may_run_def intro: dslock_notifies)

lemma dworker_measure_inv:
  "dworker_step r p s t \<Longrightarrow> before_loop (dworker s) \<longrightarrow> calls s = [] \<Longrightarrow> measure_inv s \<Longrightarrow> measure_inv t"
  by (erule dworker_step.cases) (auto simp: measure_inv_def chained_snoc)

lemma dworker_before_loop:
  "dworker_step r p s t \<Longrightarrow> before_loop (dworker s) \<longrightarrow> calls s = [] \<Longrightarrow>
     before_loop (dworker t) \<longrightarrow> calls t = []"
  by (erule dworker_step.cases) (auto split: if_splits)

lemma dworker_step_inv: "dworker_step r p s t \<Longrightarrow> detached_inv s \<Longrightarrow> detached_inv t"
  using dworker_lock_inv [of r p s t] dworker_wake_inv [of r p s t] dworker_measure_inv [of r p s t]
    dworker_before_loop [of r p s t]
  by (simp add: detached_inv_def)

subsection \<open>Steps of a client\<close>

lemmas dclient_cases = resume_step.cases pause_step.cases dstop_step.cases djoin_step.cases
  dreset_step.cases

lemma dclient_step_cases:
  assumes "dclient_step d p i s t"
    and "resume_step d p i s t \<Longrightarrow> P" "pause_step i s t \<Longrightarrow> P" "dstop_step i s t \<Longrightarrow> P"
    and "djoin_step i s t \<Longrightarrow> P" "dreset_step d i s t \<Longrightarrow> P"
  shows P
  using assms by (auto elim: dclient_step.cases)

lemma notify_detached_frame [simp]:
  "dw_holds (dworker (notify_detached s)) = dw_holds (dworker s)"
  "before_loop (dworker (notify_detached s)) = before_loop (dworker s)"
  "dclients (notify_detached s) = dclients s" "d_mtx (notify_detached s) = d_mtx s"
  "calls (notify_detached s) = calls s" "was_resumed (notify_detached s) = was_resumed s"
  "d_previous (notify_detached s) = d_previous s"
  "measured (dworker (notify_detached s)) cs x = measured (dworker s) cs x"
  by (simp_all add: notify_detached_def)

lemma dclient_lock_inv: "dclient_step d p i s t \<Longrightarrow> d_lock_inv s \<Longrightarrow> d_lock_inv t"
  by (erule dclient_step_cases; erule dclient_cases)
    (simp_all add: at_dclient_def d_lock_inv_def d_monitor.rules split: content.split option.split)

lemma dclient_wake_inv:
  assumes "dclient_step d p i s t" "d_lock_inv s" "d_wake_inv s"
  shows "d_wake_inv t"
proof -
  have w: "dc_holds (dclients s i) \<Longrightarrow> dworker s \<notin> {DBlock1, DBlock}"
    using d_monitor.owner assms(2) unfolding d_lock_inv_def by fastforce
  have lk: "d_mtx s = None \<Longrightarrow> dworker s \<notin> {DBlock1, DBlock}"
    using d_monitor.free assms(2) unfolding d_lock_inv_def by fastforce
  note old = assms(3) [unfolded d_wake_inv_def ex_client_split [of _ "dclients s" i]
      ex_client_split [of "\<lambda>p. p = SLock" "dclients s" i]]
  note new = ex_client_upd [of resume_notifies] ex_client_upd [of dstop_notifies]
    ex_client_upd [of "\<lambda>p. p = SLock"]
  show ?thesis
    using assms(1)
    by (elim dclient_step_cases; elim dclient_cases; insert old lk w)
      (simp_all add: d_wake_inv_def effect_defs new d_wake_at_def del: fun_upd_apply
        split: content.split option.split)
qed

lemma dclient_measure_inv: "dclient_step d p i s t \<Longrightarrow> measure_inv s \<Longrightarrow> measure_inv t"
  by (erule dclient_step_cases; erule dclient_cases) (simp_all add: measure_inv_def at_dclient_def)

lemma dclient_before_loop:
  "dclient_step d p i s t \<Longrightarrow> before_loop (dworker t) = before_loop (dworker s) \<and> calls t = calls s"
  by (erule dclient_step_cases; erule dclient_cases) (simp_all add: at_dclient_def)

lemma dclient_step_inv: "dclient_step d p i s t \<Longrightarrow> detached_inv s \<Longrightarrow> detached_inv t"
  using dclient_lock_inv [of d p i s t] dclient_wake_inv [of d p i s t] dclient_measure_inv [of d p i s t]
    dclient_before_loop [of d p i s t]
  by (simp add: detached_inv_def)

interpretation detachedm: safety detached_init "detached_step d r" detached_inv for d r
proof
  show "detached_init s \<Longrightarrow> detached_inv s" for s :: "'a detached"
    by (rule detached_inv_init)
  show "detached_inv t" if "detached_inv s" "detached_step d r s t" for s t :: "'a detached"
    using that(2,1) by cases (auto intro: dworker_step_inv dclient_step_inv)
qed

abbreviation detached_reach :: "'r \<Rightarrow> 32 word \<Rightarrow> 'r detached \<Rightarrow> bool" where
  "detached_reach d r \<equiv> reach detached_init (detached_step d r)"

lemmas detached_reach_inv = detachedm.reach_inv

lemma detached_invD:
  assumes "detached_inv s"
  shows "d_lock_inv s" "d_wake_inv s" "measure_inv s"
  using assms by (simp_all add: detached_inv_def)

section \<open>Runs to show that the hypotheses can hold\<close>

text \<open>
  A handler with a rate of 1 kHz that starts paused and whose worker waits; client 1 resumes it;
  the worker makes its first call; client 2 pauses it.
\<close>

definition run_start :: "nat detached" where
  "run_start = \<lparr>d_mtx = None, d_stop = False, d_in_progress = False, d_paused = True, d_time = 0,
     d_period = 0, d_previous = 0, next_time = 0, d_return = 0, d_last_time = 0, d_exc = Whole None,
     d_joinable = True, dworker = DFirst, dclients = (\<lambda>_. DIdle), calls = [], was_resumed = False\<rparr>"

definition run_waiting :: "nat detached" where
  "run_waiting = run_start\<lparr>dworker := DWait1\<rparr>"

definition run_resumed :: "nat detached" where
  "run_resumed = run_waiting\<lparr>d_mtx := Some (DClient 1), d_paused := False, d_previous := 9000000,
     dclients := (\<lambda>_. DIdle)(1 := TUnlock), was_resumed := True\<rparr>"

definition run_pausing :: "nat detached" where
  "run_pausing = run_waiting\<lparr>d_mtx := Some (DClient 2), dclients := (\<lambda>_. DIdle)(2 := PUnlock)\<rparr>"

lemmas run_defs = run_start_def run_waiting_def run_resumed_def run_pausing_def

lemmas ds_resume = ds_client [OF dc_resume]
lemmas ds_pause = ds_client [OF dc_pause]
lemmas ds_stopping = ds_client [OF dc_stop]

lemma run_waiting_reach: "detached_reach d 1000 run_waiting"
proof -
  have "steps (detached_step d 1000) run_start run_waiting"
    apply (rule steps_step, rule ds_worker, rule d_first, simp add: run_start_def)
    apply (rule steps_step, rule ds_worker, rule d_lock1, simp add: run_start_def, simp add: run_start_def)
    apply (rule steps_step, rule ds_worker, rule d_pred1, simp)
    apply (rule steps_step, rule ds_worker, rule d_block1, simp add: run_start_def may_run_def)
    apply (rule steps_eq)
    apply (simp add: run_defs)
    done
  then show ?thesis
    by (rule reach_steps) (simp add: reach_init detached_init_def run_start_def)
qed

lemma run_resumed_reach: "detached_reach 0 1000 run_resumed"
proof -
  have "steps (detached_step 0 1000) run_waiting run_resumed"
    unfolding run_waiting_def run_start_def
    apply (rule steps_step, rule ds_resume [where i = 1], rule dt_call, simp, simp add: effect_defs)
    apply (rule steps_step, rule ds_resume [where i = 1], rule dt_exc, simp, simp add: effect_defs)
    apply (rule steps_step, rule ds_resume [where i = 1], rule dt_pause, simp, simp add: effect_defs)
    apply (rule steps_step, rule ds_resume [where i = 1], rule dt_lock, simp, simp, simp add: effect_defs)
    apply (rule steps_step, rule ds_resume [where i = 1], rule dt_set, simp, simp add: effect_defs)
    apply (rule steps_step, rule ds_resume [where i = 1], rule dt_zero, simp, simp add: effect_defs)
    apply (rule steps_step, rule ds_resume [where i = 1], rule dt_now [where now = 10000000], simp, simp add: effect_defs)
    apply (rule steps_step, rule ds_resume [where i = 1], rule dt_prev, simp, simp add: effect_defs)
    apply (rule steps_eq)
    apply (simp add: run_defs fun_eq_iff)
    done
  then show ?thesis by (rule reach_steps) (rule run_waiting_reach)
qed

lemma run_pausing_reach: "detached_reach d 1000 run_pausing"
proof -
  have "steps (detached_step d 1000) run_waiting run_pausing"
    unfolding run_waiting_def run_start_def
    apply (rule steps_step, rule ds_pause [where i = 2], rule dp_call, simp, simp add: effect_defs)
    apply (rule steps_step, rule ds_pause [where i = 2], rule dp_run, simp, simp add: effect_defs)
    apply (rule steps_step, rule ds_pause [where i = 2], rule dp_store, simp, simp add: effect_defs)
    apply (rule steps_step, rule ds_pause [where i = 2], rule dp_lock, simp, simp, simp add: effect_defs)
    apply (rule steps_eq)
    apply (simp add: run_defs fun_eq_iff)
    done
  then show ?thesis by (rule reach_steps) (rule run_waiting_reach)
qed

section \<open>Properties\<close>

subsection \<open>Pausing\<close>

text \<open>Steps that do not clear the pause flag.\<close>

definition quiet_step :: "'r \<Rightarrow> 32 word \<Rightarrow> 'r detached \<Rightarrow> 'r detached \<Rightarrow> bool" where
  "quiet_step d r s t \<longleftrightarrow> detached_step d r s t \<and> (d_paused s \<longrightarrow> d_paused t)"

fun calling :: "'r detached_pc \<Rightarrow> bool" where
  "calling (DCall _ _) = True"
| "calling _ = False"

definition quiet :: "'r detached \<Rightarrow> bool" where
  "quiet s \<longleftrightarrow> detached_inv s \<and> d_paused s \<and> (dworker s = DStop \<longrightarrow> d_stop s) \<and> \<not> calling (dworker s)"

lemma dclient_quiet:
  assumes "dclient_step d p i s t" "quiet s"
  shows "(dworker t = DStop \<longrightarrow> d_stop t) \<and> \<not> calling (dworker t)"
proof -
  have "dc_holds (dclients s i) \<Longrightarrow> dworker s \<noteq> DStop"
    using d_monitor.owner assms(2) unfolding quiet_def detached_inv_def d_lock_inv_def by fastforce
  with assms show ?thesis
    by (elim dclient_step_cases; elim dclient_cases) (auto simp: quiet_def effect_defs)
qed

interpretation quieting: safety quiet "quiet_step d r" quiet for d r
proof
  show "quiet t" if q: "quiet s" and step: "quiet_step d r s t" for s t :: "'a detached"
  proof -
    have inv: "detached_inv s" "d_paused s" "d_paused t"
      using q step by (simp_all add: quiet_def quiet_step_def)
    from step have "detached_step d r s t" by (simp add: quiet_step_def)
    then show ?thesis
    proof cases
      case ds_worker
      moreover have "(dworker t = DStop \<longrightarrow> d_stop t) \<and> \<not> calling (dworker t)"
        using ds_worker q by cases (auto simp: quiet_def may_run_def)
      ultimately show ?thesis using inv dworker_step_inv by (auto simp: quiet_def)
    next
      case (ds_client i)
      with inv dclient_quiet [OF ds_client q] show ?thesis
        using dclient_step_inv by (auto simp: quiet_def)
    qed
  qed
qed

lemma quiet_calls:
  assumes "quiet_step d r s t" "quiet s"
  shows "calls t = calls s"
proof -
  from assms(1) have "detached_step d r s t" by (simp add: quiet_step_def)
  then show ?thesis
  proof cases
    case ds_worker
    then show ?thesis using assms(2) by cases (auto simp: quiet_def)
  next
    case (ds_client i)
    then show ?thesis by (auto dest: dclient_before_loop)
  qed
qed

lemma quiet_steps_calls: "steps (quiet_step d r) s t \<Longrightarrow> quiet s \<Longrightarrow> calls t = calls s"
  by (induction rule: steps.induct) (auto simp: quiet_calls dest: quieting.inv_step)

text \<open>
  C17. \<^verbatim>\<open>pause_execution\<close> is effective when it returns: from the moment it holds the mutex with the
  handler still paused, no callback is running, and none is called until a trigger resumes the
  worker, whatever the other threads do.
\<close>

theorem pause_is_effective:
  assumes "detached_reach d r s" "dclients s i = PUnlock" "d_paused s"
    and "steps (quiet_step d r) s t"
  shows "\<not> calling (dworker s) \<and> calls t = calls s"
proof -
  have inv: "detached_inv s" by (rule detached_reach_inv [OF assms(1)])
  then have "\<not> dw_holds (dworker s)"
    using d_monitor.owner [of "dclients s" _ "d_mtx s" i] assms(2) detached_invD(1) [OF inv]
    unfolding d_lock_inv_def by auto
  then have "dworker s \<noteq> DStop" "\<not> calling (dworker s)" by (auto elim: calling.elims)
  with inv assms(3) have "quiet s" by (simp add: quiet_def)
  with quiet_steps_calls [OF assms(4)] show ?thesis by (simp add: quiet_def)
qed

theorem pause_is_effective_witness:
  "calls (at_dclient 2 (PRet True) (run_pausing\<lparr>d_mtx := None\<rparr>)) = []"
proof -
  have at: "dclients run_pausing 2 = PUnlock" "d_paused run_pausing" "calls run_pausing = []"
    by (simp_all add: run_defs)
  have "quiet_step 0 1000 run_pausing (at_dclient 2 (PRet True) (run_pausing\<lparr>d_mtx := None\<rparr>))"
    using ds_pause [OF dp_unlock [OF at(1)]] at(2) by (simp add: quiet_step_def at_dclient_def)
  then have "steps (quiet_step 0 1000) run_pausing (at_dclient 2 (PRet True) (run_pausing\<lparr>d_mtx := None\<rparr>))"
    by (rule steps_one)
  from pause_is_effective [OF run_pausing_reach at(1,2) this] at(3) show ?thesis by simp
qed

text \<open>
  Unless a trigger resumed the worker, the period handed to each callback is the time that has
  passed since the time handed to the one before.
\<close>

theorem periods_measured:
  assumes "detached_reach d r s" "\<not> was_resumed s"
  shows "chained (calls s)"
  using detached_invD(3) [OF detached_reach_inv [OF assms(1)]] assms(2) by (simp add: measure_inv_def)

definition run_free :: "nat detached" where
  "run_free = run_start\<lparr>d_paused := False\<rparr>"

definition run_once :: "nat detached" where
  "run_once = run_free\<lparr>d_mtx := Some DWorker, d_previous := 2010000, d_time := 2010000, d_period := 1010000,
     next_time := 5000000, dworker := DStore 4, calls := [(2010000, 1010000)]\<rparr>"

definition run_twice :: "nat detached" where
  "run_twice = run_once\<lparr>d_previous := 3000000, d_time := 3000000, d_period := 990000, d_return := 4,
     d_last_time := 300, next_time := 6000000, calls := [(2010000, 1010000), (3000000, 990000)]\<rparr>"

lemma run_once_steps: "steps (detached_step d 1000) run_free run_once"
  unfolding run_free_def run_start_def
  apply (rule steps_step, rule ds_worker, rule d_first, simp)
  apply (rule steps_step, rule ds_worker, rule d_start [where now = 1000000], simp)
  apply (rule steps_step, rule ds_worker, rule d_started, simp)
  apply (rule steps_step, rule ds_worker, rule d_slept, simp)
  apply (rule steps_step, rule ds_worker, rule d_next [where now = 5000000], simp)
  apply (rule steps_step, rule ds_worker, rule d_test, simp)
  apply (rule steps_step, rule ds_worker, rule d_lock, simp, simp)
  apply (rule steps_step, rule ds_worker, rule d_pred, simp)
  apply (rule steps_step, rule ds_worker, rule d_measure [where now = 2010000], simp add: may_run_def, simp)
  apply (rule steps_step, rule ds_worker, rule d_call [where r = 4], simp)
  apply (rule steps_eq)
  apply (simp add: run_once_def run_free_def run_start_def)
  done

lemma run_twice_steps: "steps (detached_step d 1000) run_once run_twice"
  unfolding run_once_def run_free_def run_start_def
  apply (rule steps_step, rule ds_worker, rule d_store, simp)
  apply (rule steps_step, rule ds_worker, rule d_took [where d = 300], simp)
  apply (rule steps_step, rule ds_worker, rule d_plan [where now = 5500000 and n = 6000000], simp,
      simp add: next_iteration_def)
  apply (rule steps_step, rule ds_worker, rule d_slept_until, simp)
  apply (rule steps_step, rule ds_worker, rule d_clear, simp)
  apply (rule steps_step, rule ds_worker, rule d_unlock, simp)
  apply (rule steps_step, rule ds_worker, rule d_notify, simp)
  apply (rule steps_step, rule ds_worker, rule d_test, simp)
  apply (rule steps_step, rule ds_worker, rule d_lock, simp, simp)
  apply (rule steps_step, rule ds_worker, rule d_pred, simp)
  apply (rule steps_step, rule ds_worker, rule d_measure [where now = 3000000], simp add: may_run_def, simp)
  apply (rule steps_step, rule ds_worker, rule d_call [where r = 4], simp)
  apply (rule steps_eq)
  apply (simp add: run_twice_def run_once_def run_free_def run_start_def)
  done

lemma run_twice_reach: "detached_reach d 1000 run_twice"
proof (rule reach_steps [OF steps_trans [OF run_once_steps run_twice_steps]])
  show "detached_reach d 1000 run_free"
    by (simp add: reach_init detached_init_def run_free_def run_start_def)
qed

theorem periods_measured_witness: "chained (calls run_twice) \<and> length (calls run_twice) = 2"
  using periods_measured [OF run_twice_reach]
  by (simp add: run_twice_def run_once_def run_free_def run_start_def)

subsection \<open>The schedule\<close>

text \<open>Calls whose cycle has been planned.\<close>

fun unplanned :: "'r detached_pc \<Rightarrow> nat" where
  "unplanned (DStore _) = 1" | "unplanned (DThrow _) = 1" | "unplanned (DThrown _) = 1"
| "unplanned DTime = 1" | "unplanned DPlan = 1" | "unplanned DCrash = 1" | "unplanned _ = 0"

definition planned_calls :: "'r detached \<Rightarrow> int" where
  "planned_calls s = int (length (calls s)) - int (unplanned (dworker s))"

definition phase :: "int \<Rightarrow> 'r detached \<Rightarrow> 'r detached \<Rightarrow> bool" where
  "phase p s t \<longleftrightarrow> \<not> before_loop (dworker t) \<and>
     (\<exists>k. next_time t = next_time s + int k * p \<and> planned_calls t \<le> planned_calls s + int k)"

lemma phase_refl: "\<not> before_loop (dworker s) \<Longrightarrow> phase p s s"
  by (auto simp: phase_def intro: exI [of _ 0])

lemma phase_trans: "phase p s t \<Longrightarrow> phase p t u \<Longrightarrow> phase p s u"
  unfolding phase_def by (clarsimp, rule exI [of _ "_ + _"]) (auto simp: algebra_simps)

lemma dworker_phase:
  assumes "dworker_step r p s t" "0 < r" "\<not> before_loop (dworker s)"
  shows "phase p s t"
  using assms(1)
proof cases
  case (d_plan now n)
  then show ?thesis
    using next_iteration_phase [OF assms(2) d_plan(3)] by (auto simp: phase_def planned_calls_def)
qed (use assms(3) in \<open>auto simp: phase_def planned_calls_def intro: exI [of _ 0]\<close>)

lemma dclient_frame:
  "dclient_step d p i s t \<Longrightarrow> next_time t = next_time s \<and> unplanned (dworker t) = unplanned (dworker s)"
  by (erule dclient_step_cases; erule dclient_cases) (simp_all add: effect_defs)

lemma detached_phase:
  assumes "detached_step d r s t" "0 < r" "\<not> before_loop (dworker s)"
  shows "phase (1000000000 div uint r) s t"
  using assms(1)
proof cases
  case ds_worker
  then show ?thesis by (rule dworker_phase [OF _ assms(2,3)])
next
  case (ds_client i)
  then show ?thesis
    using dclient_before_loop [OF ds_client] dclient_frame [OF ds_client] assms(3)
    by (auto simp: phase_def planned_calls_def intro: exI [of _ 0])
qed

lemma detached_steps_phase:
  assumes "0 < r"
  shows "steps (detached_step d r) s t \<Longrightarrow> \<not> before_loop (dworker s) \<Longrightarrow> phase (1000000000 div uint r) s t"
proof (induction rule: steps.induct)
  case (steps_refl s)
  then show ?case by (rule phase_refl)
next
  case (steps_step s t u)
  have "phase (1000000000 div uint r) s t"
    by (rule detached_phase [OF steps_step.hyps(1) assms steps_step.prems])
  then show ?case using steps_step.IH by (blast intro: phase_trans dest: phase_def [THEN iffD1])
qed

text \<open>
  The schedule keeps its phase: once the worker is in its loop, the time of the next iteration
  only ever moves by whole periods, over pauses, failures of the callback and overruns, and there
  are never more calls of the callback than periods scheduled, but for the one under way.
\<close>

theorem schedule_keeps_phase:
  assumes "steps (detached_step d r) s t" "0 < r" "\<not> before_loop (dworker s)"
  shows "\<exists>k. next_time t = next_time s + int k * (1000000000 div uint r) \<and>
    length (calls t) \<le> length (calls s) + k + 1"
proof -
  have "phase (1000000000 div uint r) s t"
    by (rule detached_steps_phase [OF assms(2,1,3)])
  moreover have "unplanned (dworker t) \<le> 1" by (cases "dworker t") simp_all
  ultimately show ?thesis by (fastforce simp: phase_def planned_calls_def)
qed

theorem schedule_keeps_phase_witness:
  "\<exists>k. next_time run_twice = next_time run_once + int k * 1000000 \<and>
    length (calls run_twice) \<le> length (calls run_once) + k + 1"
  using schedule_keeps_phase [OF run_twice_steps] by (simp add: run_once_def)

subsection \<open>Progress\<close>

definition d_blocked :: "'r detached \<Rightarrow> bool" where
  "d_blocked s \<longleftrightarrow> dworker s \<in> {DWait1, DWait} \<or>
     dworker s \<in> {DLock1, DRelock1, DLock, DRelock} \<and> d_mtx s \<noteq> None"

lemma d_can_step:
  "resume_step d p i s t \<Longrightarrow> \<exists>t. dclient_step d p i s t"
  "pause_step i s t \<Longrightarrow> \<exists>t. dclient_step d p i s t"
  "dstop_step i s t \<Longrightarrow> \<exists>t. dclient_step d p i s t"
  "djoin_step i s t \<Longrightarrow> \<exists>t. dclient_step d p i s t"
  "dreset_step d i s t \<Longrightarrow> \<exists>t. dclient_step d p i s t"
  by (blast intro: dclient_step.intros)+

lemma d_holder_enabled: "dc_holds (dclients s i) \<Longrightarrow> \<exists>t. dclient_step d p i s t"
  by (cases "dclients s i") (auto intro: d_can_step dt_set dt_zero dt_now dt_prev dt_unlock dp_unlock
      ds_unlock dr_set dr_end dr_unlock)

lemma d_mutex_owner:
  assumes "d_lock_inv s" "d_mtx s \<noteq> None" "\<not> dw_holds (dworker s)"
  obtains i where "dc_holds (dclients s i)"
proof (rule d_monitor.some_holder)
  show "d_mtx s \<in> insert (Some DWorker) (range (Some \<circ> DClient))"
    using assms(2) by (cases "d_mtx s"; cases "the (d_mtx s)") auto
qed (use assms in \<open>simp_all add: d_lock_inv_def\<close>)

lemma d_notifier_enabled:
  assumes "resume_notifies (dclients s i) \<or> dstop_notifies (dclients s i)" "d_lock_inv s"
    and "\<not> dw_holds (dworker s)"
  shows "\<exists>j t. (dc_holds (dclients s j) \<or> resume_notifies (dclients s j) \<or> dstop_notifies (dclients s j)) \<and>
    dclient_step d p j s t"
proof (cases "d_mtx s")
  case None
  with assms(1) have "\<exists>t. dclient_step d p i s t"
    by (cases "dclients s i") (auto intro: d_can_step dt_zero dt_now dt_prev dt_unlock dt_notify
        ds_lock ds_unlock ds_notify)
  with assms(1) show ?thesis by blast
next
  case (Some u)
  then obtain j where "dc_holds (dclients s j)" using d_mutex_owner [OF assms(2) _ assms(3)] by blast
  then show ?thesis using d_holder_enabled [of s j] by blast
qed

text \<open>
  C22. No lost wake-up: whenever the worker is blocked, in a wait or for the mutex, although it may
  run, a client inside a call holds the mutex or owes the worker a notification, and it or the
  holder can take its next step.
\<close>

theorem detached_not_stranded:
  assumes "detached_reach d r s" "d_blocked s" "\<not> d_paused s \<or> d_stop s"
  shows "\<exists>i t. (dc_holds (dclients s i) \<or> resume_notifies (dclients s i) \<or> dstop_notifies (dclients s i)) \<and>
    dclient_step d (1000000000 div uint r) i s t"
proof -
  note inv = detached_invD [OF detached_reach_inv [OF assms(1)]]
  have free: "\<not> dw_holds (dworker s)" using assms(2) by (auto simp: d_blocked_def)
  show ?thesis
  proof (cases "dworker s \<in> {DWait1, DWait}")
    case True
    then obtain i where "resume_notifies (dclients s i) \<or> dstop_notifies (dclients s i)"
      using inv(2) assms(3) unfolding d_wake_inv_def d_wake_at_def by blast
    then show ?thesis by (rule d_notifier_enabled [OF _ inv(1) free])
  next
    case False
    with assms(2) have "d_mtx s \<noteq> None" by (auto simp: d_blocked_def)
    then obtain i where "dc_holds (dclients s i)" using d_mutex_owner [OF inv(1) _ free] by blast
    then show ?thesis using d_holder_enabled [of s i] by blast
  qed
qed

theorem detached_not_stranded_witness:
  "d_blocked run_resumed \<and> \<not> d_paused run_resumed \<and>
   (\<exists>i t. (dc_holds (dclients run_resumed i) \<or> resume_notifies (dclients run_resumed i) \<or>
     dstop_notifies (dclients run_resumed i)) \<and> dclient_step 0 (1000000000 div uint (1000 :: 32 word)) i run_resumed t)"
  using detached_not_stranded [OF run_resumed_reach] by (simp add: d_blocked_def run_defs)

text \<open>How many steps the worker has left once it is to stop, if callback and sleeps return.\<close>

fun dworker_rank :: "'r detached_pc \<Rightarrow> nat" where
  "dworker_rank DFirst = 24" | "dworker_rank DBlock1 = 24" | "dworker_rank DLock1 = 23"
| "dworker_rank DWait1 = 23" | "dworker_rank DRelock1 = 22" | "dworker_rank DPred1 = 21"
| "dworker_rank DUnlock1 = 20" | "dworker_rank DStart = 19" | "dworker_rank (DStarting _) = 18"
| "dworker_rank DSleep = 17" | "dworker_rank DNext = 16" | "dworker_rank DBlock = 15"
| "dworker_rank DLock = 13" | "dworker_rank DWait = 14" | "dworker_rank DRelock = 13"
| "dworker_rank DPred = 12" | "dworker_rank DStop = 11" | "dworker_rank (DCall _ _) = 10"
| "dworker_rank (DThrow _) = 9" | "dworker_rank (DThrown _) = 8" | "dworker_rank (DStore _) = 8"
| "dworker_rank DTime = 7" | "dworker_rank DPlan = 6" | "dworker_rank DSleepUntil = 5"
| "dworker_rank DClear = 4" | "dworker_rank DUnlock = 3" | "dworker_rank DNotify = 2"
| "dworker_rank DTest = 1" | "dworker_rank DDone = 0" | "dworker_rank DCrash = 0"

text \<open>Steps of clients other than resets.\<close>

inductive d_calm_step :: "'r \<Rightarrow> int \<Rightarrow> 'r detached \<Rightarrow> 'r detached \<Rightarrow> bool" for d :: 'r and p :: int where
  dk_resume: "resume_step d p i s t \<Longrightarrow> d_calm_step d p s t"
| dk_pause: "pause_step i s t \<Longrightarrow> d_calm_step d p s t"
| dk_stop: "dstop_step i s t \<Longrightarrow> d_calm_step d p s t"
| dk_join: "djoin_step i s t \<Longrightarrow> d_calm_step d p s t"

lemmas d_calm_cases = resume_step.cases pause_step.cases dstop_step.cases djoin_step.cases

interpretation detached_stop: ranked "dworker_step r p" "d_calm_step d p" d_stop
    "\<lambda>s. dworker_rank (dworker s)" for r d p
proof
  fix s t :: "'a detached"
  assume stop: "d_stop s"
  show "d_stop t" if "dworker_step r p s t" using that stop by cases simp_all
  show "dworker_rank (dworker t) < dworker_rank (dworker s)" if "dworker_step r p s t"
    using that stop by cases (auto simp: may_run_def)
  show "d_stop t" if "d_calm_step d p s t"
    using that stop by cases (erule d_calm_cases; simp add: effect_defs)+
  show "dworker_rank (dworker t) \<le> dworker_rank (dworker s)" if "d_calm_step d p s t"
    using that by cases (erule d_calm_cases; simp add: effect_defs)+
qed

text \<open>
  \<^verbatim>\<open>stop_thread\<close> ends the detached worker wherever it is, paused or not: once the flag is set and
  as long as nobody resets it, the worker takes at most twenty-four more steps.
\<close>

theorem stop_ends_detached:
  assumes "own_steps (dworker_step r p) (d_calm_step d p) n s t" "d_stop s"
  shows "n \<le> 24 \<and> d_stop t"
proof -
  have "dworker_rank (dworker s) \<le> 24" by (cases "dworker s") auto
  then show ?thesis using detached_stop.own_steps_bounded [OF assms] by auto
qed

theorem stop_ends_detached_witness:
  "(1::nat) \<le> 24 \<and> d_stop (run_start\<lparr>d_stop := True, dworker := DDone\<rparr>)"
proof -
  have "own_steps (dworker_step 1000 1000000) (d_calm_step 0 1000000) (Suc 0)
      (run_start\<lparr>d_stop := True, dworker := DTest\<rparr>) (run_start\<lparr>d_stop := True, dworker := DDone\<rparr>)"
    apply (rule own_own, rule d_test, simp)
    apply (simp add: run_start_def own_none)
    done
  from stop_ends_detached [OF this] show ?thesis by simp
qed

text \<open>
  The worker writes \<^verbatim>\<open>previous_time_\<close> before its loop without the mutex; a trigger that resumes the
  handler can be in its own write of it at that time.
\<close>

definition run_race :: "nat detached" where
  "run_race = run_start\<lparr>d_mtx := Some (DClient 1), d_paused := False,
     dworker := DStarting 5, dclients := (\<lambda>_. DIdle)(1 := TPrev 3, 2 := PLock)\<rparr>"

lemma previous_time_races:
  "\<exists>s x y. detached_reach 0 1000 (s :: nat detached) \<and> dworker s = DStarting x \<and> dclients s 1 = TPrev y"
proof -
  have "steps (detached_step 0 1000) run_free run_race"
    unfolding run_free_def run_start_def
    apply (rule steps_step, rule ds_worker, rule d_first, simp)
    apply (rule steps_step, rule ds_pause [where i = 2], rule dp_call, simp, simp add: effect_defs)
    apply (rule steps_step, rule ds_pause [where i = 2], rule dp_run, simp, simp add: effect_defs)
    apply (rule steps_step, rule ds_pause [where i = 2], rule dp_store, simp, simp add: effect_defs)
    apply (rule steps_step, rule ds_resume [where i = 1], rule dt_call, simp, simp add: effect_defs)
    apply (rule steps_step, rule ds_resume [where i = 1], rule dt_exc, simp, simp add: effect_defs)
    apply (rule steps_step, rule ds_resume [where i = 1], rule dt_pause, simp, simp add: effect_defs)
    apply (rule steps_step, rule ds_resume [where i = 1], rule dt_lock, simp, simp, simp add: effect_defs)
    apply (rule steps_step, rule ds_resume [where i = 1], rule dt_set, simp, simp add: effect_defs)
    apply (rule steps_step, rule ds_resume [where i = 1], rule dt_zero, simp, simp add: effect_defs)
    apply (rule steps_step, rule ds_resume [where i = 1], rule dt_now [where now = 1000003], simp, simp add: effect_defs)
    apply (rule steps_step, rule ds_worker, rule d_start [where now = 5], simp)
    apply (rule steps_eq)
    apply (simp add: run_race_def run_start_def fun_eq_iff)
    done
  then have "detached_reach 0 1000 run_race"
    by (rule reach_steps) (simp add: reach_init detached_init_def run_free_def run_start_def)
  moreover have "dworker run_race = DStarting 5" "dclients run_race 1 = TPrev 3"
    by (simp_all add: run_race_def)
  ultimately show ?thesis by blast
qed

end
