(* ===== verification/Async_Clock.thy ===== *)
theory Async_Clock
  imports Async_Detached
begin

text \<open>
  The detached worker against \<^verbatim>\<open>std::chrono::steady_clock\<close>: the machine of \<open>Async_Detached\<close>, in which
  readings of the clock are arbitrary and sleeps end at any time, restricted to the readings and
  the ends of sleeps that a monotone clock allows.
\<close>

section \<open>The machine with its clock\<close>

text \<open>
  A state is the time and a state of the machine. The clock only moves forward, while anything
  else does or does not happen. A reading of it gives the time, and \<^verbatim>\<open>sleep_until\<close> does not return
  before the time it is given. The other sleep, before the loop, and the readings of
  \<^verbatim>\<open>params_.clock\<close> and of the time the callback takes are as before.
\<close>

definition on_time :: "32 word \<Rightarrow> int \<Rightarrow> 'r detached \<Rightarrow> 'r detached \<Rightarrow> bool" where
  "on_time rate now s t \<longleftrightarrow>
     (case dworker s of
        DNext \<Rightarrow> next_time t = now
      | DPlan \<Rightarrow> (case next_iteration rate (1000000000 div uint rate) (next_time s) now of
          Return n \<Rightarrow> next_time t = n \<and> dworker t = DSleepUntil
        | _ \<Rightarrow> dworker t = DCrash)
      | DSleepUntil \<Rightarrow> next_time s \<le> now
      | _ \<Rightarrow> True)"

inductive clocked_step :: "'r \<Rightarrow> 32 word \<Rightarrow> int \<times> 'r detached \<Rightarrow> int \<times> 'r detached \<Rightarrow> bool"
  for dflt :: 'r and rate :: "32 word" where
  ck_tick: "now \<le> later \<Longrightarrow> clocked_step dflt rate (now, s) (later, s)"
| ck_worker: "dworker_step rate (1000000000 div uint rate) s t \<Longrightarrow> on_time rate now s t \<Longrightarrow>
     clocked_step dflt rate (now, s) (now, t)"
| ck_client: "dclient_step dflt (1000000000 div uint rate) i s t \<Longrightarrow>
     clocked_step dflt rate (now, s) (now, t)"

text \<open>Without its clock it is the machine as it was.\<close>

lemma clocked_step_detached:
  "clocked_step d r x y \<Longrightarrow> steps (detached_step d r) (snd x) (snd y)"
  by (erule clocked_step.cases) (auto intro: steps_refl steps_one ds_worker ds_client)

lemma clocked_steps_detached:
  "steps (clocked_step d r) x y \<Longrightarrow> steps (detached_step d r) (snd x) (snd y)"
  by (induction rule: steps.induct) (auto intro: steps_refl steps_trans clocked_step_detached)

section \<open>How often the callback is called\<close>

text \<open>From the test of the loop to the end of the plan the time of the iteration has come.\<close>

fun due :: "'r detached_pc \<Rightarrow> bool" where
  "due DSleepUntil = False"
| "due DCrash = False"
| "due DDone = False"
| "due p = (\<not> before_loop p)"

definition due_inv :: "int \<times> 'r detached \<Rightarrow> bool" where
  "due_inv x \<longleftrightarrow> \<not> before_loop (dworker (snd x)) \<and> (due (dworker (snd x)) \<longrightarrow> next_time (snd x) \<le> fst x)"

lemma dclient_due:
  "dclient_step d p i s t \<Longrightarrow> due (dworker t) = due (dworker s) \<and> next_time t = next_time s"
  by (erule dclient_step_cases; erule dclient_cases) (simp_all add: effect_defs)

interpretation clocked: safety due_inv "clocked_step d r" due_inv for d r
proof
  show "due_inv y" if inv: "due_inv x" and step: "clocked_step d r x y" for x y :: "int \<times> 'a detached"
    using step
  proof cases
    case (ck_tick now later s)
    with inv show ?thesis by (auto simp: due_inv_def)
  next
    case (ck_worker s t now)
    from ck_worker(3) inv ck_worker(1,2,4) show ?thesis
      by cases (auto simp: due_inv_def on_time_def)
  next
    case (ck_client i s t now)
    then show ?thesis
      using inv dclient_due [OF ck_client(3)] dclient_before_loop [OF ck_client(3)]
      by (auto simp: due_inv_def)
  qed
qed

text \<open>
  C21. The callback is never called more often than its rate, whatever the other threads do and
  however long callbacks and pauses take: when the worker is about to make its \<open>n\<close>-th call after the
  loop began, at least \<open>n - 1\<close> periods have passed on the steady clock since then.
\<close>

theorem rate_is_kept:
  assumes "steps (clocked_step d r) (began, s) (now, t)" "0 < r"
    and "dworker s = DTest" "next_time s = began" "dworker t = DCall time period"
  shows "began + (int (length (calls t)) - int (length (calls s))) * (1000000000 div uint r) \<le> now"
proof -
  have "due_inv (began, s)" using assms(3,4) by (simp add: due_inv_def)
  then have "due_inv (now, t)" by (rule clocked.steps_inv [OF assms(1)])
  then have now: "next_time t \<le> now" using assms(5) by (simp add: due_inv_def)
  have "phase (1000000000 div uint r) s t"
    using detached_steps_phase [OF assms(2) clocked_steps_detached [OF assms(1)]] assms(3) by simp
  then obtain k where "next_time t = next_time s + int k * (1000000000 div uint r)"
      "planned_calls t \<le> planned_calls s + int k"
    unfolding phase_def by blast
  then have k: "next_time t = began + int k * (1000000000 div uint r)"
      "int (length (calls t)) - int (length (calls s)) \<le> int k"
    using assms(3-5) by (simp_all add: planned_calls_def)
  have "0 < uint r" using assms(2) by (simp add: word_less_def)
  then have "0 \<le> 1000000000 div uint r" by (simp add: pos_imp_zdiv_nonneg_iff)
  then have "(int (length (calls t)) - int (length (calls s))) * (1000000000 div uint r) \<le>
      int k * (1000000000 div uint r)"
    using k(2) by (intro mult_right_mono)
  with k(1) now show ?thesis by linarith
qed

text \<open>The worker of the runs of \<open>Async_Detached\<close>, from its loop to its second call.\<close>

definition clock_start :: "nat detached" where
  "clock_start = run_free\<lparr>d_previous := 1000000, next_time := 5000000, dworker := DTest\<rparr>"

definition clock_second :: "nat detached" where
  "clock_second = clock_start\<lparr>d_mtx := Some DWorker, d_previous := 3000000, d_time := 3000000,
     d_period := 990000, d_return := 4, d_last_time := 300, next_time := 6000000,
     dworker := DCall 3000000 990000, calls := [(2010000, 1010000)]\<rparr>"

lemma clock_run: "steps (clocked_step d 1000) (5000000, clock_start) (6000000, clock_second)"
  unfolding clock_start_def run_free_def run_start_def
  apply (rule steps_step, rule ck_worker, rule d_test, simp, simp add: on_time_def)
  apply (rule steps_step, rule ck_worker, rule d_lock, simp, simp, simp add: on_time_def)
  apply (rule steps_step, rule ck_worker, rule d_pred, simp, simp add: on_time_def)
  apply (rule steps_step, rule ck_worker, rule d_measure [where now = 2010000], simp add: may_run_def, simp,
      simp add: on_time_def may_run_def)
  apply (rule steps_step, rule ck_worker, rule d_call [where r = 4], simp, simp add: on_time_def)
  apply (rule steps_step, rule ck_worker, rule d_store, simp, simp add: on_time_def)
  apply (rule steps_step, rule ck_worker, rule d_took [where d = 300], simp, simp add: on_time_def)
  apply (rule steps_step, rule ck_worker, rule d_plan [where now = 5000000 and n = 6000000], simp,
      simp add: next_iteration_def, simp add: on_time_def next_iteration_def)
  apply (rule steps_step, rule ck_tick [where later = 6000000], simp)
  apply (rule steps_step, rule ck_worker, rule d_slept_until, simp, simp add: on_time_def)
  apply (rule steps_step, rule ck_worker, rule d_clear, simp, simp add: on_time_def)
  apply (rule steps_step, rule ck_worker, rule d_unlock, simp, simp add: on_time_def)
  apply (rule steps_step, rule ck_worker, rule d_notify, simp, simp add: on_time_def)
  apply (rule steps_step, rule ck_worker, rule d_test, simp, simp add: on_time_def)
  apply (rule steps_step, rule ck_worker, rule d_lock, simp, simp, simp add: on_time_def)
  apply (rule steps_step, rule ck_worker, rule d_pred, simp, simp add: on_time_def)
  apply (rule steps_step, rule ck_worker, rule d_measure [where now = 3000000], simp add: may_run_def, simp,
      simp add: on_time_def may_run_def)
  apply (rule steps_eq)
  apply (simp add: clock_second_def clock_start_def run_free_def run_start_def may_run_def)
  done

theorem rate_is_kept_witness:
  "5000000 + (int (length (calls clock_second)) - int (length (calls clock_start))) * 1000000 \<le> 6000000 \<and>
   length (calls clock_second) = 1"
proof -
  have "dworker clock_second = DCall 3000000 990000" "calls clock_second = [(2010000, 1010000)]"
    by (simp_all add: clock_second_def)
  with rate_is_kept [OF clock_run] show ?thesis by (simp add: clock_start_def word_less_def)
qed

end
