(* ===== verification/Async_Lifecycle.thy ===== *)
theory Async_Lifecycle
  imports Async_Handler
begin

text \<open>
  The life of an \<^verbatim>\<open>AsyncFunctionHandler<T>\<close> (\<^verbatim>\<open>async_function_handler.hpp\<close>) as a sequence of calls of
  its clients and cycles of its synchronized worker, one after the other: \<^verbatim>\<open>stop_thread\<close>,
  \<^verbatim>\<open>join_async_callback_thread\<close>, the destructor and one cycle of \<^verbatim>\<open>execute_synchronized_callback\<close> as
  programs, what holds of the members between two calls, and which results the triggers return.
\<close>

section \<open>Stopping and joining\<close>

text \<open>
  \<open>ended\<close> is what the worker does until its thread ends: \<open>None\<close> if it does not end, and otherwise
  whether it goes through its block once more, which clears \<^verbatim>\<open>trigger_in_progress_\<close>.
\<close>

definition thread_join :: "bool option \<Rightarrow> ('c, 'p, 'f, 'time, 'dur, 'r, unit) async_prog" where
  "thread_join ended s =
     (if \<not> joinable s then (Throw joined_already, s)
      else (case ended of
          None \<Rightarrow> (Block, s)
        | Some block \<Rightarrow> (Return (), s\<lparr>joinable := False,
            trigger_in_progress := trigger_in_progress s \<and> \<not> block\<rparr>)))"

definition join_async_callback_thread ::
    "bool option \<Rightarrow> ('c, 'p, 'f, 'time, 'dur, 'r, unit) async_prog" where
  "join_async_callback_thread ended =
     bindp (get_state is_running) (\<lambda>running. if running then thread_join ended else ret ())"

definition stop_thread :: "bool option \<Rightarrow> tid \<Rightarrow> ('c, 'p, 'f, 'time, 'dur, 'r, unit) async_prog" where
  "stop_thread ended t =
     bindp (get_state is_running) (\<lambda>running.
       if running
       then bindp (modify (stop_async_callback_update (\<lambda>_. True))) (\<lambda>_.
            bindp (guarded (async_lock t) async_unlock (ret ())) (\<lambda>_. thread_join ended))
       else ret ())"

text \<open>The destructor is \<^verbatim>\<open>noexcept\<close>.\<close>

definition handler_dtor :: "bool option \<Rightarrow> tid \<Rightarrow> ('c, 'p, 'f, 'time, 'dur, 'r, unit) async_prog" where
  "handler_dtor ended t s =
     (case stop_thread ended t s of (Throw _, s') \<Rightarrow> (Terminate, s') | r \<Rightarrow> r)"

section \<open>A cycle of the worker\<close>

text \<open>
  The block of \<^verbatim>\<open>execute_synchronized_callback\<close>, run alone; \<open>call\<close> is the user's callback and \<open>d\<close> the
  measured time. The worker's thread is thread 0. Its wait is \<open>Block\<close>, with the mutex free. The \<^verbatim>\<open>catch\<close> takes every exception, that of an empty
  \<^verbatim>\<open>std::function\<close> included.
\<close>

definition call_function ::
    "('f \<Rightarrow> 'time \<Rightarrow> 'dur \<Rightarrow> 'r outcome) \<Rightarrow> ('c, 'p, 'f, 'time, 'dur, 'r, 'r) async_prog" where
  "call_function call s =
     (case async_function s of
        None \<Rightarrow> (Throw Bad_function_call, s)
      | Some f \<Rightarrow> (call f (callback_time s) (callback_period s), s))"

definition worker_cycle ::
    "('f \<Rightarrow> 'time \<Rightarrow> 'dur \<Rightarrow> 'r outcome) \<Rightarrow> int \<Rightarrow> ('c, 'p, 'f, 'time, 'dur, 'r, unit) async_prog" where
  "worker_cycle call d =
     guarded (async_lock 0) async_unlock (\<lambda>s.
       if \<not> (trigger_in_progress s \<or> stop_async_callback s) then (Block, async_unlock s)
       else if stop_async_callback s then (Return (), s\<lparr>trigger_in_progress := False\<rparr>)
       else (case call_function call s of
           (Return r, s') \<Rightarrow> (Return (),
             s'\<lparr>callback_return := r, last_execution_time := d, trigger_in_progress := False\<rparr>)
         | (Throw e, s') \<Rightarrow> (Return (),
             s'\<lparr>exception_ptr := Some e, last_execution_time := d, trigger_in_progress := False\<rparr>)
         | (Block, s') \<Rightarrow> (Block, s')
         | (Terminate, s') \<Rightarrow> (Terminate, s')
         | (Undefined, s') \<Rightarrow> (Undefined, s')))"

section \<open>Sequences of calls\<close>

datatype ('c, 'p, 'f, 'time, 'dur) handler_call =
    Init "'f option" int
  | Init_predicate "'f option" "'p option" int
  | Init_params "'f option" "('c, 'p) async_params"
  | Trigger 'time 'dur
  | Reset
  | Wait
  | Pause
  | Start
  | Stop "bool option"
  | Join "bool option"
  | Cycle int

definition done_with :: "('s, 'a) prog \<Rightarrow> ('s, unit) prog" where
  "done_with m = bindp m (\<lambda>_. ret ())"

fun perform ::
    "('c, 'time, 'dur, 'r) async_lib \<Rightarrow> ('p \<Rightarrow> bool outcome) \<Rightarrow> ('f \<Rightarrow> 'time \<Rightarrow> 'dur \<Rightarrow> 'r outcome) \<Rightarrow> tid \<Rightarrow>
      ('c, 'p, 'f, 'time, 'dur) handler_call \<Rightarrow> ('c, 'p, 'f, 'time, 'dur, 'r, unit) async_prog" where
  "perform L run call t (Init f n) = init_callback f n"
| "perform L run call t (Init_predicate f q n) = init_predicate f q n"
| "perform L run call t (Init_params f p) = init_params f p"
| "perform L run call t (Trigger time period) = done_with (trigger_async_callback L run t time period)"
| "perform L run call t Reset = reset_variables L t"
| "perform L run call t Wait = done_with (wait_for_trigger_cycle_to_finish t)"
| "perform L run call t Pause = done_with (pause_execution t)"
| "perform L run call t Start = start_thread L t"
| "perform L run call t (Stop ended) = stop_thread ended t"
| "perform L run call t (Join ended) = join_async_callback_thread ended"
| "perform L run call t (Cycle d) = worker_cycle call d"

text \<open>
  The states of a handler between calls, whether they return, throw or wait; the waiting ones have
  given the mutex back.
\<close>

inductive lifetime ::
    "('c, 'time, 'dur, 'r) async_lib \<Rightarrow> ('p \<Rightarrow> bool outcome) \<Rightarrow> ('f \<Rightarrow> 'time \<Rightarrow> 'dur \<Rightarrow> 'r outcome) \<Rightarrow>
      ('c, 'p, 'f, 'time, 'dur, 'r) async_handler \<Rightarrow> bool"
  for L run call where
  born: "lifetime L run call (handler_ctor L always r n)"
| call: "lifetime L run call s \<Longrightarrow> perform L run call t c s = (out, s') \<Longrightarrow>
     out \<noteq> Terminate \<Longrightarrow> out \<noteq> Undefined \<Longrightarrow> lifetime L run call s'"

definition well_formed :: "('c, 'p, 'f, 'time, 'dur, 'r) async_handler \<Rightarrow> bool" where
  "well_formed s \<longleftrightarrow> async_mtx s = None \<and> predicate_fn s \<noteq> None \<and>
     (joinable s \<longrightarrow> async_function s \<noteq> None)"

text \<open>A program keeps the handler well-formed if its call ends or waits.\<close>

definition keeps :: "('c, 'p, 'f, 'time, 'dur, 'r, 'a) async_prog \<Rightarrow> bool" where
  "keeps m \<longleftrightarrow> (\<forall>s out s'. well_formed s \<longrightarrow> m s = (out, s') \<longrightarrow> out \<noteq> Terminate \<longrightarrow> out \<noteq> Undefined \<longrightarrow>
     well_formed s')"

lemma keepsI:
  "(\<And>s. well_formed s \<Longrightarrow> fst (m s) \<noteq> Terminate \<Longrightarrow> fst (m s) \<noteq> Undefined \<Longrightarrow> well_formed (snd (m s))) \<Longrightarrow>
     keeps m"
  by (fastforce simp: keeps_def)

lemma keepsD: "keeps m \<Longrightarrow> well_formed s \<Longrightarrow> m s = (out, s') \<Longrightarrow> out \<noteq> Terminate \<Longrightarrow> out \<noteq> Undefined \<Longrightarrow>
    well_formed s'"
  by (simp add: keeps_def)

lemma keepsE: "keeps m \<Longrightarrow> well_formed s \<Longrightarrow> fst (m s) \<noteq> Terminate \<Longrightarrow> fst (m s) \<noteq> Undefined \<Longrightarrow>
    well_formed (snd (m s))"
  unfolding keeps_def by (cases "m s") simp

lemma keeps_bindp:
  assumes "keeps m" "\<And>x. keeps (f x)"
  shows "keeps (bindp m f)"
proof (rule keepsI)
  fix s :: "('a, 'b, 'c, 'd, 'e, 'f) async_handler"
  assume s: "well_formed s" "fst (bindp m f s) \<noteq> Terminate" "fst (bindp m f s) \<noteq> Undefined"
  obtain out s' where m: "m s = (out, s')" by fastforce
  show "well_formed (snd (bindp m f s))"
  proof (cases out)
    case (Return x)
    with s m keepsD [OF assms(1) s(1) m] show ?thesis
      by (cases "f x s'") (auto simp: bindp_def dest: keepsD [OF assms(2)])
  qed (use s m keepsD [OF assms(1) s(1) m] in \<open>simp_all add: bindp_def\<close>)
qed

lemma keeps_simps:
  "keeps (ret x)" "keeps (throw e)" "keeps (get_state g)"
  "(\<And>s. well_formed s \<Longrightarrow> well_formed (h s)) \<Longrightarrow> keeps (modify h)"
  by (simp_all add: keeps_def)

text \<open>A critical section: its body has the mutex, and may leave a well-formed handler but for that.\<close>

lemma keeps_locked:
  assumes "\<And>s. well_formed (async_unlock s) \<Longrightarrow> async_mtx s = Some t \<Longrightarrow> fst (body s) \<noteq> Terminate \<Longrightarrow>
      fst (body s) \<noteq> Undefined \<Longrightarrow> well_formed (async_unlock (snd (body s)))"
    and "\<And>s. well_formed (async_unlock s) \<Longrightarrow> async_mtx s = Some t \<Longrightarrow> fst (body s) = Block \<Longrightarrow>
      well_formed (snd (body s))"
  shows "keeps (guarded (async_lock t) async_unlock body)"
proof (rule keepsI)
  fix s :: "('a, 'b, 'c, 'd, 'e, 'f) async_handler"
  let ?s = "s\<lparr>async_mtx := Some t\<rparr>" and ?m = "guarded (async_lock t) async_unlock body"
  assume s: "well_formed s" "fst (?m s) \<noteq> Terminate" "fst (?m s) \<noteq> Undefined"
  have w: "well_formed (async_unlock ?s)" "async_mtx ?s = Some t"
    using s(1) by (simp_all add: well_formed_def async_unlock_def)
  have "?m s = (case body ?s of (Return x, s') \<Rightarrow> (Return x, async_unlock s')
      | (Throw e, s') \<Rightarrow> (Throw e, async_unlock s') | r \<Rightarrow> r)"
    using s(1) by (simp add: guarded_def bindp_def async_lock_def well_formed_def)
  then show "well_formed (snd (?m s))"
    using s assms [OF w] by (cases "body ?s"; cases "fst (body ?s)") auto
qed

lemma keeps_init_callback: "keeps (init_callback f n)"
  by (auto intro!: keepsI simp: init_callback_def well_formed_def)

lemma keeps_init_predicate: "keeps (init_predicate f q n)"
proof (cases q)
  case (Some p)
  show ?thesis
    unfolding init_predicate_def Some
    by (simp, rule keeps_bindp [OF keeps_init_callback], rule keeps_simps) (simp add: well_formed_def)
qed (simp add: init_predicate_def keeps_simps)

lemma keeps_init_params: "keeps (init_params f p)"
  unfolding init_params_def
  by (intro keeps_bindp keeps_init_predicate keeps_simps) (auto simp: keeps_def well_formed_def)

lemma keeps_accept:
  assumes "\<And>p. is_return (run p) \<or> is_throw (run p)"
  shows "keeps (guarded (async_lock t) async_unlock (accept_trigger run time period))"
proof (rule keeps_locked, goal_cases)
  case (1 s)
  then obtain q where q: "predicate_fn s = Some q" by (auto simp: well_formed_def async_unlock_def)
  from assms [of q] 1(1) q show ?case
    by (cases "run q") (simp_all add: accept_trigger_def call_predicate_def bindp_def
        well_formed_def async_unlock_def)
next
  case (2 s)
  then obtain q where q: "predicate_fn s = Some q" by (auto simp: well_formed_def async_unlock_def)
  from assms [of q] 2(3) q show ?case
    by (cases "run q") (simp_all add: accept_trigger_def call_predicate_def bindp_def split: if_splits)
qed

lemma keeps_resume: "keeps (guarded (async_lock t) async_unlock (resume L))"
  by (rule keeps_locked)
    (auto simp: resume_def bindp_def period_ns_def read_clock_def well_formed_def async_unlock_def
      split: option.splits if_splits)

lemma keeps_trigger:
  assumes "\<And>p. is_return (run p) \<or> is_throw (run p)"
  shows "keeps (trigger_async_callback L run t time period)"
proof (rule keepsI, goal_cases)
  case s: (1 s)
  let ?finish = "\<lambda>b. bindp (get_state callback_return) (\<lambda>r. ret (b, r))"
  have e: "keeps (?finish b)" for b
    by (intro keeps_bindp keeps_simps)
  have d: "keeps (bindp (guarded (async_lock t) async_unlock (resume L)) (\<lambda>_. ?finish True))"
    by (intro keeps_bindp keeps_resume e)
  have a: "keeps (bindp (guarded (async_lock t) async_unlock (accept_trigger run time period)) ?finish)"
    by (intro keeps_bindp keeps_accept assms e)
  have l: "bindp (async_try_lock t) (\<lambda>owns.
        bindp (if owns then guarded (ret ()) async_unlock b else ret False) k) s =
      bindp (guarded (async_lock t) async_unlock b) k s" for b k
    using s(1) by (simp add: bindp_def guarded_def async_try_lock_def async_lock_def well_formed_def)
  show ?case
    using s keepsE [OF d s(1)] keepsE [OF a s(1)] keepsE [OF e s(1)]
    unfolding trigger_async_callback_def l
    by (cases "is_initialized s"; cases "exception_ptr s"; cases "scheduling_policy (params s) = DETACHED";
        cases "pause_thread s"; cases "is_running s") simp_all
qed

lemma keeps_reset: "keeps (reset_variables L t)"
  unfolding reset_variables_def by (rule keeps_locked) (auto simp: well_formed_def async_unlock_def)

lemma unlock_twice [simp]: "async_unlock (async_unlock s) = async_unlock s"
  by (simp add: async_unlock_def)

lemma keeps_wait: "keeps (wait_for_trigger_cycle_to_finish t)"
  unfolding wait_for_trigger_cycle_to_finish_def
  by (intro keeps_bindp) (auto intro!: keeps_simps keeps_locked split: if_splits)

lemma keeps_pause: "keeps (pause_execution t)"
proof (rule keepsI, goal_cases)
  case s: (1 s)
  let ?s = "s\<lparr>pause_thread := True\<rparr>"
  have "keeps (guarded (async_lock t) async_unlock (ret True))"
    by (rule keeps_locked) simp_all
  moreover have "well_formed ?s" using s(1) by (simp add: well_formed_def)
  ultimately show ?case
    using s keepsD [OF keeps_wait [of t], of ?s] keepsD [of _ ?s]
    by (cases "pause_execution t s") (auto simp: pause_execution_def split: if_splits)
qed

lemma keeps_start: "keeps (start_thread L t)"
  by (rule keepsI) (auto simp: start_thread_def bindp_def reset_variables_def guarded_def
      async_lock_def async_unlock_def is_initialized_def well_formed_def)

lemma keeps_join: "keeps (thread_join ended)" "keeps (join_async_callback_thread ended)"
proof -
  show j: "keeps (thread_join ended)"
    by (rule keepsI) (auto simp: thread_join_def well_formed_def split: option.splits)
  show "keeps (join_async_callback_thread ended)"
    by (auto simp: join_async_callback_thread_def intro!: keeps_bindp keeps_simps j)
qed

lemma keeps_stop: "keeps (stop_thread ended t)"
  unfolding stop_thread_def
  by (auto intro!: keeps_bindp keeps_simps keeps_locked keeps_join simp: well_formed_def)

lemma keeps_cycle:
  assumes "\<And>f x y. is_return (call f x y) \<or> is_throw (call f x y)"
  shows "keeps (worker_cycle call d)"
  unfolding worker_cycle_def
proof (rule keeps_locked, goal_cases)
  case (1 s)
  show ?case
  proof (cases "async_function s")
    case (Some f)
    with 1 assms [of f "callback_time s" "callback_period s"] show ?thesis
      by (cases "call f (callback_time s) (callback_period s)")
        (auto simp: well_formed_def async_unlock_def call_function_def)
  qed (use 1 in \<open>auto simp: well_formed_def async_unlock_def call_function_def\<close>)
next
  case (2 s)
  show ?case
  proof (cases "async_function s")
    case (Some f)
    with 2 assms [of f "callback_time s" "callback_period s"] show ?thesis
      by (cases "call f (callback_time s) (callback_period s)")
        (auto simp: well_formed_def async_unlock_def call_function_def split: if_splits)
  qed (use 2 in \<open>auto simp: well_formed_def async_unlock_def call_function_def split: if_splits\<close>)
qed

lemma keeps_done: "keeps m \<Longrightarrow> keeps (done_with m)"
  unfolding done_with_def by (intro keeps_bindp keeps_simps)

lemma keeps_perform:
  assumes "\<And>p. is_return (run p) \<or> is_throw (run p)"
    and "\<And>f x y. is_return (call f x y) \<or> is_throw (call f x y)"
  shows "keeps (perform L run call t c)"
  by (cases c) (simp_all add: keeps_init_callback keeps_init_predicate keeps_init_params keeps_done
      keeps_trigger [OF assms(1)] keeps_reset keeps_wait keeps_pause keeps_start keeps_stop keeps_join
      keeps_cycle [OF assms(2)])

section \<open>Properties\<close>

text \<open>
  C33. Between two calls, whatever sequence of them a handler has gone through, failed and waiting
  ones included: \<^verbatim>\<open>async_mtx_\<close> is free, the predicate is never empty and a running handler has a
  callback; so a trigger of a running handler is never refused for want of initialisation.
\<close>

theorem handler_well_formed:
  assumes "lifetime L run call s"
    and "\<And>p. is_return (run p) \<or> is_throw (run p)"
    and "\<And>f x y. is_return (call f x y) \<or> is_throw (call f x y)"
  shows "async_mtx s = None \<and> predicate_fn s \<noteq> None \<and> (joinable s \<longrightarrow> is_initialized s)"
proof -
  have "well_formed s"
    using assms(1)
  proof induction
    case (born always r n)
    show ?case by (simp add: well_formed_def handler_ctor_def)
  next
    case (call s t c out s')
    show ?case
      by (rule keepsD [OF keeps_perform [OF assms(2,3)] call.IH call.hyps(2-4)])
  qed
  then show ?thesis by (auto simp: well_formed_def is_initialized_def)
qed

definition demo_started :: "(int, bool, nat, int, int, nat) async_handler" where
  "demo_started = demo_handler\<lparr>thread_prio := 50, callback_return := 0\<rparr>"

lemma demo_lifetime: "lifetime demo_lib Return call demo_started"
proof (rule lifetime.call [OF lifetime.call [OF lifetime.born]])
  show "perform demo_lib Return call 1 (Init (Some 1) 50) (handler_ctor demo_lib True 9 0) =
      (Return (), (handler_ctor demo_lib True 9 0)\<lparr>async_function := Some 1, thread_prio := 50\<rparr>)"
    by (simp add: init_callback_def demo_handler_defs)
  show "perform demo_lib Return call 1 Start
      ((handler_ctor demo_lib True 9 0)\<lparr>async_function := Some 1, thread_prio := 50\<rparr>) = (Return (), demo_started)"
    by (simp add: demo_started_def demo_handler_defs async_call_defs)
qed simp_all

theorem handler_well_formed_witness:
  "async_mtx demo_started = None \<and> joinable demo_started \<and> is_initialized demo_started"
  using handler_well_formed [OF demo_lifetime [of "\<lambda>_ _ _. Return 0"]]
  by (simp add: demo_started_def demo_handler_defs)

text \<open>A client that triggers and lets the worker finish its cycle.\<close>

definition trigger_and_cycle ::
    "('c, 'time, 'dur, 'r) async_lib \<Rightarrow> ('p \<Rightarrow> bool outcome) \<Rightarrow> ('f \<Rightarrow> 'time \<Rightarrow> 'dur \<Rightarrow> 'r outcome) \<Rightarrow> tid \<Rightarrow>
      'time \<times> 'dur \<times> int \<Rightarrow> ('c, 'p, 'f, 'time, 'dur, 'r, bool \<times> 'r) async_prog" where
  "trigger_and_cycle L run call t = (\<lambda>(time, period, d).
     bindp (trigger_async_callback L run t time period) (\<lambda>res.
     bindp (worker_cycle call d) (\<lambda>_. ret res)))"

fun trigger_all ::
    "('c, 'time, 'dur, 'r) async_lib \<Rightarrow> ('p \<Rightarrow> bool outcome) \<Rightarrow> ('f \<Rightarrow> 'time \<Rightarrow> 'dur \<Rightarrow> 'r outcome) \<Rightarrow> tid \<Rightarrow>
      ('time \<times> 'dur \<times> int) list \<Rightarrow> ('c, 'p, 'f, 'time, 'dur, 'r, (bool \<times> 'r) list) async_prog" where
  "trigger_all L run call t [] = ret []"
| "trigger_all L run call t (x # xs) =
     bindp (trigger_and_cycle L run call t x) (\<lambda>r.
     bindp (trigger_all L run call t xs) (\<lambda>rs. ret (r # rs)))"

definition idle_handler :: "'p \<Rightarrow> 'f \<Rightarrow> ('c, 'p, 'f, 'time, 'dur, 'r) async_handler \<Rightarrow> bool" where
  "idle_handler p f s \<longleftrightarrow> async_function s = Some f \<and> predicate_fn s = Some p \<and> exception_ptr s = None \<and>
     scheduling_policy (params s) = SYNCHRONIZED \<and> joinable s \<and> async_mtx s = None \<and>
     \<not> trigger_in_progress s \<and> \<not> stop_async_callback s"

lemma trigger_and_cycle_idle:
  assumes "idle_handler p f s" "run p = Return True" "call f time period = Return r"
  shows "\<exists>s'. trigger_and_cycle L run call t (time, period, d) s = (Return (True, callback_return s), s') \<and>
    idle_handler p f s' \<and> callback_return s' = r \<and> last_execution_time s' = d"
  using assms by (simp add: trigger_and_cycle_def worker_cycle_def call_function_def idle_handler_def
      async_call_defs)

text \<open>
  C23. Results come one trigger late: a client that triggers a running handler again and again, each
  time after the worker has finished, is accepted every time and gets from each trigger what the
  callback returned for the trigger before.
\<close>

theorem results_one_trigger_late:
  assumes "idle_handler p f s" "run p = Return True"
    and "\<And>time period. call f time period = Return (g time period)"
  shows "\<exists>s'. trigger_all L run call t xs s =
      (Return (map (Pair True) (butlast (callback_return s # map (\<lambda>(time, period, _). g time period) xs))), s') \<and>
    idle_handler p f s' \<and> callback_return s' = last (callback_return s # map (\<lambda>(time, period, _). g time period) xs)"
  using assms(1)
proof (induction xs arbitrary: s)
  case Nil
  then show ?case by simp
next
  case (Cons x xs)
  obtain time period d where x: "x = (time, period, d)" by (cases x)
  from trigger_and_cycle_idle [where p = p and run = run and call = call and r = "g time period"
      and L = L and t = t and d = d and time = time and period = period, OF Cons.prems assms(2) assms(3)]
  obtain s1 where
    s1: "trigger_and_cycle L run call t x s = (Return (True, callback_return s), s1)"
    "idle_handler p f s1" "callback_return s1 = g time period"
    unfolding x by blast
  from Cons.IH [OF s1(2)] s1(1,3) show ?case
    by (auto simp: x bindp_def)
qed

theorem results_one_trigger_late_witness:
  "\<exists>s'. trigger_all demo_lib Return (\<lambda>f x y. Return (f + nat x + nat y)) 1 [(10, 5, 100), (20, 7, 300), (30, 9, 200)]
      demo_started = (Return [(True, 0), (True, 16), (True, 28)], s') \<and> callback_return s' = 40"
proof -
  have "idle_handler True 1 demo_started"
    by (simp add: idle_handler_def demo_started_def demo_handler_defs)
  from results_one_trigger_late [OF this, of Return "\<lambda>f x y. Return (f + nat x + nat y)"
      "\<lambda>x y. 1 + nat x + nat y" demo_lib 1 "[(10, 5, 100), (20, 7, 300), (30, 9, 200)]"]
  show ?thesis by (auto simp: demo_started_def demo_handler_defs)
qed

end
