(* ===== verification/Async_Start.thy ===== *)
theory Async_Start
  imports Async_Agreement Async_Detached
begin

text \<open>
  From the programs of \<open>Async_Handler\<close> to the two machines with threads: a handler made by \<^verbatim>\<open>init\<close> and
  \<^verbatim>\<open>start_thread\<close> is an initial state of \<open>Async_Worker\<close> or of \<open>Async_Detached\<close>, as its policy says, so
  that what holds of the machines holds of it; and the calls on a detached handler agree with
  their steps. Times and durations are nanoseconds here.
\<close>

section \<open>The machine of a started handler\<close>

text \<open>The members as the machines have them, with no client inside a call and an empty history.\<close>

definition synchronized_machine ::
    "('c, 'p, 'f, 'time, 'dur, 'r) async_handler \<Rightarrow> ('time \<times> 'dur, 'r) async" where
  "synchronized_machine h = \<lparr>a_mtx = None, stop_flag = stop_async_callback h,
     in_progress = trigger_in_progress h, paused = pause_thread h,
     args = (callback_time h, callback_period h), last_return = callback_return h,
     last_time = last_execution_time h, exc_slot = Whole (exception_ptr h),
     thread_joinable = joinable h, worker = WTest, clients = (\<lambda>_. Idle), accepted = [],
     finished = [], cancelled = False, was_reset = False\<rparr>"

definition detached_machine :: "('c, 'p, 'f, int, int, 'r) async_handler \<Rightarrow> 'r detached" where
  "detached_machine h = \<lparr>d_mtx = None, d_stop = stop_async_callback h,
     d_in_progress = trigger_in_progress h, d_paused = pause_thread h, d_time = callback_time h,
     d_period = callback_period h, d_previous = previous_time h, next_time = 0,
     d_return = callback_return h, d_last_time = last_execution_time h,
     d_exc = Whole (exception_ptr h), d_joinable = joinable h, dworker = DFirst,
     dclients = (\<lambda>_. DIdle), calls = [], was_resumed = False\<rparr>"

text \<open>Back from a state of the detached machine to the handler; \<open>h\<close> has the other members.\<close>

fun detached_thread :: "detached_id \<Rightarrow> tid" where
  "detached_thread DWorker = 0"
| "detached_thread (DClient i) = Suc i"

definition detached_view ::
    "('c, 'p, 'f, int, int, 'r) async_handler \<Rightarrow> 'r detached \<Rightarrow> ('c, 'p, 'f, int, int, 'r) async_handler" where
  "detached_view h s = h\<lparr>joinable := d_joinable s, stop_async_callback := d_stop s,
     trigger_in_progress := d_in_progress s, pause_thread := d_paused s,
     callback_return := d_return s, callback_time := d_time s, callback_period := d_period s,
     previous_time := d_previous s, async_mtx := map_option detached_thread (d_mtx s),
     last_execution_time := d_last_time s, exception_ptr := settled (d_exc s)\<rparr>"

text \<open>
  C18. Parameters that \<^verbatim>\<open>validate\<close> accepts: \<^verbatim>\<open>init\<close> and \<^verbatim>\<open>start_thread\<close> succeed, the thread enters the loop
  of the policy without ending the process, the detached one with the period of the rate, and the
  members are an initial state of that loop's machine.
\<close>

theorem valid_start:
  fixes s :: "('c, 'p, 'f, int, int, 'r) async_handler"
  assumes "fst (validate p) = Return True" "trigger_predicate p = Some q"
    and "\<not> joinable s" "async_mtx s = None"
  shows "\<exists>h. bindp (init_params (Some f) p) (\<lambda>_. start_thread L t) s = (Return (), h) \<and> params h = p \<and>
    (if scheduling_policy p = SYNCHRONIZED
     then worker_entry (params h) = Return Synchronized_loop \<and> async_init (synchronized_machine h) \<and>
       handler_view h (synchronized_machine h) = h
     else worker_entry (params h) = Return (Detached_loop (1000000000 div uint (exec_rate p))) \<and>
       detached_init (detached_machine h) \<and> d_paused (detached_machine h) = wait_until_initial_trigger p \<and>
       detached_view h (detached_machine h) = h)"
proof -
  have e: "worker_entry p = (if scheduling_policy p = SYNCHRONIZED then Return Synchronized_loop
      else Return (Detached_loop (1000000000 div uint (exec_rate p))))"
    using assms(1) by (cases "scheduling_policy p") (auto simp: validate_def worker_entry_def
        execute_detached_callback_def period_ns_bounds word_gt_0 split: if_splits)
  have i: "bindp (init_params (Some f) p) k s = k () (s\<lparr>async_function := Some f,
      thread_prio := thread_priority p, predicate_fn := Some q, params := p,
      pause_thread := wait_until_initial_trigger p\<rparr>)" for k
    by (rule bindp_simps(1)) (rule init_params_valid [OF assms(1,2) refl assms(3)])
  show ?thesis
    using assms(3,4) unfolding i
    by (cases s) (simp add: e async_call_defs async_init_def detached_init_def handler_view_def
        detached_view_def synchronized_machine_def detached_machine_def)
qed

theorem valid_start_witness:
  "\<exists>h. bindp (init_params (Some 1) (params demo_detached)) (\<lambda>_. start_thread demo_lib 1)
      (demo_handler\<lparr>joinable := False\<rparr>) = (Return (), h) \<and>
    worker_entry (params h) = Return (Detached_loop 333333333) \<and> detached_init (detached_machine h)"
proof -
  have v: "fst (validate (params demo_detached)) = Return True"
    by (simp add: demo_detached_def demo_params_def demo_handler_defs validate_def)
  show ?thesis
    using valid_start [OF v, of True "demo_handler\<lparr>joinable := False\<rparr>" 1 demo_lib 1]
    by (auto simp: demo_detached_def demo_params_def demo_handler_defs)
qed

section \<open>Calls on a detached handler\<close>

lemma resume_paused_steps:
  assumes "dclients s i = DIdle" "d_exc s = Whole None" "d_mtx s = None" "d_paused s"
  shows "steps (resume_step d p i) s (at_dclient i (TRet d) (notify_detached
    (s\<lparr>d_paused := False, d_return := d, d_previous := now - p, was_resumed := True\<rparr>)))"
  apply (rule steps_step, rule dt_call, rule assms)
  apply (rule steps_step, rule dt_exc, simp add: at_dclient_def)
  apply (rule steps_step, rule dt_pause, simp add: at_dclient_def assms)
  apply (rule steps_step, rule dt_lock, simp add: at_dclient_def assms, simp add: at_dclient_def assms)
  apply (rule steps_step, rule dt_set, simp add: at_dclient_def)
  apply (rule steps_step, rule dt_zero, simp add: at_dclient_def)
  apply (rule steps_step, rule dt_now [where now = now], simp add: at_dclient_def)
  apply (rule steps_step, rule dt_prev, simp add: at_dclient_def)
  apply (rule steps_step, rule dt_unlock, simp add: at_dclient_def)
  apply (rule steps_step, rule dt_notify, simp add: at_dclient_def)
  apply (rule steps_step, rule dt_read, simp add: at_dclient_def)
  apply (rule steps_eq)
  using assms by (cases s) (simp add: at_dclient_def notify_detached_def)

lemma resume_running_steps:
  assumes "dclients s i = DIdle" "d_exc s = Whole None" "\<not> d_paused s"
  shows "steps (resume_step d p i) s (at_dclient i (TRet (d_return s)) s)"
  apply (rule steps_step, rule dt_call, rule assms)
  apply (rule steps_step, rule dt_exc, simp add: at_dclient_def)
  apply (rule steps_step, rule dt_pause, simp add: at_dclient_def assms)
  apply (rule steps_step, rule dt_read, simp add: at_dclient_def assms)
  apply (rule steps_eq)
  by (simp add: at_dclient_def)

lemma resume_failed_steps:
  assumes "dclients s i = DIdle" "d_exc s = Whole (Some e)"
  shows "steps (resume_step d p i) s (at_dclient i (TFail e) s)"
  apply (rule steps_step, rule dt_call, rule assms)
  apply (rule steps_step, rule dt_exc, simp add: at_dclient_def assms)
  apply (rule steps_eq)
  by (simp add: at_dclient_def assms)

lemma pause_running_steps:
  assumes "dclients s i = DIdle" "d_joinable s" "d_mtx s = None"
  shows "steps (pause_step i) s (at_dclient i (PRet True) (s\<lparr>d_paused := True\<rparr>))"
  apply (rule steps_step, rule dp_call, rule assms)
  apply (rule steps_step, rule dp_run, simp add: at_dclient_def)
  apply (rule steps_step, rule dp_store, simp add: at_dclient_def assms)
  apply (rule steps_step, rule dp_lock, simp add: at_dclient_def, simp add: at_dclient_def assms)
  apply (rule steps_step, rule dp_unlock, simp add: at_dclient_def)
  apply (rule steps_eq)
  using assms by (cases s) (simp add: at_dclient_def)

lemma pause_stopped_steps:
  assumes "dclients s i = DIdle" "\<not> d_joinable s"
  shows "steps (pause_step i) s (at_dclient i (PRet (d_paused s)) s)"
  apply (rule steps_step, rule dp_call, rule assms)
  apply (rule steps_step, rule dp_run, simp add: at_dclient_def)
  apply (rule steps_eq)
  by (simp add: at_dclient_def assms)

lemma reset_steps:
  assumes "dclients s i = DIdle" "d_mtx s = None"
  shows "steps (dreset_step d i) s (s\<lparr>d_stop := False, d_in_progress := False, d_time := 0, d_period := 0,
    d_last_time := 0, d_return := d, d_exc := Whole None\<rparr>)"
  apply (rule steps_step, rule dr_call, rule assms)
  apply (rule steps_step, rule dr_lock, simp add: at_dclient_def, simp add: at_dclient_def assms)
  apply (rule steps_step, rule dr_set, simp add: at_dclient_def)
  apply (rule steps_step, rule dr_end, simp add: at_dclient_def)
  apply (rule steps_step, rule dr_unlock, simp add: at_dclient_def)
  apply (rule steps_eq)
  using assms by (cases s) (simp add: at_dclient_def fun_upd_idem)

text \<open>The result a client's program counter shows.\<close>

fun resume_result :: "'r dclient_pc \<Rightarrow> (bool \<times> 'r) outcome option" where
  "resume_result (TRet r) = Some (Return (True, r))"
| "resume_result (TFail e) = Some (Throw e)"
| "resume_result _ = None"

lemma detached_view_simps [simp]:
  "detached_view h (at_dclient i p s) = detached_view h s"
  "detached_view h (notify_detached s) = detached_view h s"
  "async_function (detached_view h s) = async_function h"
  "predicate_fn (detached_view h s) = predicate_fn h" "params (detached_view h s) = params h"
  "pause_thread (detached_view h s) = d_paused s" "callback_return (detached_view h s) = d_return s"
  "exception_ptr (detached_view h s) = settled (d_exc s)" "joinable (detached_view h s) = d_joinable s"
  "async_mtx (detached_view h s) = map_option detached_thread (d_mtx s)"
  by (simp_all add: detached_view_def at_dclient_def notify_detached_def)

lemma dclients_at [simp]: "dclients (at_dclient i p s) i = p"
  by (simp add: at_dclient_def)

lemma trigger_is_resume:
  assumes h: "async_function h = Some f" "predicate_fn h = Some q"
    "scheduling_policy (params h) = DETACHED" "clock (params h) = Some c" "0 < exec_rate (params h)"
    and L: "\<And>a n. time_before L a n = a - n"
    and s: "dclients s i = DIdle" "d_mtx s = None" "d_exc s = Whole e"
  shows "\<exists>t out. steps (resume_step (T_default L) (1000000000 div uint (exec_rate (params h))) i) s t \<and>
    resume_result (dclients t i) = Some out \<and>
    trigger_async_callback L run (Suc i) time period (detached_view h s) = (out, detached_view h t)"
proof (cases e)
  case None
  with s have e: "d_exc s = Whole None" by simp
  let ?p = "1000000000 div uint (exec_rate (params h))"
  have call: "trigger_async_callback L run (Suc i) time period (detached_view h s) =
      (if d_paused s
       then (Return (True, T_default L), (detached_view h s)\<lparr>pause_thread := False,
         callback_return := T_default L, previous_time := clock_now L c - ?p\<rparr>)
       else (Return (True, d_return s), detached_view h s))"
    using detached_trigger [of "detached_view h s" f q c L run "Suc i" time period] h s e by (simp add: L)
  show ?thesis
  proof (cases "d_paused s")
    case True
    show ?thesis
      using resume_paused_steps [OF s(1) e s(2) True, of "T_default L" ?p "clock_now L c"] True
      by (intro exI conjI) (assumption, simp, simp add: call, simp add: detached_view_def)
  next
    case False
    show ?thesis
      using resume_running_steps [OF s(1) e False, of "T_default L" ?p] False
      by (intro exI conjI) (assumption, simp, simp add: call)
  qed
next
  case (Some x)
  with s have e: "d_exc s = Whole (Some x)" by simp
  show ?thesis
    using resume_failed_steps [OF s(1) e, of "T_default L" "1000000000 div uint (exec_rate (params h))"] h e
    by (intro exI conjI) (assumption, simp, simp add: trigger_async_callback_def is_initialized_def)
qed

lemma pause_is_steps:
  assumes "scheduling_policy (params h) = DETACHED" "dclients s i = DIdle" "d_mtx s = None"
  shows "\<exists>t b. steps (pause_step i) s t \<and> dclients t i = PRet b \<and>
    pause_execution (Suc i) (detached_view h s) = (Return b, detached_view h t)"
proof (cases "d_joinable s")
  case True
  with assms show ?thesis
    using pause_running_steps [OF assms(2) True assms(3)]
    by (intro exI conjI) (assumption, simp, simp add: async_call_defs detached_view_def at_dclient_def)
next
  case False
  with assms show ?thesis
    using pause_stopped_steps [OF assms(2) False]
    by (intro exI conjI) (assumption, simp, simp add: pause_execution_def is_running_def)
qed

lemma reset_is_steps:
  assumes "time_zero L = 0" "dur_zero L = 0" "dclients s i = DIdle" "d_mtx s = None"
  shows "\<exists>t. steps (dreset_step (T_default L) i) s t \<and> dclients t i = DIdle \<and>
    reset_variables L (Suc i) (detached_view h s) = (Return (), detached_view h t)"
  using reset_steps [OF assms(3,4), of "T_default L"] assms
  by (intro exI conjI) (assumption, simp, simp add: async_call_defs detached_view_def)

text \<open>
  \<^verbatim>\<open>trigger_async_callback\<close>, \<^verbatim>\<open>pause_execution\<close> and \<^verbatim>\<open>reset_variables\<close> of a detached handler, as
  programs, do what their steps do in the machine with threads when no other thread moves while the
  mutex is free: the same result and the same members.
\<close>

theorem detached_calls_are_steps:
  assumes "async_function h = Some f" "predicate_fn h = Some q" "scheduling_policy (params h) = DETACHED"
    and "clock (params h) = Some c" "0 < exec_rate (params h)"
    and "time_zero L = 0" "dur_zero L = 0" "\<And>a n. time_before L a n = a - n"
    and "dclients s i = DIdle" "d_mtx s = None" "d_exc s = Whole e"
  shows "(\<exists>t out. steps (resume_step (T_default L) (1000000000 div uint (exec_rate (params h))) i) s t \<and>
      resume_result (dclients t i) = Some out \<and>
      trigger_async_callback L run (Suc i) time period (detached_view h s) = (out, detached_view h t)) \<and>
    (\<exists>t b. steps (pause_step i) s t \<and> dclients t i = PRet b \<and>
      pause_execution (Suc i) (detached_view h s) = (Return b, detached_view h t)) \<and>
    (\<exists>t. steps (dreset_step (T_default L) i) s t \<and> dclients t i = DIdle \<and>
      reset_variables L (Suc i) (detached_view h s) = (Return (), detached_view h t))"
  using trigger_is_resume [OF assms(1-5,8-11)] pause_is_steps [OF assms(3,9,10)]
    reset_is_steps [OF assms(6,7,9,10)]
  by blast

theorem detached_calls_are_steps_witness:
  "\<exists>t out. steps (resume_step 0 333333333 2) run_waiting t \<and> resume_result (dclients t 2) = Some out \<and>
    trigger_async_callback demo_lib Return 3 5 7 (detached_view demo_detached run_waiting) =
      (out, detached_view demo_detached t)"
  using detached_calls_are_steps [of demo_detached 1 True 1000 demo_lib run_waiting 2 None Return 5 7]
  by (simp add: demo_detached_def demo_params_def demo_handler_defs run_waiting_def run_start_def)

end
