(* ===== verification/Async_Calls.thy ===== *)
theory Async_Calls
  imports Async_Lifecycle Async_Start
begin

text \<open>
  Other calls on a synchronized handler: \<^verbatim>\<open>wait_for_trigger_cycle_to_finish\<close>, \<^verbatim>\<open>pause_execution\<close>
  and \<^verbatim>\<open>reset_variables\<close> as programs do what their steps do in the machine of \<open>Async_Worker\<close> when
  nobody else moves while the mutex is free.
\<close>

section \<open>Waiting and pausing\<close>

text \<open>The result that a waiting client's program counter shows; blocked, it has released the mutex.\<close>

fun wait_result :: "('a, 'r) client_pc \<Rightarrow> bool outcome option" where
  "wait_result (VRet b) = Some (Return b)"
| "wait_result VWait = Some Block"
| "wait_result _ = None"

lemma wait_from_run:
  assumes "a_mtx s = None"
  shows "\<exists>t. steps (wait_step i) (at_client i VRun s) t \<and>
    t = at_client i (if \<not> thread_joinable s then VRet False else if in_progress s then VWait else VRet True) s"
proof (cases "thread_joinable s")
  case False
  have "wait_step i (at_client i VRun s) (at_client i (VRet False) s)"
    using v_run [of "at_client i VRun s" i] False by simp
  with False show ?thesis by (simp add: steps_one)
next
  case True
  have 1: "wait_step i (at_client i VRun s) (at_client i VLock s)"
    using v_run [of "at_client i VRun s" i] True by simp
  have 2: "wait_step i (at_client i VLock s) (at_client i VPred (s\<lparr>a_mtx := Some (Client i)\<rparr>))"
    using v_lock [of "at_client i VLock s" i] assms by simp
  note run = steps_step [of "wait_step i", OF 1 steps_step [of "wait_step i", OF 2]]
  show ?thesis
  proof (cases "in_progress s")
    case True
    have "wait_step i (at_client i VPred (s\<lparr>a_mtx := Some (Client i)\<rparr>)) (at_client i VWait s)"
      using v_block [of "at_client i VPred (s\<lparr>a_mtx := Some (Client i)\<rparr>)" i] assms True by simp
    from run [OF steps_one [of "wait_step i", OF this]] True \<open>thread_joinable s\<close> show ?thesis by simp
  next
    case False
    have 3: "wait_step i (at_client i VPred (s\<lparr>a_mtx := Some (Client i)\<rparr>))
        (at_client i VUnlock (s\<lparr>a_mtx := Some (Client i)\<rparr>))"
      using v_pred [of "at_client i VPred (s\<lparr>a_mtx := Some (Client i)\<rparr>)" i] False by simp
    have "wait_step i (at_client i VUnlock (s\<lparr>a_mtx := Some (Client i)\<rparr>)) (at_client i (VRet True) s)"
      using v_unlock [of "at_client i VUnlock (s\<lparr>a_mtx := Some (Client i)\<rparr>)" i] assms by simp
    from run [OF steps_step [of "wait_step i", OF 3 steps_one [of "wait_step i", OF this]]] False \<open>thread_joinable s\<close>
    show ?thesis by simp
  qed
qed

lemma wait_program:
  assumes "a_mtx s = None"
  shows "wait_for_trigger_cycle_to_finish (Suc i) (handler_view h s) =
    (if \<not> thread_joinable s then Return False else if in_progress s then Block else Return True,
     handler_view h s)"
  using assms by (simp add: view_defs)

lemma wait_is_steps:
  assumes "clients s i = Idle" "a_mtx s = None"
  shows "\<exists>t out. steps (wait_step i) s t \<and> wait_result (clients t i) = Some out \<and>
    wait_for_trigger_cycle_to_finish (Suc i) (handler_view h s) = (out, handler_view h t)"
proof -
  obtain t where t: "steps (wait_step i) (at_client i VRun s) t"
      "t = at_client i (if \<not> thread_joinable s then VRet False else if in_progress s then VWait else VRet True) s"
    using wait_from_run [OF assms(2)] by blast
  have "steps (wait_step i) s t" by (rule steps_step [OF v_call [OF assms(1)] t(1)])
  then show ?thesis
    by (intro exI conjI) (assumption, simp_all add: t(2) wait_program [OF assms(2)])
qed

lemma view_paused:
  "(handler_view h s)\<lparr>pause_thread := True\<rparr> = handler_view h (s\<lparr>paused := True\<rparr>)"
  by (cases h) (simp add: handler_view_def)

lemma pause_is_wait:
  assumes "scheduling_policy (params h) = SYNCHRONIZED" "clients s i = Idle" "a_mtx s = None"
  shows "\<exists>t out. steps (wait_step i) s t \<and> wait_result (clients t i) = Some out \<and>
    pause_execution (Suc i) (handler_view h s) = (out, handler_view h t)"
proof -
  let ?s = "s\<lparr>paused := True\<rparr>"
  have m: "a_mtx ?s = None" using assms(3) by simp
  obtain t where t: "steps (wait_step i) (at_client i VRun ?s) t"
      "t = at_client i (if \<not> thread_joinable ?s then VRet False else if in_progress ?s then VWait else VRet True) ?s"
    using wait_from_run [OF m] by blast
  have "pause_execution (Suc i) (handler_view h s) =
      wait_for_trigger_cycle_to_finish (Suc i) (handler_view h ?s)"
    using assms(1) by (simp add: pause_execution_def view_paused) (simp add: handler_view_def)
  moreover have "steps (wait_step i) s t" by (rule steps_step [OF v_pause [OF assms(2)] t(1)])
  ultimately show ?thesis
    by (intro exI conjI) (assumption, simp_all add: t(2) wait_program [OF m])
qed

section \<open>Resetting\<close>

lemma reset_to:
  assumes "clients s i = Idle" "a_mtx s = None"
  shows "steps (reset_step z d i) s ((drop_trigger s)\<lparr>stop_flag := False, args := z, last_time := 0,
    last_return := d, exc_slot := Whole None, cancelled := True, was_reset := True\<rparr>)"
  apply (rule steps_step, rule r_call, rule assms)
  apply (rule steps_step, rule r_lock, simp add: at_client_def, simp add: at_client_def assms)
  apply (rule steps_step, rule r_set, simp add: at_client_def)
  apply (rule steps_step, rule r_end, simp add: at_client_def)
  apply (rule steps_step, rule r_unlock, simp add: at_client_def)
  apply (rule steps_eq)
  using assms by (cases s) (simp add: at_client_def drop_trigger_def fun_upd_idem)

lemma reset_program:
  assumes "a_mtx s = None"
  shows "reset_variables L (Suc i) (handler_view h s) = (Return (), handler_view h
    ((drop_trigger s)\<lparr>stop_flag := False, args := (time_zero L, dur_zero L), last_time := 0,
      last_return := T_default L, exc_slot := Whole None, cancelled := True, was_reset := True\<rparr>))"
  using assms by (cases h) (simp add: view_defs drop_trigger_def)

lemma reset_is_reset_steps:
  assumes "clients s i = Idle" "a_mtx s = None"
  shows "\<exists>t. steps (reset_step (time_zero L, dur_zero L) (T_default L) i) s t \<and> clients t i = Idle \<and>
    reset_variables L (Suc i) (handler_view h s) = (Return (), handler_view h t)"
  using reset_to [OF assms] reset_program [OF assms(2), of L i h] assms(1)
  by (intro exI conjI) (assumption, simp add: drop_trigger_def, assumption)

section \<open>Properties\<close>

text \<open>
  \<^verbatim>\<open>wait_for_trigger_cycle_to_finish\<close>, \<^verbatim>\<open>pause_execution\<close> and \<^verbatim>\<open>reset_variables\<close> of a synchronized
  handler, as programs, do what their steps do in the machine with threads, wherever the worker and
  the other clients are while the mutex is free: the same result, a wait that blocks included, and
  the same members.
\<close>

theorem synchronized_calls_are_steps:
  assumes "scheduling_policy (params h) = SYNCHRONIZED" "clients s i = Idle" "a_mtx s = None"
  shows "(\<exists>t out. steps (wait_step i) s t \<and> wait_result (clients t i) = Some out \<and>
      wait_for_trigger_cycle_to_finish (Suc i) (handler_view h s) = (out, handler_view h t)) \<and>
    (\<exists>t out. steps (wait_step i) s t \<and> wait_result (clients t i) = Some out \<and>
      pause_execution (Suc i) (handler_view h s) = (out, handler_view h t)) \<and>
    (\<exists>t. steps (reset_step (time_zero L, dur_zero L) (T_default L) i) s t \<and> clients t i = Idle \<and>
      reset_variables L (Suc i) (handler_view h s) = (Return (), handler_view h t))"
  using wait_is_steps [OF assms(2,3)] pause_is_wait [OF assms] reset_is_reset_steps [OF assms(2,3)]
  by blast

theorem synchronized_calls_are_steps_witness:
  "\<exists>t. steps (wait_step 2) (demo_idle\<lparr>in_progress := True\<rparr>) t \<and> wait_result (clients t 2) = Some Block \<and> paused t"
proof -
  let ?s = "demo_idle\<lparr>in_progress := True\<rparr>"
  have "pause_execution 3 (handler_view demo_handler ?s) =
      (Block, (handler_view demo_handler ?s)\<lparr>pause_thread := True\<rparr>)"
    by (simp add: view_defs demo_handler_defs demo_idle_def)
  moreover obtain t out where t: "steps (wait_step 2) ?s t" "wait_result (clients t 2) = Some out"
    "pause_execution 3 (handler_view demo_handler ?s) = (out, handler_view demo_handler t)"
    using synchronized_calls_are_steps [of demo_handler ?s 2 demo_lib]
    by (auto simp: demo_handler_defs demo_idle_def numeral_3_eq_3)
  moreover have "pause_thread (handler_view demo_handler t) = paused t" by (simp add: handler_view_def)
  ultimately show ?thesis by auto
qed

end
