(* ===== verification/Serial_Calls.thy ===== *)
theory Serial_Calls
  imports RT_Prelude
begin

text \<open>
  Calls made one after the other, as programs, against a machine with threads: the sequences of
  calls with the results they gave, and the locale \<open>serial_calls\<close>, which lifts the agreement of a
  single call with steps of the machine to every sequence. The box, the buffer and the asynchronous
  handler under both policies are its instances.
\<close>

text \<open>A call that comes back, with a value or an exception.\<close>

fun comes_back :: "'a outcome \<Rightarrow> bool" where
  "comes_back (Return _) = True"
| "comes_back (Throw _) = True"
| "comes_back _ = False"

lemma comes_back_eq: "comes_back out \<longleftrightarrow> is_return out \<or> is_throw out"
  by (cases out) simp_all

text \<open>
  The states between the calls, from \<open>h0\<close> on, with the calls made: who called, what, and how the
  call ended.
\<close>

inductive serial_run ::
    "('c \<Rightarrow> 'h \<Rightarrow> bool) \<Rightarrow> (tid \<Rightarrow> 'c \<Rightarrow> ('h, 'x) prog) \<Rightarrow> 'h \<Rightarrow> (tid \<times> 'c \<times> 'x outcome) list \<Rightarrow> 'h \<Rightarrow> bool"
  for allowed :: "'c \<Rightarrow> 'h \<Rightarrow> bool" and perform :: "tid \<Rightarrow> 'c \<Rightarrow> ('h, 'x) prog" and h0 :: 'h where
  serial_none: "serial_run allowed perform h0 [] h0"
| serial_call: "serial_run allowed perform h0 made h \<Longrightarrow> allowed c h \<Longrightarrow> perform i c h = (out, h') \<Longrightarrow>
     comes_back out \<Longrightarrow> serial_run allowed perform h0 (made @ [(i, c, out)]) h'"

text \<open>
  The agreement of one call: from a machine state that matches the object and the calls made so
  far, there are steps to one that matches after the call.
\<close>

locale serial_calls =
  fixes step :: "'s \<Rightarrow> 's \<Rightarrow> bool"
    and matches :: "'s \<Rightarrow> (tid \<times> 'c \<times> 'x outcome) list \<Rightarrow> 'h \<Rightarrow> bool"
    and allowed :: "'c \<Rightarrow> 'h \<Rightarrow> bool"
    and perform :: "tid \<Rightarrow> 'c \<Rightarrow> ('h, 'x) prog"
  assumes call_runs: "matches s made h \<Longrightarrow> allowed c h \<Longrightarrow> perform i c h = (out, h') \<Longrightarrow> comes_back out \<Longrightarrow>
      \<exists>t. steps step s t \<and> matches t (made @ [(i, c, out)]) h'"
begin

lemma serial_steps:
  "serial_run allowed perform h0 made h \<Longrightarrow> matches s [] h0 \<Longrightarrow> \<exists>t. steps step s t \<and> matches t made h"
proof (induction rule: serial_run.induct)
  case serial_none
  then show ?case by (blast intro: steps_refl)
next
  case (serial_call made h c i out h')
  then obtain t where "steps step s t" "matches t made h" by blast
  with call_runs [OF this(2) serial_call.hyps(2-4)] show ?case by (blast intro: steps_trans)
qed

lemma serial_reach:
  "serial_run allowed perform h0 made h \<Longrightarrow> reach init step s \<Longrightarrow> matches s [] h0 \<Longrightarrow>
     \<exists>t. reach init step t \<and> matches t made h"
  using serial_steps by (blast intro: reach_steps)

end

text \<open>Steps of one thread are steps of the machine.\<close>

lemma steps_mono: "steps R s t \<Longrightarrow> (\<And>x y. R x y \<Longrightarrow> Q x y) \<Longrightarrow> steps Q s t"
  by (induction rule: steps.induct) (auto intro: steps.intros)

end
