(* ===== verification/Async_Session.thy ===== *)
theory Async_Session
  imports Async_Calls Serial_Calls
begin

text \<open>
  From one \<^verbatim>\<open>start_thread\<close> on, the calls of clients and the cycles of the synchronized worker made one
  after the other (\<open>Async_Lifecycle\<close>) are runs of the machine with threads (\<open>Async_Worker\<close>), so that
  whatever holds of every state of the machine holds between these calls.
\<close>

section \<open>The states between calls\<close>

text \<open>
  No client is inside a call, the mutex is free, and the worker is at the test of its loop, or has
  ended and been joined.
\<close>

definition between_calls :: "('a, 'r) async \<Rightarrow> bool" where
  "between_calls s \<longleftrightarrow> clients s = (\<lambda>_. Idle) \<and> a_mtx s = None \<and> exc_slot s \<noteq> Torn \<and>
     (if thread_joinable s then worker s = WTest \<and> \<not> stop_flag s else worker s = WDone)"

text \<open>What a call has to be shown to do: \<open>h'\<close> is the handler that steps from \<open>s\<close> leave.\<close>

definition answered ::
    "'time \<times> 'dur \<Rightarrow> 'r \<Rightarrow> ('time \<times> 'dur, 'r) async \<Rightarrow> ('c, 'p, 'f, 'time, 'dur, 'r) async_handler \<Rightarrow>
      ('c, 'p, 'f, 'time, 'dur, 'r) async_handler \<Rightarrow> bool" where
  "answered z d s h h' \<longleftrightarrow> (\<exists>t. steps (async_step z d) s t \<and> between_calls t \<and> h' = handler_view h t)"

lemma answered_steps:
  "steps (async_step z d) s t \<Longrightarrow> between_calls t \<Longrightarrow> h' = handler_view h t \<Longrightarrow> answered z d s h h'"
  by (auto simp: answered_def)

lemma answered_same: "between_calls s \<Longrightarrow> h' = handler_view h s \<Longrightarrow> answered z d s h h'"
  by (rule answered_steps [OF steps_refl])

lemma at_idle: "clients s i = Idle \<Longrightarrow> at_client i Idle s = s"
  by (simp add: at_client_def fun_upd_idem)

lemmas client_moves = async_client.intros calm_client.intros

lemma lift_trigger: "trigger_step i s t \<Longrightarrow> async_step z d s t"
  by (blast intro: as_client client_moves)

lemma lift_wait: "wait_step i s t \<Longrightarrow> async_step z d s t"
  by (blast intro: as_client client_moves)

lemma lift_stop: "stop_thread_step i s t \<Longrightarrow> async_step z d s t"
  by (blast intro: as_client client_moves)

lemma lift_reset: "reset_step z d i s t \<Longrightarrow> async_step z d s t"
  by (blast intro: as_client client_moves)

lemma settled_slot: "between_calls s \<Longrightarrow> \<exists>e. exc_slot s = Whole e"
  by (cases "exc_slot s") (simp_all add: between_calls_def)

lemma between_notify: "between_calls s \<Longrightarrow> notify_worker s = s"
  by (auto simp: between_calls_def notify_worker_def split: if_splits)

section \<open>The calls\<close>

lemma wait_answered:
  assumes "between_calls s" "wait_for_trigger_cycle_to_finish (Suc i) (handler_view h s) = (out, h')"
    and "is_return out \<or> is_throw out"
  shows "answered z d s h h'"
  using assms by (intro answered_same) (simp_all add: wait_program between_calls_def)

lemma pause_answered:
  assumes "scheduling_policy (params h) = SYNCHRONIZED" "between_calls s"
    and "pause_execution (Suc i) (handler_view h s) = (out, h')" "is_return out \<or> is_throw out"
  shows "answered z d s h h'"
proof -
  let ?s = "s\<lparr>paused := True\<rparr>"
  have s: "clients s i = Idle" "a_mtx ?s = None" using assms(2) by (simp_all add: between_calls_def)
  have call: "pause_execution (Suc i) (handler_view h s) =
      wait_for_trigger_cycle_to_finish (Suc i) (handler_view h ?s)"
    using assms(1) by (simp add: pause_execution_def view_paused) (simp add: handler_view_def)
  then have out: "h' = handler_view h ?s" "\<not> (thread_joinable s \<and> in_progress s)"
    using assms(3,4) wait_program [OF s(2), of i h] by (auto split: if_splits)
  have "steps (wait_step i) (at_client i VRun ?s) (at_client i (VRet (thread_joinable s)) ?s)"
    using wait_from_run [OF s(2), of i] out(2) by (auto split: if_splits)
  then have "steps (wait_step i) s (at_client i (VRet (thread_joinable s)) ?s)"
    by (rule steps_step [of "wait_step i", OF v_pause [OF s(1)]])
  moreover have "wait_step i (at_client i (VRet (thread_joinable s)) ?s) (at_client i Idle ?s)"
    using v_ret [of "at_client i (VRet (thread_joinable s)) ?s" i] by simp
  ultimately have "steps (wait_step i) s (at_client i Idle ?s)"
    by (meson steps_trans steps_one)
  then have "steps (async_step z d) s (at_client i Idle ?s)" by (rule steps_mono) (rule lift_wait)
  then have "steps (async_step z d) s ?s" using s(1) by (simp add: at_idle)
  then show ?thesis
    using assms(2) out(1) by (intro answered_steps) (auto simp: between_calls_def)
qed


lemma reset_answered:
  assumes "between_calls s" "reset_variables L (Suc i) (handler_view h s) = (out, h')"
  shows "answered (time_zero L, dur_zero L) (T_default L) s h h'"
proof -
  let ?z = "(time_zero L, dur_zero L)" and ?d = "T_default L"
  let ?t = "(drop_trigger s)\<lparr>stop_flag := False, args := ?z, last_time := 0, last_return := ?d,
    exc_slot := Whole None, cancelled := True, was_reset := True\<rparr>"
  have s: "clients s i = Idle" "a_mtx s = None" using assms(1) by (simp_all add: between_calls_def)
  have "steps (async_step ?z ?d) s ?t"
    by (rule steps_mono [OF reset_to [OF s]]) (rule lift_reset)
  moreover have "between_calls ?t"
    using assms(1) by (simp add: between_calls_def drop_trigger_def)
  ultimately show ?thesis
    using assms(2) by (intro answered_steps) (auto simp only: reset_program [OF s(2)] prod.inject)
qed

text \<open>
  The worker ends at its test, or goes through its block once more when it was already past the
  test: both are runs of the machine.
\<close>

lemma worker_ends:
  assumes "worker s = WTest" "stop_flag s"
  shows "steps worker_step s (s\<lparr>worker := WDone\<rparr>)"
  by (rule steps_one, rule w_leave) (simp_all add: assms)

lemma woken_other: "p \<noteq> VWait \<Longrightarrow> woken p = p"
  by (cases p) simp_all

lemma worker_ends_late:
  assumes "worker s = WLock" "stop_flag s" "a_mtx s = None" "\<And>i. clients s i \<noteq> VWait"
  shows "steps worker_step s ((drop_trigger s)\<lparr>worker := WDone\<rparr>)"
proof -
  have w: "woken \<circ> clients s = clients s"
    using assms(4) by (intro ext) (simp add: woken_other)
  show ?thesis
    apply (rule steps_step, rule w_lock, rule assms, rule assms)
    apply (rule steps_step, rule w_pred, simp, simp add: assms)
    apply (rule steps_step, rule w_skip, simp, simp add: assms)
    apply (rule steps_step, rule w_clear [of _ False], simp)
    apply (rule steps_step, rule w_unlock, simp)
    apply (rule steps_step, rule w_notify, simp)
    apply (rule steps_step, rule w_leave, simp, simp add: drop_trigger_def assms notify_waiters_def)
    apply (rule steps_eq)
    using assms w by (cases s) (simp add: drop_trigger_def notify_waiters_def)
qed

lemma stop_to_join:
  assumes "clients s i = Idle" "a_mtx s = None" "thread_joinable s" "worker s \<noteq> WWait"
  shows "steps (stop_thread_step i) s (at_client i client_pc.SJoin (s\<lparr>stop_flag := True, cancelled := True\<rparr>))"
  apply (rule steps_step, rule s_call, rule assms)
  apply (rule steps_step, rule s_run, simp add: at_client_def)
  apply (rule steps_step, rule s_store, simp add: at_client_def assms)
  apply (rule steps_step, rule s_lock, simp add: at_client_def, simp add: at_client_def assms)
  apply (rule steps_step, rule s_unlock, simp add: at_client_def)
  apply (rule steps_step, rule s_notify, simp add: at_client_def)
  apply (rule steps_eq)
  using assms by (cases s) (simp add: at_client_def notify_worker_def)

lemma join_after:
  assumes "thread_joinable v" "worker v = WDone"
  shows "stop_thread_step i (at_client i client_pc.SJoin v) (at_client i Idle (v\<lparr>thread_joinable := False\<rparr>))"
  using s_join [of "at_client i client_pc.SJoin v" i] assms by (simp add: at_client_def)

lemma worker_at_client [simp]:
  "(at_client i p s)\<lparr>worker := q\<rparr> = at_client i p (s\<lparr>worker := q\<rparr>)"
  "drop_trigger (at_client i p s) = at_client i p (drop_trigger s)"
  "stop_flag (at_client i p s) = stop_flag s" "clients (at_client i p s) j = (if j = i then p else clients s j)"
  by (simp_all add: at_client_def drop_trigger_def)

lemma stop_program:
  assumes "a_mtx s = None" "thread_joinable s"
  shows "stop_thread (Some b) (Suc i) (handler_view h s) = (Return (), handler_view h
    (s\<lparr>stop_flag := True, thread_joinable := False, in_progress := in_progress s \<and> \<not> b\<rparr>))"
  using assms by (cases h) (simp add: view_defs stop_thread_def thread_join_def)

lemma stop_runs:
  assumes "between_calls s" "thread_joinable s"
  shows "steps (async_step z d) s ((if b then drop_trigger s else s)
    \<lparr>stop_flag := True, cancelled := True, worker := WDone, thread_joinable := False\<rparr>)"
proof -
  have s: "clients s i = Idle" "a_mtx s = None" "worker s = WTest" "\<not> stop_flag s" "worker s \<noteq> WWait"
    for i using assms by (simp_all add: between_calls_def)
  let ?i = "0 :: tid" and ?u = "s\<lparr>stop_flag := True, cancelled := True\<rparr>"
  have idle: "at_client ?i Idle v = v" if "clients v = clients s" for v :: "('a, 'b) async"
    using that s(1) by (simp add: at_idle)
  show ?thesis
  proof (cases b)
    case False
    let ?v = "?u\<lparr>worker := WDone\<rparr>"
    have "steps (async_step z d) s (at_client ?i client_pc.SJoin ?u)"
      by (rule steps_mono [OF stop_to_join [OF s(1,2) assms(2) s(5)]]) (rule lift_stop)
    moreover have "steps worker_step (at_client ?i client_pc.SJoin ?u) (at_client ?i client_pc.SJoin ?v)"
      using worker_ends [of "at_client ?i client_pc.SJoin ?u"] s by simp
    then have "steps (async_step z d) (at_client ?i client_pc.SJoin ?u) (at_client ?i client_pc.SJoin ?v)"
      by (rule steps_mono) (rule as_worker)
    moreover have "async_step z d (at_client ?i client_pc.SJoin ?v)
        (at_client ?i Idle (?v\<lparr>thread_joinable := False\<rparr>))"
      by (rule lift_stop, rule join_after) (simp_all add: assms)
    ultimately have "steps (async_step z d) s (at_client ?i Idle (?v\<lparr>thread_joinable := False\<rparr>))"
      by (meson steps_trans steps_one)
    with False show ?thesis by (simp add: idle)
  next
    case True
    let ?w = "s\<lparr>worker := WLock\<rparr>"
    let ?u = "?w\<lparr>stop_flag := True, cancelled := True\<rparr>"
    let ?v = "(drop_trigger ?u)\<lparr>worker := WDone\<rparr>"
    have "async_step z d s ?w" by (rule as_worker, rule w_again) (simp_all add: s)
    moreover have "steps (stop_thread_step ?i) ?w (at_client ?i client_pc.SJoin ?u)"
      using stop_to_join [of ?w ?i] s assms(2) by simp
    then have "steps (async_step z d) ?w (at_client ?i client_pc.SJoin ?u)"
      by (rule steps_mono) (rule lift_stop)
    moreover have "steps worker_step (at_client ?i client_pc.SJoin ?u) (at_client ?i client_pc.SJoin ?v)"
      using worker_ends_late [of "at_client ?i client_pc.SJoin ?u"] s by simp
    then have "steps (async_step z d) (at_client ?i client_pc.SJoin ?u) (at_client ?i client_pc.SJoin ?v)"
      by (rule steps_mono) (rule as_worker)
    moreover have "async_step z d (at_client ?i client_pc.SJoin ?v)
        (at_client ?i Idle (?v\<lparr>thread_joinable := False\<rparr>))"
      by (rule lift_stop, rule join_after) (simp_all add: assms drop_trigger_def)
    ultimately have "steps (async_step z d) s (at_client ?i Idle (?v\<lparr>thread_joinable := False\<rparr>))"
      by (meson steps_trans steps_one steps_step)
    then have "steps (async_step z d) s (?v\<lparr>thread_joinable := False\<rparr>)"
      by (simp add: idle drop_trigger_def)
    with True show ?thesis by (cases s) (simp add: drop_trigger_def cong: if_cong)
  qed
qed

lemma stop_answered:
  assumes "between_calls s" "stop_thread ended (Suc i) (handler_view h s) = (out, h')"
    and "is_return out \<or> is_throw out"
  shows "answered z d s h h'"
proof (cases "thread_joinable s")
  case False
  with assms show ?thesis
    by (intro answered_same) (simp_all add: stop_thread_def is_running_def handler_view_def)
next
  case True
  have m: "a_mtx s = None" using assms(1) by (simp add: between_calls_def)
  obtain b where b: "ended = Some b"
    using assms(2,3) m True by (cases ended) (auto simp: view_defs stop_thread_def thread_join_def)
  let ?t = "(if b then drop_trigger s else s)
    \<lparr>stop_flag := True, cancelled := True, worker := WDone, thread_joinable := False\<rparr>"
  have "handler_view h (s\<lparr>stop_flag := True, thread_joinable := False, in_progress := in_progress s \<and> \<not> b\<rparr>) =
      handler_view h ?t"
    using assms(1) by (simp add: handler_view_def drop_trigger_def)
  moreover have "between_calls ?t"
    using assms(1) by (simp add: between_calls_def drop_trigger_def)
  ultimately show ?thesis
    using assms(2) stop_program [OF m True, of b i h] stop_runs [OF assms(1) True, of z d b]
    by (intro answered_steps) (auto simp only: b prod.inject)
qed

text \<open>A trigger: the run of \<open>Async_Agreement\<close>, entered from the client's idle state and left back to it.\<close>

lemma trigger_predicate_only:
  assumes "predicate_fn g = Some p"
  shows "trigger_async_callback L run t time period g = trigger_async_callback L (\<lambda>_. run p) t time period g"
  using assms by (simp add: trigger_async_callback_def accept_trigger_def call_predicate_def
      async_try_lock_def guarded_def bindp_def mtx_try_def split: option.splits)

lemma solo_returns:
  assumes "solo i a s (clients t i) t" "trigger_result (clients t i) = Some r" "between_calls s"
  shows "trigger_step i t (at_client i Idle t) \<and> between_calls (at_client i Idle t)"
proof (cases "clients t i")
  case (TRet b v)
  with assms(1,3) have "between_calls (at_client i Idle t)"
    by (auto simp: between_calls_def at_client_def notify_worker_def split: if_splits)
  with t_ret [OF TRet] show ?thesis ..
next
  case (TFail e)
  with assms(1,3) have "between_calls (at_client i Idle t)"
    by (auto simp: between_calls_def at_client_def)
  with t_fail [OF TFail] show ?thesis ..
qed (use assms(2) in simp_all)

lemma trigger_answered:
  assumes h: "async_function h = Some f" "predicate_fn h = Some p" "scheduling_policy (params h) = SYNCHRONIZED"
    and run: "is_return (run p) \<or> is_throw (run p)"
    and s: "between_calls s"
    and call: "trigger_async_callback L run (Suc i) time period (handler_view h s) = (out, h')"
  shows "answered z d s h h'"
proof -
  obtain e where e: "exc_slot s = Whole e" using settled_slot [OF s] by blast
  have free: "clients s i = Idle" "a_mtx s \<noteq> Some (Client i)" using s by (simp_all add: between_calls_def)
  have "trigger_async_callback L (\<lambda>_. run p) (Suc i) (fst (time, period)) (snd (time, period))
      (handler_view h s) = (out, h')"
    using call trigger_predicate_only [of "handler_view h s" p L run "Suc i" time period] h(2)
    by (simp add: view_fields)
  from call_is_run [OF h e free(2) run this] obtain t where
    t: "steps (own_trigger i) (at_client i (client_pc.TExc (time, period)) s) t"
      "trigger_result (clients t i) = Some out" "h' = handler_view h t" by blast
  have "solo i (time, period) s (clients t i) t"
    using solo_steps [OF t(1)] e free(2) by simp
  note r = solo_returns [OF this t(2) s]
  have "steps (trigger_step i) (at_client i (client_pc.TExc (time, period)) s) t"
    by (rule steps_mono [OF t(1)]) (simp add: own_trigger_def)
  then have "steps (trigger_step i) s t" by (rule steps_step [of "trigger_step i", OF t_call [OF free(1)]])
  with r have "steps (trigger_step i) s (at_client i Idle t)" by (meson steps_trans steps_one)
  then have "steps (async_step z d) s (at_client i Idle t)" by (rule steps_mono) (rule lift_trigger)
  then show ?thesis
    by (rule answered_steps) (simp_all add: r t(3))
qed

text \<open>A cycle of the worker, from the test of its loop back to it.\<close>

lemma cycle_runs:
  assumes "between_calls s" "thread_joinable s" "in_progress s"
    and "case w of Inl e \<Rightarrow> v = s\<lparr>exc_slot := Whole (Some e)\<rparr> | Inr r \<Rightarrow> v = s\<lparr>last_return := r\<rparr>"
  shows "steps worker_step s
    (v\<lparr>last_time := n, in_progress := False, finished := finished s @ [(args s, True)]\<rparr>)"
proof -
  have s: "clients s = (\<lambda>_. Idle)" "a_mtx s = None" "worker s = WTest" "\<not> stop_flag s"
    using assms(1,2) by (simp_all add: between_calls_def)
  let ?c = "s\<lparr>a_mtx := Some Worker, worker := WCall\<rparr>"
  let ?f = "finished s @ [(args s, True)]"
  let ?e = "v\<lparr>a_mtx := Some Worker, finished := ?f, worker := WTime\<rparr>"
  have "steps worker_step s ?c"
    apply (rule steps_step, rule w_again, rule s, rule s)
    apply (rule steps_step, rule w_lock, simp, simp add: s)
    apply (rule steps_step, rule w_pred, simp, simp add: assms(3))
    apply (rule steps_step, rule w_go, simp, simp add: s)
    by (rule steps_eq) simp
  moreover have "steps worker_step ?c ?e"
  proof (cases w)
    case (Inl e)
    show ?thesis
      apply (rule steps_step, rule w_call_throws [where e = e], simp)
      apply (rule steps_step, rule w_throw [where e = e], simp)
      apply (rule steps_step, rule w_thrown [where e = e], simp)
      apply (rule steps_eq)
      using assms(4) Inl by (cases s) simp
  next
    case (Inr r)
    show ?thesis
      apply (rule steps_step, rule w_call [where r = r], simp)
      apply (rule steps_step, rule w_store [where r = r], simp)
      apply (rule steps_eq)
      using assms(4) Inr by (cases s) simp
  qed
  moreover have v: "clients v = (\<lambda>_. Idle)" "a_mtx v = None" "worker v = WTest"
    using assms(4) s by (cases w; simp)+
  have "steps worker_step ?e (v\<lparr>last_time := n, in_progress := False, finished := ?f\<rparr>)"
    apply (rule steps_step, rule w_time [where d = n], simp)
    apply (rule steps_step, rule w_clear [where called = True], simp)
    apply (rule steps_step, rule w_unlock, simp)
    apply (rule steps_step, rule w_notify, simp)
    apply (rule steps_eq)
    using v by (cases v) (simp add: notify_waiters_def comp_def)
  ultimately show ?thesis by (meson steps_trans)
qed

text \<open>The callback returns or throws; an empty \<^verbatim>\<open>std::function\<close> throws.\<close>

lemma cycle_waits:
  assumes "a_mtx s = None" "\<not> stop_flag s" "\<not> in_progress s"
  shows "fst (worker_cycle run n (handler_view h s)) = Block"
  using assms by (simp add: worker_cycle_def guarded_def bindp_def async_lock_def handler_view_def)

lemma call_function_same: "\<exists>w. call_function run g = (w, g)"
  by (cases "async_function g") (simp_all add: call_function_def)

lemma busy_cycle:
  assumes "async_mtx g = None" "\<not> stop_async_callback g" "trigger_in_progress g"
    and "call_function run (g\<lparr>async_mtx := Some 0\<rparr>) = (w, g\<lparr>async_mtx := Some 0\<rparr>)"
  shows "worker_cycle run n g = (case w of
      Return r \<Rightarrow> (Return (), g\<lparr>callback_return := r, last_execution_time := n, trigger_in_progress := False\<rparr>)
    | Throw e \<Rightarrow> (Return (), g\<lparr>exception_ptr := Some e, last_execution_time := n, trigger_in_progress := False\<rparr>)
    | Block \<Rightarrow> (Block, g\<lparr>async_mtx := Some 0\<rparr>)
    | Terminate \<Rightarrow> (Terminate, g\<lparr>async_mtx := Some 0\<rparr>)
    | Undefined \<Rightarrow> (Undefined, g\<lparr>async_mtx := Some 0\<rparr>))"
  using assms by (cases w; cases g)
    (simp_all add: worker_cycle_def guarded_def bindp_def async_lock_def async_unlock_def)

lemma view_cycled:
  "(handler_view h s)\<lparr>callback_return := r, last_execution_time := n, trigger_in_progress := False\<rparr> =
     handler_view h (s\<lparr>last_return := r, last_time := n, in_progress := False, finished := l\<rparr>)"
  "(handler_view h s)\<lparr>exception_ptr := Some e, last_execution_time := n, trigger_in_progress := False\<rparr> =
     handler_view h (s\<lparr>exc_slot := Whole (Some e), last_time := n, in_progress := False, finished := l\<rparr>)"
  by (cases h; simp add: handler_view_def)+

lemma cycle_answered:
  assumes s: "between_calls s" "thread_joinable s"
    and call: "worker_cycle run n (handler_view h s) = (out, h')" "is_return out \<or> is_throw out"
  shows "answered z d s h h'"
proof -
  have m: "a_mtx s = None" "\<not> stop_flag s" using s by (simp_all add: between_calls_def)
  have busy: "in_progress s"
    using cycle_waits [of s run n h] call m by (cases "in_progress s") auto
  have view: "async_mtx (handler_view h s) = None" "\<not> stop_async_callback (handler_view h s)"
    "trigger_in_progress (handler_view h s)"
    using m busy by (simp_all add: handler_view_def)
  obtain w where w: "call_function run ((handler_view h s)\<lparr>async_mtx := Some 0\<rparr>) =
      (w, (handler_view h s)\<lparr>async_mtx := Some 0\<rparr>)"
    using call_function_same by blast
  let ?l = "finished s @ [(args s, True)]"
  note c = busy_cycle [OF view w, of n]
  from call c consider r where "w = Return r" | e where "w = Throw e" by (cases w) auto
  then obtain v x where v:
    "case x of Inl e \<Rightarrow> v = s\<lparr>exc_slot := Whole (Some e)\<rparr> | Inr r \<Rightarrow> v = s\<lparr>last_return := r\<rparr>"
    "h' = handler_view h (v\<lparr>last_time := n, in_progress := False, finished := ?l\<rparr>)"
  proof cases
    case (1 r)
    with call c that [of "s\<lparr>last_return := r\<rparr>" "Inr r"] show ?thesis by (simp add: view_cycled [where l = ?l])
  next
    case (2 e)
    with call c that [of "s\<lparr>exc_slot := Whole (Some e)\<rparr>" "Inl e"] show ?thesis
      by (simp add: view_cycled [where l = ?l])
  qed
  have "between_calls (v\<lparr>last_time := n, in_progress := False, finished := ?l\<rparr>)"
    using s v(1) by (cases x) (simp_all add: between_calls_def)
  moreover have "steps (async_step z d) s (v\<lparr>last_time := n, in_progress := False, finished := ?l\<rparr>)"
    by (rule steps_mono [OF cycle_runs [OF s busy v(1)]]) (rule as_worker)
  ultimately show ?thesis using v(2) by (intro answered_steps)
qed

section \<open>Sessions\<close>

text \<open>
  The calls of a session: everything but \<^verbatim>\<open>init\<close> and \<^verbatim>\<open>start_thread\<close>, cycles of the worker while it
  runs, and \<^verbatim>\<open>join_async_callback_thread\<close> when there is nothing to join.
\<close>

fun in_session :: "bool \<Rightarrow> ('c, 'p, 'f, 'time, 'dur) handler_call \<Rightarrow> bool" where
  "in_session running (Trigger _ _) = True"
| "in_session running Reset = True"
| "in_session running Wait = True"
| "in_session running Pause = True"
| "in_session running (Stop _) = True"
| "in_session running (Join _) = (\<not> running)"
| "in_session running (Cycle _) = running"
| "in_session running _ = False"

text \<open>The states between the calls that return or throw, from the state \<open>h0\<close> of a start on.\<close>

abbreviation made_by ::
    "('c, 'time, 'dur, 'r) async_lib \<Rightarrow> ('p \<Rightarrow> bool outcome) \<Rightarrow> ('f \<Rightarrow> 'time \<Rightarrow> 'dur \<Rightarrow> 'r outcome) \<Rightarrow>
      tid \<Rightarrow> ('c, 'p, 'f, 'time, 'dur) handler_call \<Rightarrow> ('c, 'p, 'f, 'time, 'dur, 'r, unit) async_prog" where
  "made_by L run call i \<equiv> perform L run call (Suc i)"

abbreviation open_to ::
    "('c, 'p, 'f, 'time, 'dur) handler_call \<Rightarrow> ('c, 'p, 'f, 'time, 'dur, 'r) async_handler \<Rightarrow> bool" where
  "open_to c h \<equiv> in_session (joinable h) c"

definition session ::
    "('c, 'time, 'dur, 'r) async_lib \<Rightarrow> ('p \<Rightarrow> bool outcome) \<Rightarrow> ('f \<Rightarrow> 'time \<Rightarrow> 'dur \<Rightarrow> 'r outcome) \<Rightarrow>
      ('c, 'p, 'f, 'time, 'dur, 'r) async_handler \<Rightarrow> ('c, 'p, 'f, 'time, 'dur, 'r) async_handler \<Rightarrow> bool" where
  "session L run call h0 h \<longleftrightarrow> (\<exists>made. serial_run open_to (made_by L run call) h0 made h)"

lemma done_withE:
  assumes "done_with m s = (out, s')"
  obtains r where "m s = (r, s')" "is_return r = is_return out" "is_throw r = is_throw out"
  using assms by (cases "m s"; cases "fst (m s)") (auto simp: done_with_def bindp_def)

lemma perform_answered:
  assumes h: "async_function h = Some f" "predicate_fn h = Some p" "scheduling_policy (params h) = SYNCHRONIZED"
    and run: "is_return (run p) \<or> is_throw (run p)"
    and s: "between_calls s" "in_session (thread_joinable s) c"
    and call: "perform L run call (Suc i) c (handler_view h s) = (out, h')" "is_return out \<or> is_throw out"
  shows "answered (time_zero L, dur_zero L) (T_default L) s h h'"
proof (cases c)
  case (Trigger time period)
  with call(1) obtain r where
    "trigger_async_callback L run (Suc i) time period (handler_view h s) = (r, h')"
    by (auto elim: done_withE)
  then show ?thesis by (rule trigger_answered [where run = run, OF h run s(1)])
next
  case Reset
  with call(1) show ?thesis by (intro reset_answered [OF s(1)]) simp
next
  case Wait
  with call obtain r where "wait_for_trigger_cycle_to_finish (Suc i) (handler_view h s) = (r, h')"
    "is_return r \<or> is_throw r"
    by (auto elim: done_withE)
  then show ?thesis by (rule wait_answered [OF s(1)])
next
  case Pause
  with call obtain r where "pause_execution (Suc i) (handler_view h s) = (r, h')" "is_return r \<or> is_throw r"
    by (auto elim: done_withE)
  then show ?thesis by (rule pause_answered [OF h(3) s(1)])
next
  case (Stop ended)
  with call show ?thesis by (intro stop_answered [OF s(1)]) simp_all
next
  case (Join ended)
  with call s show ?thesis
    by (intro answered_same) (simp_all add: join_async_callback_thread_def is_running_def view_fields)
next
  case (Cycle n)
  with call s show ?thesis by (intro cycle_answered) simp_all
qed (use s(2) in simp_all)

text \<open>The handler can be served under the synchronized policy, and is between calls.\<close>

definition in_service :: "('p \<Rightarrow> bool outcome) \<Rightarrow> ('c, 'p, 'f, 'time, 'dur, 'r) async_handler \<Rightarrow> bool" where
  "in_service run h \<longleftrightarrow> async_function h \<noteq> None \<and> scheduling_policy (params h) = SYNCHRONIZED \<and>
     (\<exists>p. predicate_fn h = Some p \<and> comes_back (run p))"

interpretation session_calls: serial_calls "async_step (time_zero L, dur_zero L) (T_default L)"
    "\<lambda>s made h. in_service run h0 \<and> between_calls s \<and> h = handler_view h0 s"
    open_to "made_by L run call" for L run call h0
proof
  fix s made h c i out h'
  assume s: "in_service run h0 \<and> between_calls s \<and> h = handler_view h0 s"
    and c: "open_to c h" "made_by L run call i c h = (out, h')" "comes_back out"
  then obtain f p where h: "async_function h0 = Some f" "predicate_fn h0 = Some p"
      "scheduling_policy (params h0) = SYNCHRONIZED" "is_return (run p) \<or> is_throw (run p)"
    by (auto simp: in_service_def comes_back_eq)
  have "answered (time_zero L, dur_zero L) (T_default L) s h0 h'"
    by (rule perform_answered [where run = run and call = call and c = c and i = i and out = out, OF h])
      (use s c in \<open>simp_all add: view_fields comes_back_eq\<close>)
  with s show "\<exists>t. steps (async_step (time_zero L, dur_zero L) (T_default L)) s t \<and>
      in_service run h0 \<and> between_calls t \<and> h' = handler_view h0 t"
    by (auto simp: answered_def)
qed

text \<open>
  C12. Whatever calls clients make one after the other on a synchronized handler from
  \<^verbatim>\<open>start_thread\<close> on, with cycles of the worker between them, the handler is at every point the view
  of a reachable state of the machine with threads, one in which no client is inside a call: the
  programs refine the machine, and what holds of all its states holds between calls.
\<close>

theorem session_refines_machine:
  assumes "start_thread L t g = (Return (), h0)" "\<not> joinable g" "async_mtx g = None"
    and "predicate_fn g = Some p" "scheduling_policy (params g) = SYNCHRONIZED"
    and "is_return (run p) \<or> is_throw (run p)"
    and "session L run call h0 h"
  shows "\<exists>s. async_reach (time_zero L, dur_zero L) (T_default L) s \<and> clients s = (\<lambda>_. Idle) \<and>
    h = handler_view h0 s"
proof -
  let ?s0 = "synchronized_machine h0"
  obtain f where f: "async_function g = Some f"
    using assms(1) by (cases "async_function g") (simp_all add: start_thread_def is_initialized_def)
  have h0: "h0 = g\<lparr>stop_async_callback := False, trigger_in_progress := False, callback_time := time_zero L,
      callback_period := dur_zero L, last_execution_time := 0, callback_return := T_default L,
      exception_ptr := None, joinable := True\<rparr>"
    using assms(1-4) f by (cases g) (simp add: async_call_defs)
  have h: "async_function h0 = Some f" "predicate_fn h0 = Some p" "scheduling_policy (params h0) = SYNCHRONIZED"
    using assms(4,5) f by (simp_all add: h0)
  have init: "async_init ?s0" "between_calls ?s0" "handler_view h0 ?s0 = h0"
    using assms(3) by (simp_all add: h0 synchronized_machine_def async_init_def between_calls_def handler_view_def)
  have serve: "in_service run h0" using h assms(6) by (auto simp: in_service_def comes_back_eq)
  from assms(7) obtain made where "serial_run open_to (made_by L run call) h0 made h"
    unfolding session_def by blast
  from session_calls.serial_reach [OF this reach_init [where init = async_init, OF init(1)], of h0] init serve
  show ?thesis by (auto simp: between_calls_def)
qed

definition demo_stopped :: "(int, bool, nat, int, int, nat) async_handler" where
  "demo_stopped = demo_started\<lparr>callback_return := 13, callback_time := 5, callback_period := 7,
     last_execution_time := 100, stop_async_callback := True, joinable := False\<rparr>"

lemma demo_session:
  "session demo_lib Return (\<lambda>f x y. Return (f + nat x + nat y)) demo_started demo_stopped"
  (is "session _ _ ?call _ _")
proof -
  let ?run = "serial_run open_to (made_by demo_lib Return ?call) demo_started"
  let ?h1 = "demo_started\<lparr>trigger_in_progress := True, callback_time := 5, callback_period := 7\<rparr>"
  let ?h2 = "demo_started\<lparr>callback_return := 13, callback_time := 5, callback_period := 7, last_execution_time := 100\<rparr>"
  have "?run ([] @ [(1, Trigger 5 7, Return ())]) ?h1"
    by (rule serial_call [OF serial_none])
      (simp_all add: demo_started_def demo_handler_defs async_call_defs done_with_def)
  then have "?run (([] @ [(1, Trigger 5 7, Return ())]) @ [(0, Cycle 100, Return ())]) ?h2"
    by (rule serial_call)
      (simp_all add: demo_started_def demo_handler_defs async_call_defs worker_cycle_def call_function_def)
  then have "?run ((([] @ [(1, Trigger 5 7, Return ())]) @ [(0, Cycle 100, Return ())]) @
      [(2, Stop (Some False), Return ())]) demo_stopped"
    by (rule serial_call) (simp_all add: demo_started_def demo_stopped_def demo_handler_defs
        async_call_defs stop_thread_def thread_join_def)
  then show ?thesis unfolding session_def by blast
qed

theorem session_refines_machine_witness:
  "\<exists>s :: (int \<times> int, nat) async. async_reach (0, 0) 0 s \<and> \<not> thread_joinable s \<and> last_return s = 13"
proof -
  have "start_thread demo_lib 1 (demo_started\<lparr>joinable := False\<rparr>) = (Return (), demo_started)"
    by (simp add: demo_started_def demo_handler_defs async_call_defs)
  from session_refines_machine [OF this _ _ _ _ _ demo_session, of True]
  obtain s :: "(int \<times> int, nat) async" where "async_reach (0, 0) 0 s" "demo_stopped = handler_view demo_started s"
    by (auto simp: demo_started_def demo_handler_defs)
  moreover have "\<not> joinable demo_stopped" "callback_return demo_stopped = 13"
    by (simp_all add: demo_stopped_def)
  ultimately show ?thesis by (metis view_fields(1,6))
qed

end
