(* ===== verification/Detached_Session.thy ===== *)
theory Detached_Session
  imports Async_Lifecycle Async_Start Serial_Calls
begin

text \<open>
  From one \<^verbatim>\<open>start_thread\<close> of a detached handler on: what its worker does before its loop and in one
  turn of it as programs (\<^verbatim>\<open>execute_detached_callback\<close> in \<^verbatim>\<open>async_function_handler.hpp\<close>), and sequences of
  the calls of clients and of turns of the worker as runs of the machine with threads of
  \<open>Async_Detached\<close>. Times are nanoseconds.
\<close>

section \<open>The worker, run alone\<close>

type_synonym ('c, 'p, 'f, 'r) detached_handler = "('c, 'p, 'f, int, int, 'r) async_handler"

text \<open>
  The wait, if the handler is paused; the store of the time \<open>now\<close> of \<^verbatim>\<open>params_.clock\<close>; the sleep; and
  \<open>steady\<close>, the time of the steady clock, as the first \<^verbatim>\<open>next_iteration_time\<close>.
\<close>

definition detached_begin ::
    "int \<Rightarrow> int \<Rightarrow> (('c, 'p, 'f, 'r) detached_handler, int) prog" where
  "detached_begin now steady =
     bindp (get_state pause_thread) (\<lambda>paused.
     bindp (if paused
            then guarded (async_lock 0) async_unlock
              (\<lambda>s. if \<not> (\<not> pause_thread s \<or> stop_async_callback s) then (Block, async_unlock s)
                   else (Return (), s))
            else ret ()) (\<lambda>_.
     bindp (modify (previous_time_update (\<lambda>_. now))) (\<lambda>_. ret steady)))"

text \<open>
  The end of a turn: with the measured time \<open>d\<close> and the steady clock at \<open>steady\<close>, the next
  \<^verbatim>\<open>next_iteration_time\<close>, the sleep until then, and the end of the cycle.
\<close>

definition detached_plan ::
    "int \<Rightarrow> int \<Rightarrow> int \<Rightarrow> int \<Rightarrow> (('c, 'p, 'f, 'r) detached_handler, int) prog" where
  "detached_plan period planned d steady s =
     (case next_iteration (exec_rate (params s)) period planned steady of
        Return n \<Rightarrow> (Return n, s\<lparr>last_execution_time := d, trigger_in_progress := False\<rparr>)
      | _ \<Rightarrow> (Undefined, s\<lparr>last_execution_time := d\<rparr>))"

text \<open>
  The block of the loop: the callback is called with the time \<open>now\<close> and the period since the
  previous call. The result is the new \<^verbatim>\<open>next_iteration_time\<close>.
\<close>

definition detached_turn ::
    "('f \<Rightarrow> int \<Rightarrow> int \<Rightarrow> 'r outcome) \<Rightarrow> int \<Rightarrow> int \<Rightarrow> int \<times> int \<times> int \<Rightarrow>
      (('c, 'p, 'f, 'r) detached_handler, int) prog" where
  "detached_turn call period planned = (\<lambda>(now, d, steady).
     guarded (async_lock 0) async_unlock (\<lambda>s.
       if \<not> (\<not> pause_thread s \<or> stop_async_callback s) then (Block, async_unlock s)
       else if stop_async_callback s then (Return planned, s\<lparr>trigger_in_progress := False\<rparr>)
       else (case call_function call (s\<lparr>previous_time := now, callback_time := now,
                    callback_period := now - previous_time s\<rparr>) of
           (Return r, s') \<Rightarrow> detached_plan period planned d steady (s'\<lparr>callback_return := r\<rparr>)
         | (Throw e, s') \<Rightarrow> detached_plan period planned d steady (s'\<lparr>exception_ptr := Some e\<rparr>)
         | (Block, s') \<Rightarrow> (Block, s')
         | (Terminate, s') \<Rightarrow> (Terminate, s')
         | (Undefined, s') \<Rightarrow> (Undefined, s'))))"

text \<open>
  \<^verbatim>\<open>stop_thread\<close>, called before the worker has begun: once notified, the worker leaves its first wait,
  stores the time \<open>now\<close>, finds the stop flag at the test of its loop, and is joined.
\<close>

definition stop_first ::
    "int \<Rightarrow> int \<Rightarrow> tid \<Rightarrow> (('c, 'p, 'f, 'r) detached_handler, unit) prog" where
  "stop_first now steady t =
     bindp (get_state is_running) (\<lambda>running.
       if running
       then bindp (modify (stop_async_callback_update (\<lambda>_. True))) (\<lambda>_.
            bindp (guarded (async_lock t) async_unlock (ret ())) (\<lambda>_.
            bindp (detached_begin now steady) (\<lambda>_. thread_join (Some False))))
       else ret ())"

section \<open>The worker in the machine\<close>

text \<open>
  Between calls. The worker has not begun, or is at the test of its loop with \<^verbatim>\<open>next_iteration_time\<close>
  at \<open>n\<close>, or has ended and been joined.
\<close>

definition detached_quiet :: "'r detached \<Rightarrow> int option \<Rightarrow> bool" where
  "detached_quiet s n \<longleftrightarrow> dclients s = (\<lambda>_. DIdle) \<and> d_mtx s = None \<and> d_exc s \<noteq> Torn \<and> \<not> d_in_progress s \<and>
     (if d_joinable s
      then \<not> d_stop s \<and> (case n of None \<Rightarrow> dworker s = DFirst | Some k \<Rightarrow> dworker s = DTest \<and> next_time s = k)
      else dworker s = DDone)"

lemma begin_runs:
  assumes "detached_quiet s None" "d_joinable s" "\<not> d_paused s"
  shows "steps (dworker_step r p) s (s\<lparr>d_previous := now, next_time := k, dworker := DTest\<rparr>)"
  apply (rule steps_step, rule d_first)
   apply (use assms in \<open>simp add: detached_quiet_def\<close>)
  apply (rule steps_step, rule d_start [where now = now], simp add: assms)
  apply (rule steps_step, rule d_started, simp)
  apply (rule steps_step, rule d_slept, simp)
  apply (rule steps_step, rule d_next [where now = k], simp)
  apply (rule steps_eq)
  by simp

lemma turn_runs:
  assumes "detached_quiet s (Some k)" "d_joinable s" "\<not> d_paused s" "next_iteration r p k steady = Return n"
    and "case w of Inl e \<Rightarrow> v = s\<lparr>d_exc := Whole (Some e)\<rparr> | Inr x \<Rightarrow> v = s\<lparr>d_return := x\<rparr>"
  shows "steps (dworker_step r p) s (v\<lparr>d_previous := now, d_time := now, d_period := now - d_previous s,
    calls := calls s @ [(now, now - d_previous s)], d_last_time := d, next_time := n\<rparr>)"
proof -
  have s: "d_mtx s = None" "\<not> d_stop s" "dworker s = DTest" "next_time s = k" "\<not> d_in_progress s"
    using assms(1,2) by (simp_all add: detached_quiet_def)
  let ?q = "now - d_previous s"
  let ?c = "s\<lparr>d_mtx := Some DWorker, d_previous := now, d_time := now, d_period := ?q, dworker := DCall now ?q\<rparr>"
  let ?t = "v\<lparr>d_mtx := Some DWorker, d_previous := now, d_time := now, d_period := ?q,
    calls := calls s @ [(now, ?q)], dworker := DTime\<rparr>"
  have "steps (dworker_step r p) s ?c"
    apply (rule steps_step, rule d_test, rule s)
    apply (rule steps_step, rule d_lock, simp add: s, simp add: s)
    apply (rule steps_step, rule d_pred, simp)
    apply (rule steps_step, rule d_measure [where now = now], simp add: may_run_def assms, simp add: s)
    apply (rule steps_eq)
    by (simp add: may_run_def)
  moreover have "steps (dworker_step r p) ?c ?t"
  proof (cases w)
    case (Inl e)
    show ?thesis
      apply (rule steps_step, rule d_call_throws [where e = e], simp)
      apply (rule steps_step, rule d_throw [where e = e], simp)
      apply (rule steps_step, rule d_thrown [where e = e], simp)
      apply (rule steps_eq)
      using assms(5) Inl by (cases s) simp
  next
    case (Inr x)
    show ?thesis
      apply (rule steps_step, rule d_call [where r = x], simp)
      apply (rule steps_step, rule d_store [where r = x], simp)
      apply (rule steps_eq)
      using assms(5) Inr by (cases s) simp
  qed
  moreover have v: "d_mtx v = None" "dworker v = DTest" "next_time v = k" "\<not> d_in_progress v"
    using assms(5) s by (cases w; simp)+
  have "steps (dworker_step r p) ?t (v\<lparr>d_previous := now, d_time := now, d_period := ?q,
      calls := calls s @ [(now, ?q)], d_last_time := d, next_time := n\<rparr>)"
    apply (rule steps_step, rule d_took [where d = d], simp)
    apply (rule steps_step, rule d_plan [where now = steady and n = n], simp, simp add: v assms(4))
    apply (rule steps_step, rule d_slept_until, simp)
    apply (rule steps_step, rule d_clear, simp)
    apply (rule steps_step, rule d_unlock, simp)
    apply (rule steps_step, rule d_notify, simp)
    apply (rule steps_eq)
    using v by (cases v) simp
  ultimately show ?thesis by (meson steps_trans)
qed

section \<open>What a call leaves\<close>

text \<open>\<open>h'\<close> is the handler, and \<open>n'\<close> the time of the next iteration, that steps from \<open>s\<close> leave; \<open>l\<close> are the calls of the callback.\<close>

definition left_by ::
    "'r \<Rightarrow> 32 word \<Rightarrow> 'r detached \<Rightarrow> ('c, 'p, 'f, 'r) detached_handler \<Rightarrow>
      ('c, 'p, 'f, 'r) detached_handler \<Rightarrow> int option \<Rightarrow> (int \<times> int) list \<Rightarrow> bool" where
  "left_by dflt r s h h' n' l \<longleftrightarrow> (\<exists>t. steps (detached_step dflt r) s t \<and> detached_quiet t n' \<and>
     h' = detached_view h t \<and> calls t = l)"

lemma left_steps:
  "steps (detached_step d r) s t \<Longrightarrow> detached_quiet t n' \<Longrightarrow> h' = detached_view h t \<Longrightarrow> calls t = l \<Longrightarrow>
     left_by d r s h h' n' l"
  by (auto simp: left_by_def)

lemma left_same: "detached_quiet s n \<Longrightarrow> h' = detached_view h s \<Longrightarrow> left_by d r s h h' n (calls s)"
  by (rule left_steps [OF steps_refl]) simp_all

lemma lift_dworker: "steps (dworker_step r (1000000000 div uint r)) s t \<Longrightarrow> steps (detached_step d r) s t"
  by (erule steps_mono) (rule ds_worker)

lemma lift_dclient:
  "steps R s t \<Longrightarrow> (\<And>x y. R x y \<Longrightarrow> dclient_step d (1000000000 div uint r) i x y) \<Longrightarrow> steps (detached_step d r) s t"
  by (erule steps_mono) (blast intro: ds_client)

lemma at_dclient_idle: "dclients s = (\<lambda>_. DIdle) \<Longrightarrow> at_dclient i DIdle s = s"
  by (simp add: at_dclient_def fun_upd_idem)

lemma at_dclient_at [simp]: "at_dclient i p (at_dclient i q s) = at_dclient i p s"
  by (simp add: at_dclient_def)

lemma quiet_notify: "detached_quiet s n \<Longrightarrow> notify_detached s = s"
  by (auto simp: detached_quiet_def notify_detached_def split: if_splits option.splits)

lemma quiet_slot: "detached_quiet s n \<Longrightarrow> \<exists>e. d_exc s = Whole e"
  by (cases "d_exc s") (simp_all add: detached_quiet_def)

lemma quiet_idle: "detached_quiet s n \<Longrightarrow> dclients s i = DIdle" "detached_quiet s n \<Longrightarrow> d_mtx s = None"
  by (simp_all add: detached_quiet_def)

section \<open>The calls of clients\<close>

text \<open>The members a resumed or paused handler differs in do not matter between calls.\<close>

lemma quiet_frame:
  "detached_quiet s n \<Longrightarrow> detached_quiet (s\<lparr>d_paused := b\<rparr>) n"
  "detached_quiet s n \<Longrightarrow>
     detached_quiet (s\<lparr>d_paused := b, d_return := x, d_previous := y, was_resumed := c\<rparr>) n"
  by (auto simp: detached_quiet_def split: if_splits option.splits)

lemma resume_left:
  assumes h: "async_function h = Some f" "predicate_fn h = Some q"
      "scheduling_policy (params h) = DETACHED" "clock (params h) = Some c" "0 < exec_rate (params h)"
    and L: "\<And>a n. time_before L a n = a - n"
    and s: "detached_quiet s n"
    and call: "trigger_async_callback L run (Suc i) time period (detached_view h s) = (out, h')"
  shows "left_by (T_default L) (exec_rate (params h)) s h h' n (calls s)"
proof -
  let ?p = "1000000000 div uint (exec_rate (params h))" and ?d = "T_default L"
  note idle = quiet_idle [OF s]
  obtain e where e: "d_exc s = Whole e" using quiet_slot [OF s] by blast
  show ?thesis
  proof (cases e)
    case (Some x)
    with call h e have "h' = detached_view h s"
      by (simp add: trigger_async_callback_def is_initialized_def)
    then show ?thesis by (rule left_same [OF s])
  next
    case None
    with e have e: "d_exc s = Whole None" by simp
    have r: "trigger_async_callback L run (Suc i) time period (detached_view h s) =
      (if d_paused s
       then (Return (True, ?d), (detached_view h s)\<lparr>pause_thread := False,
         callback_return := ?d, previous_time := clock_now L c - ?p\<rparr>)
       else (Return (True, d_return s), detached_view h s))"
      using detached_trigger [of "detached_view h s" f q c L run "Suc i" time period] h e idle(2) by (simp add: L)
    show ?thesis
    proof (cases "d_paused s")
      case False
      with r call have "h' = detached_view h s" by simp
      then show ?thesis by (rule left_same [OF s])
    next
      case True
      let ?t = "s\<lparr>d_paused := False, d_return := ?d, d_previous := clock_now L c - ?p, was_resumed := True\<rparr>"
      have t: "detached_quiet ?t n" by (rule quiet_frame(2) [OF s])
      have "steps (resume_step ?d ?p i) s (at_dclient i (dclient_pc.TRet ?d) ?t)"
        using resume_paused_steps [OF idle(1) e idle(2) True, of ?d ?p i "clock_now L c"] quiet_notify [OF t] by simp
      moreover have "resume_step ?d ?p i (at_dclient i (dclient_pc.TRet ?d) ?t) (at_dclient i DIdle ?t)"
        using dt_ret [of "at_dclient i (dclient_pc.TRet ?d) ?t" i ?d ?d ?p] by simp
      ultimately have "steps (resume_step ?d ?p i) s (at_dclient i DIdle ?t)"
        by (meson steps_trans steps_one)
      then have "steps (resume_step ?d ?p i) s ?t"
        using t by (simp add: at_dclient_idle detached_quiet_def)
      then have "steps (detached_step ?d (exec_rate (params h))) s ?t" by (rule lift_dclient) (rule dc_resume)
      moreover have "h' = detached_view h ?t"
        using call r True by (cases h) (auto simp: detached_view_def)
      ultimately show ?thesis by (intro left_steps [OF _ t]) simp_all
    qed
  qed
qed

lemma pause_left:
  assumes "scheduling_policy (params h) = DETACHED" "detached_quiet s n"
    and "pause_execution (Suc i) (detached_view h s) = (out, h')"
  shows "left_by d r s h h' n (calls s)"
proof (cases "d_joinable s")
  case False
  with assms(1,3) have "h' = detached_view h s" by (simp add: pause_execution_def is_running_def)
  then show ?thesis by (rule left_same [OF assms(2)])
next
  case True
  let ?t = "s\<lparr>d_paused := True\<rparr>"
  note idle = quiet_idle [OF assms(2)]
  have t: "detached_quiet ?t n" by (rule quiet_frame(1) [OF assms(2)])
  have "steps (pause_step i) s (at_dclient i (PRet True) ?t)"
    by (rule pause_running_steps [OF idle(1) True idle(2)])
  moreover have "pause_step i (at_dclient i (PRet True) ?t) (at_dclient i DIdle ?t)"
    using dp_ret [of "at_dclient i (PRet True) ?t" i True] by simp
  ultimately have "steps (pause_step i) s (at_dclient i DIdle ?t)" by (meson steps_trans steps_one)
  then have "steps (pause_step i) s ?t" using t by (simp add: at_dclient_idle detached_quiet_def)
  then have run: "steps (detached_step d r) s ?t" by (rule lift_dclient) (rule dc_pause)
  have "h' = detached_view h ?t"
    using assms(1,3) True idle(2) by (cases h) (simp add: async_call_defs detached_view_def)
  from left_steps [OF run t this] show ?thesis by simp
qed

lemma reset_left:
  assumes "time_zero L = 0" "dur_zero L = 0" "detached_quiet s n"
    and "reset_variables L (Suc i) (detached_view h s) = (out, h')"
  shows "left_by (T_default L) r s h h' n (calls s)"
proof -
  note idle = quiet_idle [OF assms(3)]
  have run: "steps (detached_step (T_default L) r) s (s\<lparr>d_stop := False, d_in_progress := False, d_time := 0,
      d_period := 0, d_last_time := 0, d_return := T_default L, d_exc := Whole None\<rparr>)"
    by (rule lift_dclient [OF reset_steps [OF idle]]) (rule dc_reset)
  show ?thesis
    by (rule left_steps [OF run])
      (use assms idle in \<open>auto simp: detached_quiet_def async_call_defs detached_view_def split: if_splits option.splits\<close>)
qed

text \<open>A call of \<^verbatim>\<open>stop_thread\<close> up to its join, and the join of a worker that has ended.\<close>

lemma dstop_called:
  assumes "detached_quiet s n" "d_joinable s"
  shows "steps (detached_step d r) s (s\<lparr>d_stop := True, dclients := (\<lambda>_. DIdle)(0 := dclient_pc.SJoin)\<rparr>)"
proof -
  have s: "dclients s = (\<lambda>_. DIdle)" "d_mtx s = None" "dworker s \<noteq> DWait1" "dworker s \<noteq> DWait"
    using assms by (auto simp: detached_quiet_def split: option.splits)
  have "steps (dstop_step 0) s (s\<lparr>d_stop := True, dclients := (\<lambda>_. DIdle)(0 := dclient_pc.SJoin)\<rparr>)"
    apply (rule steps_step, rule ds_call [where i = 0], simp add: s)
    apply (rule steps_step, rule ds_run, simp add: at_dclient_def)
    apply (rule steps_step, rule ds_store, simp add: at_dclient_def assms)
    apply (rule steps_step, rule ds_lock, simp add: at_dclient_def, simp add: at_dclient_def s)
    apply (rule steps_step, rule ds_unlock, simp add: at_dclient_def)
    apply (rule steps_step, rule ds_notify, simp add: at_dclient_def)
    apply (rule steps_eq)
    using s assms(2) by (cases s) (simp add: at_dclient_def notify_detached_def)
  then show ?thesis by (rule lift_dclient) (rule dc_stop)
qed

lemma dstop_joined:
  assumes "d_joinable s" "dworker s = DDone" "dclients s = (\<lambda>_. DIdle)(0 := dclient_pc.SJoin)"
  shows "detached_step d r s (s\<lparr>d_joinable := False, dclients := (\<lambda>_. DIdle)\<rparr>)"
proof -
  have "at_dclient 0 DIdle (s\<lparr>d_joinable := False\<rparr>) = s\<lparr>d_joinable := False, dclients := (\<lambda>_. DIdle)\<rparr>"
    using assms(3) by (cases s) (simp add: at_dclient_def fun_upd_idem)
  with ds_join [of s 0] assms show ?thesis
    by (intro ds_client [where i = 0] dc_stop) simp
qed

lemma dstop_runs:
  assumes "detached_quiet s (Some k)" "d_joinable s"
  shows "steps (detached_step d r) s (s\<lparr>d_stop := True, d_joinable := False, dworker := DDone\<rparr>)"
proof -
  let ?j = "s\<lparr>d_stop := True, dclients := (\<lambda>_. DIdle)(0 := dclient_pc.SJoin)\<rparr>"
  have s: "dclients s = (\<lambda>_. DIdle)" "dworker s = DTest"
    using assms by (simp_all add: detached_quiet_def)
  have "detached_step d r ?j (?j\<lparr>dworker := DDone\<rparr>)"
    using d_test [of ?j] s by (intro ds_worker) simp
  moreover have "detached_step d r (?j\<lparr>dworker := DDone\<rparr>) (s\<lparr>d_stop := True, d_joinable := False, dworker := DDone\<rparr>)"
    using dstop_joined [of "?j\<lparr>dworker := DDone\<rparr>" d r] s assms(2) by (cases s) simp
  ultimately show ?thesis using dstop_called [OF assms] by (meson steps_trans steps_one)
qed

text \<open>A worker that finds the stop flag when it begins.\<close>

lemma stopped_first_runs:
  assumes "dworker s = DFirst" "d_stop s" "d_mtx s = None"
  shows "steps (dworker_step r p) s (s\<lparr>d_previous := now, next_time := k, dworker := DDone\<rparr>)"
proof -
  have "steps (dworker_step r p) s (s\<lparr>dworker := DStart\<rparr>)"
  proof (cases "d_paused s")
    case True
    show ?thesis
      apply (rule steps_step, rule d_first, rule assms)
      apply (rule steps_step, rule d_lock1, simp add: True, simp add: assms)
      apply (rule steps_step, rule d_pred1, simp)
      apply (rule steps_step, rule d_unlock1, simp add: may_run_def assms)
      apply (rule steps_eq)
      using assms by (cases s) (simp add: may_run_def)
  next
    case False
    show ?thesis by (rule steps_step, rule d_first, rule assms, rule steps_eq) (simp add: False)
  qed
  moreover have "steps (dworker_step r p) (s\<lparr>dworker := DStart\<rparr>)
      (s\<lparr>d_previous := now, next_time := k, dworker := DDone\<rparr>)"
    apply (rule steps_step, rule d_start [where now = now], simp)
    apply (rule steps_step, rule d_started, simp)
    apply (rule steps_step, rule d_slept, simp)
    apply (rule steps_step, rule d_next [where now = k], simp)
    apply (rule steps_step, rule d_test, simp)
    apply (rule steps_eq)
    by (simp add: assms)
  ultimately show ?thesis by (rule steps_trans)
qed

lemma stop_first_left:
  assumes "detached_quiet s n" "d_joinable s \<longrightarrow> n = None"
    and "stop_first now k (Suc i) (detached_view h s) = (out, h')" "comes_back out"
  shows "left_by d r s h h' n (calls s)"
proof (cases "d_joinable s")
  case False
  with assms(3) have "h' = detached_view h s" by (simp add: stop_first_def is_running_def)
  then show ?thesis by (rule left_same [OF assms(1)])
next
  case True
  then have n: "n = None" using assms(2) by simp
  let ?j = "s\<lparr>d_stop := True, dclients := (\<lambda>_. DIdle)(0 := dclient_pc.SJoin)\<rparr>"
  let ?w = "?j\<lparr>d_previous := now, next_time := k, dworker := DDone\<rparr>"
  let ?t = "s\<lparr>d_stop := True, d_previous := now, next_time := k, d_joinable := False, dworker := DDone\<rparr>"
  have s: "dclients s = (\<lambda>_. DIdle)" "d_mtx s = None" "dworker s = DFirst" "\<not> d_in_progress s"
    using assms(1) True by (simp_all add: detached_quiet_def n)
  have "steps (detached_step d r) ?j ?w"
    using stopped_first_runs [where s = ?j and now = now and k = k] s by (intro lift_dworker) simp
  moreover have "detached_step d r ?w ?t"
    using dstop_joined [of ?w d r] s True by (cases s) simp
  ultimately have run: "steps (detached_step d r) s ?t"
    using dstop_called [OF assms(1) True] by (meson steps_trans steps_one)
  have quiet: "detached_quiet ?t n" using assms(1) by (simp add: detached_quiet_def)
  have "h' = detached_view h ?t"
    using assms(3) s True
    by (cases h; cases "d_paused s") (auto simp: stop_first_def detached_begin_def thread_join_def async_call_defs
        detached_view_def)
  from left_steps [OF run quiet this] show ?thesis by simp
qed

lemma stop_left:
  assumes "detached_quiet s n" "d_joinable s \<longrightarrow> n \<noteq> None"
    and "stop_thread ended (Suc i) (detached_view h s) = (out, h')" "comes_back out"
  shows "left_by d r s h h' n (calls s)"
proof (cases "d_joinable s")
  case False
  with assms(3) have "h' = detached_view h s" by (simp add: stop_thread_def is_running_def)
  then show ?thesis by (rule left_same [OF assms(1)])
next
  case True
  then obtain k where k: "n = Some k" using assms(2) by auto
  let ?t = "s\<lparr>d_stop := True, d_joinable := False, dworker := DDone\<rparr>"
  have m: "d_mtx s = None" "\<not> d_in_progress s" using assms(1) by (simp_all add: detached_quiet_def)
  obtain b where "ended = Some b"
    using assms(3,4) m True
    by (cases ended) (auto simp: stop_thread_def thread_join_def async_call_defs detached_view_def)
  then have "h' = detached_view h ?t"
    using assms(3) m True
    by (cases h) (auto simp: stop_thread_def thread_join_def async_call_defs detached_view_def)
  moreover have "detached_quiet ?t n" using assms(1) by (simp add: detached_quiet_def)
  ultimately show ?thesis
    using dstop_runs [of s k d r] assms(1) True by (intro left_steps [where t = ?t]) (simp_all add: k)
qed

section \<open>Turns of the worker\<close>

lemma begin_left:
  assumes "detached_quiet s None" "d_joinable s"
    and "detached_begin now k (detached_view h s) = (out, h')" "comes_back out"
  shows "out = Return k \<and> left_by d r s h h' (Some k) (calls s)"
proof -
  have m: "d_mtx s = None" "\<not> d_stop s" using assms(1,2) by (simp_all add: detached_quiet_def)
  have p: "\<not> d_paused s"
    using assms(3,4) m
    by (auto simp: detached_begin_def detached_view_def guarded_def bindp_def async_lock_def async_unlock_def)
  let ?t = "s\<lparr>d_previous := now, next_time := k, dworker := DTest\<rparr>"
  have "out = Return k" "h' = detached_view h ?t"
    using assms(3) p by (auto simp: detached_begin_def detached_view_def)
  moreover have "detached_quiet ?t (Some k)" using assms(1,2) by (simp add: detached_quiet_def)
  moreover have "steps (detached_step d r) s ?t"
    by (rule lift_dworker [OF begin_runs [OF assms(1,2) p]])
  ultimately show ?thesis by (intro conjI left_steps [where t = ?t]) simp_all
qed

lemma open_turn:
  assumes "async_mtx g = None" "\<not> pause_thread g" "\<not> stop_async_callback g"
    and "call_function call (g\<lparr>async_mtx := Some 0, previous_time := now, callback_time := now,
        callback_period := now - previous_time g\<rparr>) = (w, g\<lparr>async_mtx := Some 0, previous_time := now,
        callback_time := now, callback_period := now - previous_time g\<rparr>)"
    and "next_iteration (exec_rate (params g)) period planned steady = plan"
  shows "w = Return x \<Longrightarrow> plan = Return n \<Longrightarrow> detached_turn call period planned (now, d, steady) g =
      (Return n, g\<lparr>previous_time := now, callback_time := now, callback_period := now - previous_time g,
        callback_return := x, last_execution_time := d, trigger_in_progress := False\<rparr>)"
    and "w = Throw e \<Longrightarrow> plan = Return n \<Longrightarrow> detached_turn call period planned (now, d, steady) g =
      (Return n, g\<lparr>previous_time := now, callback_time := now, callback_period := now - previous_time g,
        exception_ptr := Some e, last_execution_time := d, trigger_in_progress := False\<rparr>)"
    and "\<not> comes_back w \<or> \<not> is_return plan \<Longrightarrow>
      \<not> comes_back (fst (detached_turn call period planned (now, d, steady) g))"
  using assms
  by (cases w; cases plan; cases g; simp add: detached_turn_def detached_plan_def guarded_def bindp_def
      async_lock_def async_unlock_def)+

lemma view_turned:
  "(detached_view h s)\<lparr>previous_time := now, callback_time := now, callback_period := p,
     callback_return := x, last_execution_time := d, trigger_in_progress := False\<rparr> =
   detached_view h (s\<lparr>d_return := x, d_previous := now, d_time := now, d_period := p, calls := l,
     d_last_time := d, next_time := n, d_in_progress := False\<rparr>)"
  "(detached_view h s)\<lparr>previous_time := now, callback_time := now, callback_period := p,
     exception_ptr := Some e, last_execution_time := d, trigger_in_progress := False\<rparr> =
   detached_view h (s\<lparr>d_exc := Whole (Some e), d_previous := now, d_time := now, d_period := p, calls := l,
     d_last_time := d, next_time := n, d_in_progress := False\<rparr>)"
  by (cases h; simp add: detached_view_def)+

lemma function_same: "\<exists>w. call_function call g = (w, g)"
  by (cases "async_function g") (simp_all add: call_function_def)

lemma turn_left:
  assumes s: "detached_quiet s (Some k)" "d_joinable s"
    and call: "detached_turn call (1000000000 div uint (exec_rate (params h))) k (now, d, steady)
        (detached_view h s) = (out, h')" "comes_back out"
  shows "\<exists>n. out = Return n \<and> left_by dflt (exec_rate (params h)) s h h' (Some n)
    (calls s @ [(now, now - d_previous s)])"
proof -
  let ?g = "detached_view h s" and ?r = "exec_rate (params h)"
  let ?p = "1000000000 div uint ?r" and ?q = "now - d_previous s"
  have m: "d_mtx s = None" "\<not> d_stop s" "\<not> d_in_progress s" using s by (simp_all add: detached_quiet_def)
  have q: "\<not> d_paused s"
    using call m by (auto simp: detached_turn_def detached_view_def guarded_def bindp_def async_lock_def
        async_unlock_def)
  have g: "async_mtx ?g = None" "\<not> pause_thread ?g" "\<not> stop_async_callback ?g"
    "previous_time ?g = d_previous s" "exec_rate (params ?g) = ?r"
    using m q by (simp_all add: detached_view_def)
  obtain w where w: "call_function call (?g\<lparr>async_mtx := Some 0, previous_time := now, callback_time := now,
      callback_period := now - previous_time ?g\<rparr>) = (w, ?g\<lparr>async_mtx := Some 0, previous_time := now,
      callback_time := now, callback_period := now - previous_time ?g\<rparr>)"
    using function_same by blast
  note turn = open_turn [OF g(1-3) w refl, where period = ?p and planned = k and steady = steady and d = d]
  from turn(3) call have "comes_back w" "is_return (next_iteration ?r ?p k steady)"
    unfolding g(5) by auto
  then obtain n where n: "next_iteration ?r ?p k steady = Return n"
    by (cases "next_iteration ?r ?p k steady") simp_all
  from \<open>comes_back w\<close> consider x where "w = Return x" | e where "w = Throw e" by (cases w) simp_all
  then obtain v y where v:
    "case y of Inl e \<Rightarrow> v = s\<lparr>d_exc := Whole (Some e)\<rparr> | Inr x \<Rightarrow> v = s\<lparr>d_return := x\<rparr>"
    "out = Return n" "h' = detached_view h (v\<lparr>d_previous := now, d_time := now, d_period := ?q,
      calls := calls s @ [(now, ?q)], d_last_time := d, next_time := n, d_in_progress := False\<rparr>)"
  proof cases
    case (1 x)
    from turn(1) [OF this] n call g(4,5) that [of "s\<lparr>d_return := x\<rparr>" "Inr x"] show ?thesis
      by (simp add: view_turned [where l = "calls s @ [(now, ?q)]" and n = n])
  next
    case (2 e)
    from turn(2) [OF this] n call g(4,5) that [of "s\<lparr>d_exc := Whole (Some e)\<rparr>" "Inl e"] show ?thesis
      by (simp add: view_turned [where l = "calls s @ [(now, ?q)]" and n = n])
  qed
  let ?t = "v\<lparr>d_previous := now, d_time := now, d_period := ?q, calls := calls s @ [(now, ?q)],
    d_last_time := d, next_time := n\<rparr>"
  have quiet: "detached_quiet ?t (Some n)" using s v(1) by (cases y) (simp_all add: detached_quiet_def)
  moreover have "steps (detached_step dflt ?r) s ?t"
    by (rule lift_dworker [OF turn_runs [OF s q n v(1)]])
  moreover have "h' = detached_view h ?t"
    unfolding v(3) using quiet by (cases v) (simp add: detached_quiet_def detached_view_def)
  ultimately show ?thesis using v(2) by (auto intro: left_steps)
qed

section \<open>Sessions\<close>

text \<open>
  A session has the handler and, once the worker has begun, its \<^verbatim>\<open>next_iteration_time\<close>. Its calls are
  all those of clients, a stop before the worker has begun by \<open>stop_first\<close>, and the parts of the
  worker's run: what comes before the loop, and turns of it. Two kinds of calls are not part of a
  session: \<^verbatim>\<open>init\<close> and \<^verbatim>\<open>start_thread\<close> of a handler that was stopped, with which another session
  would begin. A call of \<^verbatim>\<open>join_async_callback_thread\<close> while the worker runs does not come back: no
  call can stop the worker meanwhile.
\<close>

datatype ('c, 'p, 'f) detached_call =
    Asked "('c, 'p, 'f, int, int) handler_call"
  | Stopped_first int int
  | Begun int int
  | Turned "int \<times> int \<times> int"

fun with_plan :: "int outcome \<times> 'h \<Rightarrow> int option \<Rightarrow> unit outcome \<times> 'h \<times> int option" where
  "with_plan (Return k, h) n = (Return (), h, Some k)"
| "with_plan (Throw e, h) n = (Throw e, h, n)"
| "with_plan (Block, h) n = (Block, h, n)"
| "with_plan (Terminate, h) n = (Terminate, h, n)"
| "with_plan (Undefined, h) n = (Undefined, h, n)"

fun on_detached ::
    "('c, int, int, 'r) async_lib \<Rightarrow> ('p \<Rightarrow> bool outcome) \<Rightarrow> ('f \<Rightarrow> int \<Rightarrow> int \<Rightarrow> 'r outcome) \<Rightarrow> tid \<Rightarrow>
      ('c, 'p, 'f) detached_call \<Rightarrow> (('c, 'p, 'f, 'r) detached_handler \<times> int option, unit) prog" where
  "on_detached L run call i (Asked c) (h, n) = (case perform L run call (Suc i) c h of (out, h') \<Rightarrow> (out, h', n))"
| "on_detached L run call i (Stopped_first now steady) (h, n) =
     (case stop_first now steady (Suc i) h of (out, h') \<Rightarrow> (out, h', n))"
| "on_detached L run call i (Begun now steady) (h, n) = with_plan (detached_begin now steady h) n"
| "on_detached L run call i (Turned x) (h, n) = (case n of None \<Rightarrow> (Undefined, h, n)
     | Some k \<Rightarrow> with_plan (detached_turn call (1000000000 div uint (exec_rate (params h))) k x h) n)"

fun open_asked :: "bool \<Rightarrow> bool \<Rightarrow> ('c, 'p, 'f, int, int) handler_call \<Rightarrow> bool" where
  "open_asked running begun (Trigger _ _) = True"
| "open_asked running begun Reset = True"
| "open_asked running begun Wait = True"
| "open_asked running begun Pause = True"
| "open_asked running begun (Stop _) = (running \<longrightarrow> begun)"
| "open_asked running begun (Join ended) = (running \<longrightarrow> ended = None)"
| "open_asked running begun (Init _ _) = running"
| "open_asked running begun (Init_predicate _ _ _) = running"
| "open_asked running begun (Init_params _ _) = running"
| "open_asked running begun Start = running"
| "open_asked running begun (Cycle _) = False"

fun open_detached ::
    "('c, 'p, 'f) detached_call \<Rightarrow> ('c, 'p, 'f, 'r) detached_handler \<times> int option \<Rightarrow> bool" where
  "open_detached (Asked c) (h, n) = open_asked (joinable h) (n \<noteq> None) c"
| "open_detached (Stopped_first _ _) (h, n) = (joinable h \<longrightarrow> n = None)"
| "open_detached (Begun _ _) (h, n) = (joinable h \<and> n = None)"
| "open_detached (Turned _) (h, n) = (joinable h \<and> n \<noteq> None)"

text \<open>The times of the turns.\<close>

fun turn_of :: "tid \<times> ('c, 'p, 'f) detached_call \<times> unit outcome \<Rightarrow> int list" where
  "turn_of (i, Turned (now, _, _), out) = [now]"
| "turn_of _ = []"

definition turns :: "(tid \<times> ('c, 'p, 'f) detached_call \<times> unit outcome) list \<Rightarrow> int list" where
  "turns made = concat (map turn_of made)"

definition detached_service ::
    "('c, int, int, 'r) async_lib \<Rightarrow> ('c, 'p, 'f, 'r) detached_handler \<Rightarrow> bool" where
  "detached_service L h \<longleftrightarrow> async_function h \<noteq> None \<and> predicate_fn h \<noteq> None \<and>
     scheduling_policy (params h) = DETACHED \<and> clock (params h) \<noteq> None \<and> 0 < exec_rate (params h) \<and>
     time_zero L = 0 \<and> dur_zero L = 0 \<and> (\<forall>a n. time_before L a n = a - n)"

definition detached_matches ::
    "('c, int, int, 'r) async_lib \<Rightarrow> ('c, 'p, 'f, 'r) detached_handler \<Rightarrow> 'r detached \<Rightarrow>
      (tid \<times> ('c, 'p, 'f) detached_call \<times> unit outcome) list \<Rightarrow>
      ('c, 'p, 'f, 'r) detached_handler \<times> int option \<Rightarrow> bool" where
  "detached_matches L h0 s made hn \<longleftrightarrow> detached_service L h0 \<and> detached_quiet s (snd hn) \<and>
     fst hn = detached_view h0 s \<and> map fst (calls s) = turns made"

lemma done_with_back:
  assumes "done_with m s = (out, s')" "comes_back out"
  obtains r where "m s = (r, s')" "comes_back r"
  using assms by (cases "m s"; cases "fst (m s)") (auto simp: done_with_def bindp_def)

text \<open>A running handler refuses every \<^verbatim>\<open>init\<close>.\<close>

lemma init_running:
  "init_callback f x (detached_view h s) = (out, h') \<Longrightarrow> d_joinable s \<Longrightarrow> h' = detached_view h s"
  "init_predicate f q x (detached_view h s) = (out, h') \<Longrightarrow> d_joinable s \<Longrightarrow> h' = detached_view h s"
  "init_params f p (detached_view h s) = (out, h') \<Longrightarrow> d_joinable s \<Longrightarrow> h' = detached_view h s"
  by (auto simp: init_callback_def init_predicate_def init_params_def bindp_def detached_view_def
      split: if_splits outcome.splits prod.splits)

lemma asked_left:
  assumes serve: "detached_service L h"
    and s: "detached_quiet s n" "open_asked (d_joinable s) (n \<noteq> None) c"
    and call: "perform L run call (Suc i) c (detached_view h s) = (out, h')" "comes_back out"
  shows "left_by (T_default L) (exec_rate (params h)) s h h' n (calls s)"
proof -
  obtain f q k where h: "async_function h = Some f" "predicate_fn h = Some q"
      "scheduling_policy (params h) = DETACHED" "clock (params h) = Some k" "0 < exec_rate (params h)"
    and L: "time_zero L = 0" "dur_zero L = 0" "\<And>a n. time_before L a n = a - n"
    using serve by (auto simp: detached_service_def)
  show ?thesis
  proof (cases c)
    case (Trigger time period)
    with call obtain r where
      "trigger_async_callback L run (Suc i) time period (detached_view h s) = (r, h')"
      by (auto elim: done_with_back)
    then show ?thesis by (rule resume_left [where run = run, OF h L(3) s(1)])
  next
    case Reset
    with call show ?thesis by (intro reset_left [OF L(1,2) s(1)]) simp
  next
    case Wait
    with call obtain r where r: "wait_for_trigger_cycle_to_finish (Suc i) (detached_view h s) = (r, h')"
      by (auto elim: done_with_back)
    have "h' = detached_view h s"
      using r quiet_idle(2) [OF s(1)] s(1)
      by (cases h) (auto simp: async_call_defs detached_view_def detached_quiet_def split: if_splits)
    then show ?thesis by (rule left_same [OF s(1)])
  next
    case Pause
    with call obtain r where "pause_execution (Suc i) (detached_view h s) = (r, h')"
      by (auto elim: done_with_back)
    then show ?thesis by (rule pause_left [OF h(3) s(1)])
  next
    case (Stop ended)
    with call s show ?thesis by (intro stop_left [OF s(1)]) simp_all
  next
    case (Join ended)
    with call s have "h' = detached_view h s"
      by (cases "d_joinable s")
        (auto simp: join_async_callback_thread_def is_running_def thread_join_def detached_view_def bindp_def)
    then show ?thesis by (rule left_same [OF s(1)])
  next
    case Start
    with call s h have "h' = detached_view h s"
      by (simp add: start_thread_def is_initialized_def detached_view_def)
    then show ?thesis by (rule left_same [OF s(1)])
  next
    case (Cycle d)
    with s(2) show ?thesis by simp
  next
    case (Init f' x)
    with call s have "h' = detached_view h s" by (auto dest: init_running)
    then show ?thesis by (rule left_same [OF s(1)])
  next
    case (Init_predicate f' p x)
    with call s have "h' = detached_view h s" by (auto dest: init_running)
    then show ?thesis by (rule left_same [OF s(1)])
  next
    case (Init_params f' p)
    with call s have "h' = detached_view h s" by (auto dest: init_running)
    then show ?thesis by (rule left_same [OF s(1)])
  qed
qed

lemma turns_append [simp]: "turns [] = []" "turns (made @ [x]) = turns made @ turn_of x"
  by (simp_all add: turns_def)

lemma left_matches:
  assumes "left_by (T_default L) (exec_rate (params h0)) s h0 h' n' l" "detached_service L h0"
    and "map fst l = turns made @ turn_of x"
  shows "\<exists>t. steps (detached_step (T_default L) (exec_rate (params h0))) s t \<and>
    detached_matches L h0 t (made @ [x]) (h', n')"
  using assms by (auto simp: left_by_def detached_matches_def)

lemma detached_call_answered:
  assumes "detached_matches L h0 s made hn" "open_detached c hn" "on_detached L run call i c hn = (out, hn')"
    and "comes_back out"
  shows "\<exists>t. steps (detached_step (T_default L) (exec_rate (params h0))) s t \<and>
    detached_matches L h0 t (made @ [(i, c, out)]) hn'"
proof -
  obtain n where hn: "hn = (detached_view h0 s, n)" and serve: "detached_service L h0"
    and s: "detached_quiet s n" and l: "map fst (calls s) = turns made"
    using assms(1) by (cases hn) (auto simp: detached_matches_def)
  show ?thesis
  proof (cases c)
    case (Asked a)
    then obtain h' where "perform L run call (Suc i) a (detached_view h0 s) = (out, h')" "hn' = (h', n)"
      using assms(3) by (auto simp: hn split: prod.splits)
    with asked_left [OF serve s _ _ assms(4), of a run call i h'] assms(2) Asked l show ?thesis
      by (auto simp: hn intro!: left_matches [OF _ serve])
  next
    case (Stopped_first now k)
    then obtain h' where "stop_first now k (Suc i) (detached_view h0 s) = (out, h')" "hn' = (h', n)"
      using assms(3) by (auto simp: hn split: prod.splits)
    with stop_first_left [OF s _ _ assms(4), of now k i h0 h'] assms(2) Stopped_first l show ?thesis
      by (auto simp: hn intro!: left_matches [OF _ serve])
  next
    case (Begun now k)
    then have s': "detached_quiet s None" "d_joinable s" "n = None" using assms(2) s by (simp_all add: hn)
    obtain r h' where r: "detached_begin now k (detached_view h0 s) = (r, h')" by fastforce
    then have "comes_back r" using assms(3,4) Begun by (cases r) (auto simp: hn)
    from begin_left [OF s'(1,2) r this, of "T_default L" "exec_rate (params h0)"]
    show ?thesis using assms(3) Begun l r by (auto simp: hn intro!: left_matches [OF _ serve])
  next
    case (Turned x)
    obtain now d steady where x: "x = (now, d, steady)" by (cases x)
    from Turned obtain k where s': "detached_quiet s (Some k)" "d_joinable s" "n = Some k"
      using assms(2) s by (auto simp: hn)
    let ?turn = "detached_turn call (1000000000 div uint (exec_rate (params h0))) k (now, d, steady)"
    obtain r h' where r: "?turn (detached_view h0 s) = (r, h')" by fastforce
    then have "comes_back r" using assms(3,4) Turned s'(3) by (cases r) (auto simp: hn x)
    from turn_left [OF s'(1,2) r this, of "T_default L"]
    show ?thesis using assms(3) Turned l r s'(3) by (auto simp: hn x intro!: left_matches [OF _ serve])
  qed
qed

interpretation detached_calls: serial_calls "detached_step (T_default L) (exec_rate (params h0))"
    "detached_matches L h0" open_detached "on_detached L run call" for L h0 run call
  by unfold_locales (rule detached_call_answered)

text \<open>
  C15. From \<^verbatim>\<open>start_thread\<close> of a detached handler to its next \<^verbatim>\<open>init\<close> or \<^verbatim>\<open>start_thread\<close> after a stop,
  whatever calls clients make one after the other, with the worker's beginning and turns between
  them: as long as the calls come back, the handler is at every point the view of a reachable state
  of the machine with threads, in which no client is inside a call, the callback was called at the
  times of these turns, and the worker's next turn is planned for the same time. A handler that is
  stopped before its worker has begun, paused and never triggered for one, is included.
\<close>

theorem detached_session_refines_machine:
  assumes "start_thread L t g = (Return (), h0)" "\<not> joinable g" "async_mtx g = None"
    and "detached_service L h0"
    and "serial_run open_detached (on_detached L run call) (h0, None) made (h, n)"
  shows "\<exists>s. detached_reach (T_default L) (exec_rate (params h0)) s \<and> dclients s = (\<lambda>_. DIdle) \<and>
    h = detached_view h0 s \<and> map fst (calls s) = turns made \<and> (d_joinable s \<longrightarrow> (\<forall>k \<in> set_option n. next_time s = k))"
proof -
  let ?s0 = "detached_machine h0"
  obtain f q where f: "async_function g = Some f" "predicate_fn g = Some q"
    using assms(1) by (cases "async_function g"; cases "predicate_fn g") (simp_all add: start_thread_def is_initialized_def)
  have h0: "h0 = g\<lparr>stop_async_callback := False, trigger_in_progress := False, callback_time := time_zero L,
      callback_period := dur_zero L, last_execution_time := 0, callback_return := T_default L,
      exception_ptr := None, joinable := True\<rparr>"
    using assms(1-3) f by (cases g) (simp add: async_call_defs)
  have "detached_init ?s0" "detached_quiet ?s0 None" "detached_view h0 ?s0 = h0"
    using assms(3) by (simp_all add: h0 detached_machine_def detached_init_def detached_quiet_def detached_view_def)
  moreover from this have "detached_matches L h0 ?s0 [] (h0, None)"
    using assms(4) by (simp add: detached_matches_def detached_machine_def)
  ultimately obtain s where "detached_reach (T_default L) (exec_rate (params h0)) s"
      "detached_matches L h0 s made (h, n)"
    using detached_calls.serial_reach [OF assms(5) reach_init [where init = detached_init]] by blast
  then show ?thesis
    by (intro exI [of _ s]) (auto simp: detached_matches_def detached_quiet_def)
qed

text \<open>A paused handler at 3 Hz: it is triggered at 1000, and its worker then begins and takes a turn.\<close>

definition demo_waiting :: "(int, bool, nat, int, int, nat) async_handler" where
  "demo_waiting = demo_detached\<lparr>callback_time := 0, callback_period := 0, callback_return := 0\<rparr>"

definition demo_turned :: "(int, bool, nat, int, int, nat) async_handler" where
  "demo_turned = demo_waiting\<lparr>pause_thread := False, callback_return := 4, callback_time := 900,
     callback_period := 400, previous_time := 900, last_execution_time := 100\<rparr>"

abbreviation demo_begun :: "(int, bool, nat, int, int, nat) async_handler" where
  "demo_begun \<equiv> demo_waiting\<lparr>pause_thread := False, previous_time := 500\<rparr>"

lemma demo_detached_run:
  "serial_run open_detached (on_detached demo_lib Return (\<lambda>f x y. Return (f + 3))) (demo_waiting, None)
     [(2, Asked (Trigger 5 7), Return ()), (0, Begun 500 600, Return ()), (0, Turned (900, 100, 1000), Return ())]
     (demo_turned, Some (600 + 333333333))"
proof -
  let ?run = "serial_run open_detached (on_detached demo_lib Return (\<lambda>f x y. Return (f + 3))) (demo_waiting, None)"
  let ?woken = "demo_waiting\<lparr>pause_thread := False, previous_time := 1000 - 333333333\<rparr>"
  have "?run ([] @ [(2, Asked (Trigger 5 7), Return ())]) (?woken, None)"
    using detached_trigger [of demo_waiting 1 True 1000 demo_lib Return 3 5 7]
    by (intro serial_call [OF serial_none])
      (simp_all add: demo_waiting_def demo_detached_def demo_params_def demo_handler_defs done_with_def bindp_def)
  then have "?run (([] @ [(2, Asked (Trigger 5 7), Return ())]) @ [(0, Begun 500 600, Return ())])
      (demo_begun, Some 600)"
    by (rule serial_call)
      (simp_all add: demo_waiting_def demo_detached_def demo_params_def demo_handler_defs detached_begin_def)
  then have "?run ((([] @ [(2, Asked (Trigger 5 7), Return ())]) @ [(0, Begun 500 600, Return ())]) @
      [(0, Turned (900, 100, 1000), Return ())]) (demo_turned, Some (600 + 333333333))"
    by (rule serial_call)
      (simp_all add: demo_turned_def demo_waiting_def demo_detached_def demo_params_def demo_handler_defs
        detached_turn_def detached_plan_def guarded_def bindp_def async_lock_def async_unlock_def
        call_function_def next_iteration_def)
  then show ?thesis by simp
qed

theorem detached_session_refines_machine_witness:
  "\<exists>s :: nat detached. detached_reach 0 3 s \<and> map fst (calls s) = [900] \<and> d_return s = 4 \<and> next_time s = 333333933"
proof -
  have "start_thread demo_lib 1 (demo_waiting\<lparr>joinable := False\<rparr>) = (Return (), demo_waiting)"
    by (simp add: demo_waiting_def demo_detached_def demo_params_def demo_handler_defs async_call_defs)
  moreover have "detached_service demo_lib demo_waiting" "exec_rate (params demo_waiting) = 3"
    by (simp_all add: detached_service_def demo_waiting_def demo_detached_def demo_params_def demo_handler_defs)
  moreover have "async_mtx (demo_waiting\<lparr>joinable := False\<rparr>) = None" "T_default demo_lib = 0"
    by (simp_all add: demo_waiting_def demo_detached_def demo_params_def demo_handler_defs)
  ultimately obtain s :: "nat detached" where s: "detached_reach 0 3 s" "demo_turned = detached_view demo_waiting s"
      "map fst (calls s) = [900]" "d_joinable s \<longrightarrow> next_time s = 333333933"
    using detached_session_refines_machine [OF _ _ _ _ demo_detached_run, of 1 "demo_waiting\<lparr>joinable := False\<rparr>"]
    by (auto simp: turns_def)
  have "joinable demo_turned" "callback_return demo_turned = 4"
    by (simp_all add: demo_turned_def demo_waiting_def demo_detached_def demo_params_def demo_handler_defs)
  with s show ?thesis unfolding s(2) by (auto simp: detached_view_def)
qed

end
