(* ===== verification/Publisher_Failure.thy ===== *)
theory Publisher_Failure
  imports Realtime_Publisher
begin

text \<open>
  \<^verbatim>\<open>realtime_publisher.hpp\<close> when \<^verbatim>\<open>publisher_->publish\<close> throws: \<^verbatim>\<open>publishingLoop\<close> does not catch the
  exception, it leaves the function of the thread, and the process ends, with every thread where
  it is. The machine of \<open>Realtime_Publisher\<close> runs until then.
\<close>

datatype 'm process =
    Running (pub_of: "'m pub")
  | Ended (pub_of: "'m pub")

inductive process_step :: "'m \<Rightarrow> 'm process \<Rightarrow> 'm process \<Rightarrow> bool" for dflt :: 'm where
  pr_step: "pub_step dflt s t \<Longrightarrow> process_step dflt (Running s) (Running t)"
| pr_publish_throws: "loop s = LoopPublish \<Longrightarrow> process_step dflt (Running s) (Ended s)"

fun process_init :: "'m process \<Rightarrow> bool" where
  "process_init (Running s) = pub_init s"
| "process_init (Ended s) = False"

inductive_cases endedE: "process_step dflt (Ended s) p"

definition process_inv :: "'m process \<Rightarrow> bool" where
  "process_inv p \<longleftrightarrow> pub_inv (pub_of p) \<and> (\<forall>s. p = Ended s \<longrightarrow> loop s = LoopPublish)"

interpretation process: safety process_init "process_step d" process_inv for d
proof
  show "process_init p \<Longrightarrow> process_inv p" for p :: "'a process"
    by (cases p) (simp_all add: process_inv_def pubm.inv_init)
  show "process_inv p \<Longrightarrow> process_step d p q \<Longrightarrow> process_inv q" for p q :: "'a process"
    by (erule process_step.cases) (auto simp: process_inv_def intro: pubm.inv_step)
qed

lemma running_reach: "pub_reach d s \<Longrightarrow> reach process_init (process_step d) (Running s)"
  by (induction rule: reach.induct) (auto intro: reach.intros pr_step)

text \<open>
  C34. When \<^verbatim>\<open>publish\<close> throws, the process ends there, and it loses exactly one message: every message
  accepted before the last one was published, in order, and the last one is the one whose \<^verbatim>\<open>publish\<close>
  threw, for which a \<^verbatim>\<open>try_publish\<close> had stored \<^verbatim>\<open>NON_REALTIME\<close>. The publisher was not stopped, and its
  mutex is not held by the publishing thread.
\<close>

theorem failed_publish_loses_one:
  assumes "reach process_init (process_step d) (Ended s)"
  shows "accepted s = published s @ [outgoing s] \<and> turn s = NON_REALTIME \<and> msg_mutex s \<noteq> Some Loop \<and>
    \<not> process_step d (Ended s) p"
proof -
  have inv: "pub_inv s" "loop s = LoopPublish"
    using process.reach_inv [OF assms] by (simp_all add: process_inv_def)
  then have "accepted s = published s @ [outgoing s]" "turn s = NON_REALTIME" "msg_mutex s \<noteq> Some Loop"
    by (auto simp: pub_inv_def lock_inv_def monitor_ok_def)
  then show ?thesis by (auto elim: endedE)
qed

definition demo_publishing :: "nat pub" where
  "demo_publishing = (notify_loop (at_client 0 (TryRet True) demo_stored))
     \<lparr>msg_mutex := None, outgoing := 7, loop := LoopPublish\<rparr>"

lemma demo_publishing_reach: "pub_reach 0 demo_publishing"
proof -
  have "steps (pub_step 0) demo_stored demo_publishing"
    unfolding demo_stored_def
    apply (rule steps_step, rule pub_client, rule client_try, rule try_unlock [where i = 0], simp)
    apply (rule steps_step, rule pub_client, rule client_try, rule try_notify [where i = 0], simp add: at_client_def)
    apply (rule steps_step, rule pub_loop, rule loop_relock, simp add: effect_defs, simp add: effect_defs)
    apply (rule steps_step, rule pub_loop, rule loop_pred, simp add: effect_defs)
    apply (rule steps_step, rule pub_loop, rule loop_copy, simp add: effect_defs)
    apply (rule steps_step, rule pub_loop, rule loop_unlock, simp add: effect_defs)
    apply (rule steps_step, rule pub_loop, rule loop_test_pub, simp add: effect_defs, simp add: effect_defs)
    apply (rule steps_eq)
    apply (simp add: demo_publishing_def demo_stored_def effect_defs fun_eq_iff)
    done
  then show ?thesis by (rule reach_steps) (rule demo_stored_reach)
qed

theorem failed_publish_loses_one_witness:
  "accepted demo_publishing = [7] \<and> published demo_publishing = [] \<and>
   accepted demo_publishing = published demo_publishing @ [outgoing demo_publishing] \<and>
   \<not> process_step 0 (Ended demo_publishing) (Ended demo_publishing)"
proof -
  have "reach process_init (process_step 0) (Ended demo_publishing)"
    by (rule reach_step [OF running_reach [OF demo_publishing_reach] pr_publish_throws])
      (simp add: demo_publishing_def)
  note lost = failed_publish_loses_one [OF this, of "Ended demo_publishing"]
  have "accepted demo_publishing = [7]" "published demo_publishing = []"
    by (simp_all add: demo_publishing_def demo_stored_def effect_defs)
  with lost show ?thesis by blast
qed

end
