(* ===== verification/Box_Calls.thy ===== *)
theory Box_Calls
  imports Thread_Safe_Box Serial_Calls
begin

text \<open>
  The member functions of the box as programs against its machine with threads
  (\<^verbatim>\<open>realtime_thread_safe_box.hpp\<close>): calls made one after the other are a run of \<open>box_step\<close> whose
  history is the list of the calls, so that what the machine's histories satisfy holds of the
  results of the programs.
\<close>

section \<open>The calls\<close>

text \<open>The functions given to a box here are not empty.\<close>

datatype ('v, 'u) box_call =
    Set 'v | Assign 'v | Set_func "('v, 'u) callback"
  | Get | Convert | Get_into "'v \<Rightarrow> 'u \<Rightarrow> 'u" | Get_func "('v, 'u) const_callback"
  | Try_set 'v | Try_set_func "('v, 'u) callback"
  | Try_get | Convert_optional | Try_get_func "('v, 'u) const_callback"

datatype 'v reply = Done | Success bool | Got 'v | Perhaps "'v option"

definition replies :: "('a \<Rightarrow> 'v reply) \<Rightarrow> ('c, 'a) prog \<Rightarrow> ('c, 'v reply) prog" where
  "replies f m = bindp m (\<lambda>x. ret (f x))"

fun on_box ::
    "'s mutex_ops \<Rightarrow> tid \<Rightarrow> ('v, 'u) box_call \<Rightarrow> (('s, 'v, 'u) box, 'v reply) prog" where
  "on_box M t (Set v) = replies (\<lambda>_. Done) (set_val M t v)"
| "on_box M t (Assign v) = replies (\<lambda>_. Done) (assign_val M t v)"
| "on_box M t (Set_func f) = replies (\<lambda>_. Done) (set_func M t f)"
| "on_box M t Get = replies Got (get_val M t)"
| "on_box M t Convert = replies Got (to_val M t)"
| "on_box M t (Get_into store) = replies (\<lambda>_. Done) (get_into M t store)"
| "on_box M t (Get_func f) = replies (\<lambda>_. Done) (get_func M t (Some f))"
| "on_box M t (Try_set v) = replies Success (try_set M t v)"
| "on_box M t (Try_set_func f) = replies Success (try_set_func M t (Some f))"
| "on_box M t Try_get = replies Perhaps (try_get M t)"
| "on_box M t Convert_optional = replies Perhaps (to_optional M t)"
| "on_box M t (Try_get_func f) = replies Success (try_get_func M t (Some f))"

text \<open>
  What the machine records for a call: who made it, the access, and the value it left, which is the
  one a reading call returned.
\<close>

fun logged :: "('v, 'u) box_call \<Rightarrow> 'v reply outcome \<Rightarrow> 'v access \<Rightarrow> 'v content \<Rightarrow> bool" where
  "logged (Set v) out a x = (a = Put v \<and> out = Return Done)"
| "logged (Assign v) out a x = (a = Put v \<and> out = Return Done)"
| "logged (Set_func f) out a x = ((\<exists>u. a = Apply (\<lambda>v. fst (f v u))) \<and> (out = Return Done \<or> (\<exists>e. out = Throw e)))"
| "logged Get out a x = (a = Take \<and> (\<exists>v. x = Whole v \<and> out = Return (Got v)))"
| "logged Convert out a x = (a = Take \<and> (\<exists>v. x = Whole v \<and> out = Return (Got v)))"
| "logged (Get_into store) out a x = (a = Take \<and> out = Return Done)"
| "logged (Get_func f) out a x = (a = Take \<and> (out = Return Done \<or> (\<exists>e. out = Throw e)))"
| "logged (Try_set v) out a x = (a = Put v \<and> out = Return (Success True))"
| "logged (Try_set_func f) out a x =
     ((\<exists>u. a = Apply (\<lambda>v. fst (f v u))) \<and> (out = Return (Success True) \<or> (\<exists>e. out = Throw e)))"
| "logged Try_get out a x = (a = Take \<and> (\<exists>v. x = Whole v \<and> out = Return (Perhaps (Some v))))"
| "logged Convert_optional out a x = (a = Take \<and> (\<exists>v. x = Whole v \<and> out = Return (Perhaps (Some v))))"
| "logged (Try_get_func f) out a x = (a = Take \<and> (out = Return (Success True) \<or> (\<exists>e. out = Throw e)))"

definition log_of ::
    "(tid \<times> ('v, 'u) box_call \<times> 'v reply outcome) list \<Rightarrow> (tid \<times> 'v access \<times> 'v content) list \<Rightarrow> bool" where
  "log_of made hist \<longleftrightarrow> list_all2 (\<lambda>(t, c, out) (t', a, x). t' = t \<and> logged c out a x) made hist"

lemma log_of_append:
  "log_of made hist \<Longrightarrow> logged c out a x \<Longrightarrow> log_of (made @ [(t, c, out)]) (hist @ [(t, a, x)])"
  by (simp add: log_of_def list_all2_appendI)

section \<open>One access\<close>

text \<open>Between calls the mutex is free and nobody is inside.\<close>

definition box_shown ::
    "('s \<Rightarrow> (tid \<times> nat) option) \<Rightarrow> ('s \<Rightarrow> bool) \<Rightarrow> ('s, 'v) shared_box \<Rightarrow> ('s, 'v, 'u) box \<Rightarrow> bool" where
  "box_shown holder usable s b \<longleftrightarrow> slock s = lck b \<and> svalue s = Whole (val b) \<and> spc s = (\<lambda>_. Idle) \<and>
     usable (lck b) \<and> holder (lck b) = None"

lemma access_runs:
  assumes "spc s = (\<lambda>_. Idle)" "svalue s = Whole v" "op_unlock M t l = (Return (), m)"
    and "if blocking then op_lock M t (slock s) = (Return (), l) else op_try_lock M t (slock s) = (Return True, l)"
  shows "steps (box_step M) s (s\<lparr>slock := m, svalue := Whole (after_access a v),
    shist := shist s @ [(t, a, Whole (after_access a v))]\<rparr>)"
proof -
  let ?at = "\<lambda>p. (\<lambda>_. Idle)(t := p)"
  let ?in = "s\<lparr>slock := l, spc := ?at (Inside a)\<rparr>"
  let ?out = "s\<lparr>slock := l, svalue := Whole (after_access a v), spc := ?at Leaving,
    shist := shist s @ [(t, a, Whole (after_access a v))]\<rparr>"
  have "box_step M s (s\<lparr>spc := ?at (Calling blocking a)\<rparr>)"
    using box_call [where s = s and t = t] assms(1) by simp
  moreover have "box_step M (s\<lparr>spc := ?at (Calling blocking a)\<rparr>) ?in"
    using box_lock [of "s\<lparr>spc := ?at (Calling True a)\<rparr>" t a M l]
      box_try_lock [of "s\<lparr>spc := ?at (Calling False a)\<rparr>" t a M True l] assms(4)
    by (cases blocking) simp_all
  moreover have "steps (box_step M) ?in ?out"
  proof (cases "a = Take")
    case True
    with assms(2) have "box_step M ?in ?out"
      using box_read [of ?in t M] by (cases s) simp
    then show ?thesis by (rule steps_one)
  next
    case False
    let ?w = "s\<lparr>slock := l, svalue := Torn, spc := ?at (Writing a (after_access a v))\<rparr>"
    have "box_step M ?in ?w" using box_write_begin [of ?in t a v M] False assms(2) by simp
    moreover have "box_step M ?w ?out"
      using box_write_end [of ?w t a "after_access a v" M] by simp
    ultimately show ?thesis by (meson steps_step steps_one)
  qed
  moreover have "box_step M ?out (s\<lparr>slock := m, svalue := Whole (after_access a v),
      shist := shist s @ [(t, a, Whole (after_access a v))]\<rparr>)"
    using box_unlock [of ?out t M m] assms(1,3) by (cases s) (simp add: fun_upd_idem)
  ultimately show ?thesis by (meson steps_step steps_trans steps_one)
qed

text \<open>A guarded body and the access it makes, under a blocking lock or a \<^verbatim>\<open>try_lock\<close>.\<close>

definition guarded_by ::
    "bool \<Rightarrow> 's mutex_ops \<Rightarrow> tid \<Rightarrow> 'a \<Rightarrow> (('s, 'v, 'u) box, 'a) prog \<Rightarrow> (('s, 'v, 'u) box, 'a) prog" where
  "guarded_by blocking M t failed body = (if blocking then with_lock M t body else with_try_lock M t failed body)"

lemma guarded_access:
  assumes "lockable M holder usable" "box_shown holder usable s b" "neutral put_lck body"
    and "val (snd (body b)) = after_access a (val b)"
  shows "\<exists>s' m. guarded_by blocking M t failed body b = (fst (body b), (snd (body b))\<lparr>lck := m\<rparr>) \<and>
    steps (box_step M) s s' \<and> box_shown holder usable s' ((snd (body b))\<lparr>lck := m\<rparr>) \<and>
    shist s' = shist s @ [(t, a, Whole (after_access a (val b)))]"
proof -
  have b: "slock s = lck b" "svalue s = Whole (val b)" "spc s = (\<lambda>_. Idle)" "usable (lck b)" "holder (lck b) = None"
    using assms(2) by (simp_all add: box_shown_def)
  obtain l where l: "if blocking then op_lock M t (lck b) = (Return (), l) else op_try_lock M t (lck b) = (Return True, l)"
      "usable l" "holder l = Some (t, 0)"
    using lockable.lock_free [OF assms(1) b(4,5), of t] lockable.try_free [OF assms(1) b(4,5), of t]
    by (cases blocking) auto
  obtain m where m: "op_unlock M t l = (Return (), m)" "usable m" "holder m = None"
    using lockable.unlock_last [OF assms(1) l(2,3)] by blast
  have body: "body (b\<lparr>lck := k\<rparr>) = (fst (body b), (snd (body b))\<lparr>lck := k\<rparr>)" for k
    using assms(3) by (simp add: neutral_defs)
  have ends: "is_return (fst (body b)) \<or> is_throw (fst (body b))"
    using assms(3) by (simp add: neutral_defs)
  have "guarded_by blocking M t failed body b = (fst (body b), (snd (body b))\<lparr>lck := m\<rparr>)"
    using l(1) m(1) body [of l] ends
    by (cases blocking; cases "fst (body b)") (simp_all add: guarded_by_def with_lock_def
        with_try_lock_def lock_guard_def try_lock_guard_def guarded_def on_part_def part_release_def bindp_def)
  moreover have "steps (box_step M) s (s\<lparr>slock := m, svalue := Whole (after_access a (val b)),
      shist := shist s @ [(t, a, Whole (after_access a (val b)))]\<rparr>)"
    by (rule access_runs [where l = l and blocking = blocking]) (use b l(1) m(1) in \<open>simp_all add: b(1)\<close>)
  ultimately show ?thesis
    using b(3) m(2,3) assms(4) by (intro exI conjI) (assumption, assumption, simp_all add: box_shown_def)
qed

lemma access_answered:
  assumes "lockable M holder usable" "box_shown holder usable s b" "neutral put_lck body"
    and "val (snd (body b)) = after_access a (val b)"
    and "replies f (guarded_by blocking M t failed body) b = (out, b')"
    and "log_of made (shist s)"
    and "logged c (case fst (body b) of Return x \<Rightarrow> Return (f x) | Throw e \<Rightarrow> Throw e) a (Whole (after_access a (val b)))"
  shows "\<exists>s'. steps (box_step M) s s' \<and> box_shown holder usable s' b' \<and> log_of (made @ [(t, c, out)]) (shist s')"
proof -
  obtain s' m where s': "guarded_by blocking M t failed body b = (fst (body b), (snd (body b))\<lparr>lck := m\<rparr>)"
      "steps (box_step M) s s'" "box_shown holder usable s' ((snd (body b))\<lparr>lck := m\<rparr>)"
      "shist s' = shist s @ [(t, a, Whole (after_access a (val b)))]"
    using guarded_access [OF assms(1-4), of blocking t failed] by blast
  have "is_return (fst (body b)) \<or> is_throw (fst (body b))" using assms(3) by (simp add: neutral_defs)
  then have "out = (case fst (body b) of Return x \<Rightarrow> Return (f x) | Throw e \<Rightarrow> Throw e) \<and>
      b' = (snd (body b))\<lparr>lck := m\<rparr>"
    using assms(5) s'(1) by (cases "fst (body b)") (auto simp: replies_def bindp_def)
  moreover from this have "log_of (made @ [(t, c, out)]) (shist s')"
    unfolding s'(4) using log_of_append [OF assms(6,7)] by simp
  ultimately show ?thesis using s' by blast
qed

section \<open>Every call\<close>

definition box_matches ::
    "('s \<Rightarrow> (tid \<times> nat) option) \<Rightarrow> ('s \<Rightarrow> bool) \<Rightarrow> ('s, 'v) shared_box \<Rightarrow>
      (tid \<times> ('v, 'u) box_call \<times> 'v reply outcome) list \<Rightarrow> ('s, 'v, 'u) box \<Rightarrow> bool" where
  "box_matches holder usable s made b \<longleftrightarrow> box_shown holder usable s b \<and> log_of made (shist s)"

text \<open>The body of a call and the access it makes, from the box it is made on.\<close>

lemma callback_body:
  "val (snd (bindp (run_callback (Some f)) (\<lambda>_. ret r) b)) = fst (f (val b) (captured b))"
  "fst (bindp (run_callback (Some f)) (\<lambda>_. ret r) b) =
     (case snd (snd (f (val b) (captured b))) of None \<Rightarrow> Return r | Some e \<Rightarrow> Throw e)"
  "val (snd (run_callback (Some f) b)) = fst (f (val b) (captured b))"
  "fst (run_callback (Some f) b) =
     (case snd (snd (f (val b) (captured b))) of None \<Rightarrow> Return () | Some e \<Rightarrow> Throw e)"
  by (simp_all add: run_callback_def bindp_def split: prod.split option.split)

lemma const_callback_body:
  "val (snd (bindp (run_const_callback (Some f)) (\<lambda>_. ret r) b)) = val b"
  "fst (bindp (run_const_callback (Some f)) (\<lambda>_. ret r) b) =
     (case snd (f (val b) (captured b)) of None \<Rightarrow> Return r | Some e \<Rightarrow> Throw e)"
  "val (snd (run_const_callback (Some f) b)) = val b"
  "fst (run_const_callback (Some f) b) =
     (case snd (f (val b) (captured b)) of None \<Rightarrow> Return () | Some e \<Rightarrow> Throw e)"
  by (simp_all add: run_const_callback_def callback_body)

fun access_of :: "('v, 'u) box_call \<Rightarrow> 'u \<Rightarrow> 'v access" where
  "access_of (Set v) u = Put v"
| "access_of (Assign v) u = Put v"
| "access_of (Try_set v) u = Put v"
| "access_of (Set_func f) u = Apply (\<lambda>v. fst (f v u))"
| "access_of (Try_set_func f) u = Apply (\<lambda>v. fst (f v u))"
| "access_of _ u = Take"

lemma blocking_call: "with_lock M t body = guarded_by True M t undefined body"
  and trying_call: "with_try_lock M t failed body = guarded_by False M t failed body"
  by (simp_all add: guarded_by_def)

lemma box_call_answered:
  assumes "lockable M holder usable" "box_shown holder usable s b" "log_of made (shist s)"
    and "on_box M t c b = (out, b')"
  shows "\<exists>s'. steps (box_step M) s s' \<and> box_shown holder usable s' b' \<and> log_of (made @ [(t, c, out)]) (shist s')"
proof -
  note answer = access_answered [OF assms(1,2) _ _ _ assms(3), where a = "access_of c (captured b)"]
  show ?thesis
  proof (cases c)
    case (Set v)
    with assms(4) show ?thesis
      by (intro answer [where body = "modify (val_update (\<lambda>_. v))" and blocking = True])
        (auto simp: set_val_def blocking_call)
  next
    case (Assign v)
    with assms(4) show ?thesis
      by (intro answer [where body = "modify (val_update (\<lambda>_. v))" and blocking = True])
        (auto simp: assign_val_def set_val_def blocking_call)
  next
    case (Set_func f)
    with assms(4) show ?thesis
      by (intro answer [where body = "run_callback (Some f)" and blocking = True])
        (auto simp: set_func_def blocking_call callback_body split: option.split)
  next
    case Get
    with assms(4) show ?thesis
      by (intro answer [where body = "get_state val" and blocking = True])
        (auto simp: get_val_def blocking_call)
  next
    case Convert
    with assms(4) show ?thesis
      by (intro answer [where body = "get_state val" and blocking = True])
        (auto simp: to_val_def get_val_def blocking_call)
  next
    case (Get_into store)
    with assms(4) show ?thesis
      by (intro answer [where body = "modify (\<lambda>b. b\<lparr>captured := store (val b) (captured b)\<rparr>)"
            and blocking = True])
        (auto simp: get_into_def blocking_call)
  next
    case (Get_func f)
    with assms(4) show ?thesis
      by (intro answer [where body = "run_const_callback (Some f)" and blocking = True])
        (auto simp: get_func_def blocking_call const_callback_body split: option.split)
  next
    case (Try_set v)
    with assms(4) show ?thesis
      by (intro answer [where body = "bindp (modify (val_update (\<lambda>_. v))) (\<lambda>_. ret True)" and blocking = False])
        (auto simp: try_set_def trying_call)
  next
    case (Try_set_func f)
    with assms(4) show ?thesis
      by (intro answer [where body = "bindp (run_callback (Some f)) (\<lambda>_. ret True)" and blocking = False])
        (auto simp: try_set_func_def trying_call callback_body split: option.split)
  next
    case Try_get
    with assms(4) show ?thesis
      by (intro answer [where body = "bindp (get_state val) (\<lambda>v. ret (Some v))" and blocking = False])
        (auto simp: try_get_def trying_call)
  next
    case Convert_optional
    with assms(4) show ?thesis
      by (intro answer [where body = "bindp (get_state val) (\<lambda>v. ret (Some v))" and blocking = False])
        (auto simp: to_optional_def try_get_def trying_call)
  next
    case (Try_get_func f)
    with assms(4) show ?thesis
      by (intro answer [where body = "bindp (run_const_callback (Some f)) (\<lambda>_. ret True)" and blocking = False])
        (auto simp: try_get_func_def trying_call const_callback_body split: option.split)
  qed
qed

abbreviation any_call :: "('v, 'u) box_call \<Rightarrow> ('s, 'v, 'u) box \<Rightarrow> bool" where
  "any_call c b \<equiv> True"

sublocale lockable \<subseteq> boxcalls: serial_calls "box_step M" "box_matches holder usable" any_call "on_box M"
proof
  fix s made c i out b b'
  assume "box_matches holder usable s made b" "on_box M i c b = (out, b')"
  then show "\<exists>s'. steps (box_step M) s s' \<and> box_matches holder usable s' (made @ [(i, c, out)]) b'"
    unfolding box_matches_def using box_call_answered [OF lockable_axioms] by blast
qed

context lockable
begin

lemma box_serial_reach:
  "serial_run any_call (on_box M) b made b' \<Longrightarrow> reach init (box_step M) s \<Longrightarrow>
     box_matches holder usable s [] b \<Longrightarrow> \<exists>s'. reach init (box_step M) s' \<and> box_matches holder usable s' made b'"
  by (rule boxcalls.serial_reach)

end

text \<open>A call for an access that the machine recorded.\<close>

fun call_of :: "'v access \<Rightarrow> ('v, 'u) box_call" where
  "call_of (Put v) = Set v"
| "call_of Take = Get"
| "call_of (Apply f) = Set_func (\<lambda>v u. (f v, u, None))"

lemma recorded_call:
  assumes "lockable M holder usable" "usable (lck b)" "holder (lck b) = None"
  shows "\<exists>c out b'. on_box M t c b = (out, b') \<and> comes_back out \<and>
    c = call_of a \<and> logged c out a (Whole (after_access a (val b))) \<and>
    val b' = after_access a (val b) \<and> usable (lck b') \<and> holder (lck b') = None"
proof -
  note free = with_lock_free [OF assms, where t = t]
  show ?thesis
  proof (cases a)
    case (Put v)
    obtain m where "set_val M t v b = (Return (), b\<lparr>val := v, lck := m\<rparr>)" "usable m" "holder m = None"
      using free [of "modify (val_update (\<lambda>_. v))"] by (auto simp: set_val_def)
    with Put show ?thesis by (simp add: replies_def bindp_simps)
  next
    case Take
    obtain m where "get_val M t b = (Return (val b), b\<lparr>lck := m\<rparr>)" "usable m" "holder m = None"
      using free [of "get_state val"] by (auto simp: get_val_def)
    with Take show ?thesis by (simp add: replies_def bindp_simps)
  next
    case (Apply f)
    let ?f = "\<lambda>v u. (f v, u, None)"
    obtain m where "set_func M t ?f b = (Return (), b\<lparr>val := f (val b), captured := captured b, lck := m\<rparr>)"
        "usable m" "holder m = None"
      using free [of "run_callback (Some ?f)"] by (auto simp: set_func_def run_callback_def)
    with Apply show ?thesis by (simp add: replies_def bindp_simps)
  qed
qed

lemma history_calls:
  assumes "lockable M holder usable" "usable (lck b)" "holder (lck b) = None" "legal (val b) hist"
  shows "\<exists>made b'. serial_run any_call (on_box M) b made b' \<and> log_of made hist \<and>
    val b' = replay (val b) hist \<and> usable (lck b') \<and> holder (lck b') = None"
  using assms(4)
proof (induction hist rule: rev_induct)
  case Nil
  show ?case
    by (rule exI [of _ "[]"], rule exI [of _ b]) (simp add: serial_none log_of_def assms(2,3))
next
  case (snoc x hist)
  obtain t a y where x: "x = (t, a, y)" by (cases x)
  with snoc.prems have legal: "legal (val b) hist" "y = Whole (after_access a (replay (val b) hist))"
    by simp_all
  from snoc.IH [OF legal(1)] obtain made b1 where
    1: "serial_run any_call (on_box M) b made b1" "log_of made hist"
      "val b1 = replay (val b) hist" "usable (lck b1)" "holder (lck b1) = None" by blast
  from recorded_call [OF assms(1) 1(4,5)] obtain c out b2 where
    2: "on_box M t c b1 = (out, b2)" "comes_back out" "logged c out a (Whole (after_access a (val b1)))"
      "val b2 = after_access a (val b1)" "usable (lck b2)" "holder (lck b2) = None" by blast
  have "serial_run any_call (on_box M) b (made @ [(t, c, out)]) b2"
    by (rule serial_call [OF 1(1) TrueI 2(1,2)])
  moreover have "log_of (made @ [(t, c, out)]) (hist @ [x])"
    using log_of_append [OF 1(2) 2(3)] by (simp add: x legal(2) 1(3))
  ultimately show ?case using 1(3) 2(4-6) by (auto simp: x)
qed

text \<open>
  C13. The two models of the box agree, over any mutex type that keeps the contract. Calls of the
  member functions one after the other, from any threads, are a run of the machine that ends with
  the same value and the same mutex and whose history is the list of the calls with their results.
  Conversely, whatever the threads of the machine did at the same time, the member functions called
  one after the other in the order of its history give the results that are recorded there.
\<close>

theorem box_calls_agree:
  fixes b :: "('s, 'v, 'u) box"
  assumes "lockable M holder usable" "usable (lck b)" "holder (lck b) = None"
  shows "(serial_run any_call (on_box M) b made b' \<longrightarrow>
      (\<exists>s. reach (box_start holder usable (val b)) (box_step M) s \<and>
        svalue s = Whole (val b') \<and> slock s = lck b' \<and> log_of made (shist s))) \<and>
    (reach (box_start holder usable (val b)) (box_step M) s \<longrightarrow>
      (\<exists>made (b' :: ('s, 'v, 'u) box). serial_run any_call (on_box M) b made b' \<and>
        log_of made (shist s) \<and> val b' = replay (val b) (shist s)))"
proof (intro conjI impI)
  let ?s = "\<lparr>slock = lck b, svalue = Whole (val b), spc = (\<lambda>_. Idle), shist = []\<rparr>"
  assume run: "serial_run any_call (on_box M) b made b'"
  have "box_start holder usable (val b) ?s" "box_matches holder usable ?s [] b"
    using assms(2,3) by (simp_all add: box_start_def box_matches_def box_shown_def log_of_def)
  from lockable.box_serial_reach [OF assms(1) run reach_init [where init = "box_start holder usable (val b)", OF this(1)] this(2)]
  show "\<exists>s. reach (box_start holder usable (val b)) (box_step M) s \<and>
      svalue s = Whole (val b') \<and> slock s = lck b' \<and> log_of made (shist s)"
    by (auto simp: box_matches_def box_shown_def)
next
  assume "reach (box_start holder usable (val b)) (box_step M) s"
  then have "box_inv holder usable (val b) s" by (rule lockable.box_reach_inv [OF assms(1)])
  then have "legal (val b) (shist s)" by (simp add: box_inv_def)
  from history_calls [OF assms this]
  show "\<exists>made (b' :: ('s, 'v, 'u) box). serial_run any_call (on_box M) b made b' \<and>
      log_of made (shist s) \<and> val b' = replay (val b) (shist s)"
    by blast
qed

theorem box_calls_agree_witness:
  "\<exists>s. reach (box_start std_holder (\<lambda>_. True) (3 :: int)) (box_step std_mutex_ops) s \<and>
     svalue s = Whole 7 \<and> slock s = None \<and>
     log_of [(1, Set 7, Return Done), (2, Get, Return (Got 7)) :: tid \<times> (int, unit) box_call \<times> int reply outcome]
       (shist s)"
proof -
  let ?b = "\<lambda>v. \<lparr>val = v :: int, lck = None, captured = ()\<rparr>"
  let ?run = "serial_run any_call (on_box std_mutex_ops) (?b 3)"
  have step: "on_box std_mutex_ops 1 (Set 7) (?b 3) = (Return Done, ?b 7)"
    "on_box std_mutex_ops 2 Get (?b 7) = (Return (Got 7), ?b 7)"
    by (simp_all add: replies_def set_val_def get_val_def with_lock_def lock_guard_def guarded_def
        on_part_def part_release_def bindp_def std_mutex_ops_def std_unlock_def)
  have "?run ([] @ [(1, Set 7, Return Done)]) (?b 7)"
    by (rule serial_call [where h = "?b 3"], rule serial_none) (simp_all add: step [unfolded One_nat_def] del: on_box.simps)
  then have "?run (([] @ [(1, Set 7, Return Done)]) @ [(2, Get, Return (Got 7))]) (?b 7)"
    by (rule serial_call [where h = "?b 7"]) (simp_all add: step [unfolded One_nat_def] del: on_box.simps)
  then have all: "?run [(1, Set 7, Return Done), (2, Get, Return (Got 7))] (?b 7)" by simp
  have "std_holder (lck (?b 3)) = None" by (simp add: std_holder_def)
  note agree = box_calls_agree [OF std_mutex.lockable_axioms TrueI this, THEN conjunct1, rule_format]
  from agree [OF all] show ?thesis by simp
qed

end
