(* ===== verification/Buffer_Calls.thy ===== *)
theory Buffer_Calls
  imports Realtime_Buffer Serial_Calls
begin

text \<open>
  \<^verbatim>\<open>readFromRT\<close>, \<^verbatim>\<open>readFromNonRT\<close> and \<^verbatim>\<open>writeFromNonRT\<close> of \<^verbatim>\<open>realtime_buffer.hpp\<close> as programs on the heap
  against the machine with threads: calls made one after the other are a run of it with the same
  values read and written.
\<close>

section \<open>The calls\<close>

text \<open>A reading call is followed by the read of the object its pointer points to.\<close>

datatype 'v buf_call = Read_RT | Read_NonRT | Write 'v

definition dereferenced :: "('v world, addr) prog \<Rightarrow> ('v world, 'v option) prog" where
  "dereferenced m = bindp m (\<lambda>p. bindp (load p) (\<lambda>v. ret (Some v)))"

fun on_buffer :: "buf_id \<Rightarrow> tid \<Rightarrow> 'v buf_call \<Rightarrow> ('v world, 'v option) prog" where
  "on_buffer b t Read_RT = dereferenced (readFromRT t b)"
| "on_buffer b t Read_NonRT = dereferenced (readFromNonRT t b)"
| "on_buffer b t (Write v) = bindp (writeFromNonRT t b v) (\<lambda>_. ret None)"

text \<open>The values written, and the values the calls of a kind returned.\<close>

fun write_of :: "tid \<times> 'v buf_call \<times> 'v option outcome \<Rightarrow> 'v list" where
  "write_of (t, Write v, out) = [v]"
| "write_of _ = []"

fun read_by :: "'v buf_call \<Rightarrow> tid \<times> 'v buf_call \<times> 'v option outcome \<Rightarrow> 'v list" where
  "read_by c (t, c', Return (Some v)) = (if c' = c then [v] else [])"
| "read_by c _ = []"

definition writes :: "(tid \<times> 'v buf_call \<times> 'v option outcome) list \<Rightarrow> 'v list" where
  "writes made = concat (map write_of made)"

definition reads :: "'v buf_call \<Rightarrow> (tid \<times> 'v buf_call \<times> 'v option outcome) list \<Rightarrow> 'v list" where
  "reads c made = concat (map (read_by c) made)"

lemma made_simps [simp]:
  "writes [] = []" "reads c [] = []" "writes (made @ [x]) = writes made @ write_of x"
  "reads c (made @ [x]) = reads c made @ read_by c x"
  by (simp_all add: writes_def reads_def)

section \<open>The machine\<close>

text \<open>Between calls.\<close>

definition buffer_quiet :: "'v shared_buffer \<Rightarrow> bool" where
  "buffer_quiet s \<longleftrightarrow> bmutex s = None \<and> \<not> rt_holds (rt_pc s) \<and> nrt_pc s = (\<lambda>_. N_idle)"

definition rt_done :: "'v shared_buffer \<Rightarrow> 'v shared_buffer" where
  "rt_done s = (let u = (if new_data s
      then s\<lparr>rt_ptr := nonrt_ptr s, nonrt_ptr := rt_ptr s, version := length (written s) - 1, new_data := False\<rparr>
      else s) in
    u\<lparr>rt_pc := Rt_use (rt_ptr u), rt_reads := rt_reads u @ [(version u, cells u (rt_ptr u))]\<rparr>)"

lemma rt_runs:
  assumes "buffer_quiet s"
  shows "steps rt_step s (rt_done s)"
proof -
  have s: "bmutex s = None" "\<not> rt_holds (rt_pc s)" using assms by (simp_all add: buffer_quiet_def)
  show ?thesis
  proof (cases "new_data s")
    case True
    show ?thesis
      apply (rule steps_step, rule rt_try [where owns_lock = True and m = "Some RT"], rule s, simp add: s)
      apply (rule steps_step, rule rt_swap, simp, simp add: True)
      apply (rule steps_step, rule rt_clear, simp)
      apply (rule steps_step, rule rt_release, simp)
      apply (rule steps_step, rule rt_read, simp)
      apply (rule steps_eq)
      using s True by (cases s) (simp add: rt_done_def)
  next
    case False
    show ?thesis
      apply (rule steps_step, rule rt_try [where owns_lock = True and m = "Some RT"], rule s, simp add: s)
      apply (rule steps_step, rule rt_nothing, simp, simp add: False)
      apply (rule steps_step, rule rt_release, simp)
      apply (rule steps_step, rule rt_read, simp)
      apply (rule steps_eq)
      using s False by (cases s) (simp add: rt_done_def)
  qed
qed

lemma write_runs:
  assumes "buffer_quiet s"
  shows "steps nrt_step s (s\<lparr>cells := (cells s)(nonrt_ptr s := Whole v), new_data := True, written := written s @ [v]\<rparr>)"
proof -
  have s: "bmutex s = None" "nrt_pc s = (\<lambda>_. N_idle)" using assms by (simp_all add: buffer_quiet_def)
  show ?thesis
    apply (rule steps_step, rule n_write [where t = 0 and v = v], simp add: s)
    apply (rule steps_step, rule n_poll [where t = 0 and v = v and got = True and m = "Some (NRT 0)"],
        simp, simp add: s)
    apply (rule steps_step, rule n_copy_begin [where t = 0 and v = v], simp)
    apply (rule steps_step, rule n_copy_end [where t = 0 and v = v], simp)
    apply (rule steps_step, rule n_set_flag [where t = 0 and v = v], simp)
    apply (rule steps_step, rule n_unlock [where t = 0], simp)
    apply (rule steps_eq)
    using s by (cases s) (simp add: fun_upd_idem)
qed

lemma read_runs:
  assumes "buffer_quiet s"
  shows "steps nrt_step s (s\<lparr>copies := copies s @ [cells s (if new_data s then nonrt_ptr s else rt_ptr s)]\<rparr>)"
proof -
  have s: "bmutex s = None" "nrt_pc s = (\<lambda>_. N_idle)" using assms by (simp_all add: buffer_quiet_def)
  show ?thesis
    apply (rule steps_step, rule n_read [where t = 0], simp add: s)
    apply (rule steps_step, rule n_lock [where t = 0], simp, simp add: s)
    apply (rule steps_step, rule n_choose [where t = 0], simp)
    apply (rule steps_step, rule n_return [where t = 0], simp)
    apply (rule steps_step, rule n_deref [where t = 0], simp)
    apply (rule steps_eq)
    using s by (cases s) (simp add: fun_upd_idem)
qed

section \<open>Agreement\<close>

definition same_object :: "'v world \<Rightarrow> 'v shared_buffer \<Rightarrow> addr \<Rightarrow> bool" where
  "same_object w s a \<longleftrightarrow> (\<exists>v. objs w a = Some v \<and> cells s a = Whole v)"

definition buffer_shown :: "buf_id \<Rightarrow> 'v shared_buffer \<Rightarrow> 'v world \<Rightarrow> bool" where
  "buffer_shown b s w \<longleftrightarrow> buffer_quiet s \<and> rt_ptr s \<noteq> nonrt_ptr s \<and>
     bufs w b = Some \<lparr>realtime_data = rt_ptr s, non_realtime_data = nonrt_ptr s,
       new_data_available = new_data s, buf_mutex = None\<rparr> \<and>
     same_object w s (rt_ptr s) \<and> same_object w s (nonrt_ptr s)"

definition buffer_matches ::
    "buf_id \<Rightarrow> 'v \<Rightarrow> 'v shared_buffer \<Rightarrow> (tid \<times> 'v buf_call \<times> 'v option outcome) list \<Rightarrow> 'v world \<Rightarrow> bool" where
  "buffer_matches b v0 s made w \<longleftrightarrow> buffer_shown b s w \<and> written s = v0 # writes made \<and>
     map snd (rt_reads s) = map Whole (reads Read_RT made) \<and> copies s = map Whole (reads Read_NonRT made)"

lemmas shown_defs = buffer_shown_def buffer_quiet_def same_object_def

text \<open>The programs on a heap that shows the buffer.\<close>

lemma rt_program:
  assumes "buffer_shown b s w"
  shows "\<exists>v w'. on_buffer b t Read_RT w = (Return (Some v), w') \<and> buffer_shown b (rt_done s) w' \<and>
    written (rt_done s) = written s \<and> copies (rt_done s) = copies s \<and>
    map snd (rt_reads (rt_done s)) = map snd (rt_reads s) @ [Whole v]"
  using assms by (auto simp: shown_defs dereferenced_def buffer_defs rt_done_def Let_def)

lemma write_program:
  assumes "buffer_shown b s w"
  shows "\<exists>w'. on_buffer b t (Write v) w = (Return None, w') \<and>
    buffer_shown b (s\<lparr>cells := (cells s)(nonrt_ptr s := Whole v), new_data := True, written := written s @ [v]\<rparr>) w'"
  using assms by (auto simp: shown_defs buffer_defs)

lemma read_program:
  assumes "buffer_shown b s w"
  shows "\<exists>v w'. on_buffer b t Read_NonRT w = (Return (Some v), w') \<and>
    buffer_shown b (s\<lparr>copies := copies s @ [Whole v]\<rparr>) w' \<and>
    cells s (if new_data s then nonrt_ptr s else rt_ptr s) = Whole v"
  using assms by (auto simp: shown_defs dereferenced_def buffer_defs)

lemma lift_rt: "steps rt_step s t \<Longrightarrow> steps buffer_step s t"
  by (erule steps_mono) (simp add: buffer_step_def)

lemma lift_nrt: "steps nrt_step s t \<Longrightarrow> steps buffer_step s t"
  by (erule steps_mono) (simp add: buffer_step_def)

lemma buffer_call_answered:
  assumes "buffer_matches b v0 s made w" "on_buffer b t c w = (out, w')"
  shows "\<exists>s'. steps buffer_step s s' \<and> buffer_matches b v0 s' (made @ [(t, c, out)]) w'"
proof -
  have s: "buffer_shown b s w" "buffer_quiet s" "written s = v0 # writes made"
    "map snd (rt_reads s) = map Whole (reads Read_RT made)" "copies s = map Whole (reads Read_NonRT made)"
    using assms(1) by (simp_all add: buffer_matches_def buffer_shown_def)
  show ?thesis
  proof (cases c)
    case Read_RT
    obtain v where "out = Return (Some v)" "buffer_shown b (rt_done s) w'"
        "written (rt_done s) = written s" "copies (rt_done s) = copies s"
        "map snd (rt_reads (rt_done s)) = map snd (rt_reads s) @ [Whole v]"
      using rt_program [OF s(1), of t] assms(2) Read_RT by auto
    with s Read_RT show ?thesis
      by (intro exI [of _ "rt_done s"] conjI lift_rt [OF rt_runs]) (simp_all add: buffer_matches_def)
  next
    case (Write v)
    let ?s = "s\<lparr>cells := (cells s)(nonrt_ptr s := Whole v), new_data := True, written := written s @ [v]\<rparr>"
    have "out = Return None" "buffer_shown b ?s w'"
      using write_program [OF s(1), of t v] assms(2) Write by auto
    with s Write show ?thesis
      by (intro exI [of _ ?s] conjI lift_nrt [OF write_runs]) (simp_all add: buffer_matches_def)
  next
    case Read_NonRT
    obtain v where v: "out = Return (Some v)" "buffer_shown b (s\<lparr>copies := copies s @ [Whole v]\<rparr>) w'"
        "cells s (if new_data s then nonrt_ptr s else rt_ptr s) = Whole v"
      using read_program [OF s(1), of t] assms(2) Read_NonRT by auto
    from read_runs [OF s(2)] v(3)
    have "steps nrt_step s (s\<lparr>copies := copies s @ [Whole v]\<rparr>)" by simp
    with s v Read_NonRT show ?thesis
      by (intro exI [of _ "s\<lparr>copies := copies s @ [Whole v]\<rparr>"] conjI lift_nrt)
        (simp_all add: buffer_matches_def)
  qed
qed

abbreviation any_access :: "'v buf_call \<Rightarrow> 'v world \<Rightarrow> bool" where
  "any_access c w \<equiv> True"

interpretation buffer_calls: serial_calls buffer_step "buffer_matches b v0" any_access "on_buffer b" for b v0
  by unfold_locales (rule buffer_call_answered)

text \<open>
  C14. The two models of the buffer agree: on a buffer as its constructor leaves it, any calls of
  \<^verbatim>\<open>writeFromNonRT\<close>, \<^verbatim>\<open>readFromNonRT\<close> and \<^verbatim>\<open>readFromRT\<close> made one after the other are a run of the machine
  with threads in which the same values are written and read, in the same order, and which ends with
  the same pointers and the same flag.
\<close>

theorem buffer_calls_agree:
  assumes "bufs w b = Some \<lparr>realtime_data = p, non_realtime_data = q, new_data_available = False, buf_mutex = None\<rparr>"
    and "p \<noteq> q" "objs w p = Some v0" "objs w q = Some v0"
    and "serial_run any_access (on_buffer b) w made w'"
  shows "\<exists>s. reach (buffer_start v0) buffer_step s \<and> written s = v0 # writes made \<and>
    map snd (rt_reads s) = map Whole (reads Read_RT made) \<and> copies s = map Whole (reads Read_NonRT made) \<and>
    bufs w' b = Some \<lparr>realtime_data = rt_ptr s, non_realtime_data = nonrt_ptr s,
      new_data_available = new_data s, buf_mutex = None\<rparr>"
proof -
  let ?s = "\<lparr>cells = (\<lambda>_. Whole v0), rt_ptr = p, nonrt_ptr = q, new_data = False, bmutex = None,
    rt_pc = Rt_idle, nrt_pc = (\<lambda>_. N_idle), written = [v0], version = 0, rt_reads = [], copies = []\<rparr>"
  have "buffer_start v0 ?s" "buffer_matches b v0 ?s [] w"
    using assms(1-4) by (simp_all add: buffer_start_def buffer_matches_def shown_defs)
  from buffer_calls.serial_reach [OF assms(5) reach_init [where init = "buffer_start v0", OF this(1)] this(2)]
  show ?thesis by (auto simp: buffer_matches_def buffer_shown_def)
qed

theorem buffer_calls_agree_witness:
  "\<exists>s. reach (buffer_start (3 :: int)) buffer_step s \<and> written s = [3, 7] \<and> map snd (rt_reads s) = [Whole 7]"
proof -
  let ?b = "\<lambda>p q f. \<lparr>realtime_data = p, non_realtime_data = q, new_data_available = f, buf_mutex = None\<rparr>"
  let ?w = "\<lambda>v r. \<lparr>objs = [0 \<mapsto> 3 :: int, 1 \<mapsto> v], fresh = 2, bufs = [5 \<mapsto> r]\<rparr>"
  let ?run = "serial_run any_access (on_buffer 5) (?w 3 (?b 0 1 False))"
  have step: "on_buffer 5 2 (Write 7) (?w 3 (?b 0 1 False)) = (Return None, ?w 7 (?b 0 1 True))"
    "on_buffer 5 0 Read_RT (?w 7 (?b 0 1 True)) = (Return (Some 7), ?w 7 (?b 1 0 False))"
    by (simp_all add: dereferenced_def buffer_defs fun_eq_iff)
  have "?run ([] @ [(2, Write 7, Return None)]) (?w 7 (?b 0 1 True))"
    by (rule serial_call [where h = "?w 3 (?b 0 1 False)"], rule serial_none)
      (simp_all add: step [unfolded One_nat_def] del: on_buffer.simps)
  then have "?run (([] @ [(2, Write 7, Return None)]) @ [(0, Read_RT, Return (Some 7))]) (?w 7 (?b 1 0 False))"
    by (rule serial_call [where h = "?w 7 (?b 0 1 True)"])
      (simp_all add: step [unfolded One_nat_def] del: on_buffer.simps)
  from buffer_calls_agree [OF _ _ _ _ this, of 0 1 3] show ?thesis
    by (auto simp: writes_def reads_def)
qed

end
