(* ===== verification/Spec2Isabelle.thy ===== *)
theory Spec2Isabelle
  imports RT_Prelude PI_Mutex Std_Mutex Lock_Guard Thread_Safe_Box Lock_Free_Queue Realtime_Buffer
    Realtime_Publisher Goal_Handle RT_Helpers RT_Platforms Async_Params Async_Handler Async_Worker
    Async_Agreement Async_Timing Async_Detached Async_Clock Async_Lifecycle Async_Start Async_Calls
    Async_Session Detached_Session Publisher_Failure Serial_Calls Box_Calls Buffer_Calls
begin

text \<open>
  A verification library for \<^verbatim>\<open>realtime_tools\<close>: the C++ classes with which a control loop exchanges
  data with threads that are not real-time. Everything under
  \<^verbatim>\<open>src/realtime_tools/include/realtime_tools/\<close> and \<^verbatim>\<open>src/realtime_tools/src/realtime_helpers.cpp\<close> is
  modelled, on Linux and, where the code has a branch for them, on macOS and Windows.

  \<^bold>\<open>The parts.\<close> The classes are independent of each other but for three uses: the box and the goal
  handle guard their data by a mutex of \<^verbatim>\<open>mutex.hpp\<close> (any lockable type), and the thread of the
  asynchronous handler sets itself up by \<^verbatim>\<open>realtime_helpers.cpp\<close>. Each class has a theory:

  \<^item> \<open>RT_Prelude\<close>: outcomes of a call (\<open>Return\<close>, \<open>Throw\<close>, \<open>Block\<close>, \<open>Terminate\<close>, \<open>Undefined\<close>),
    state-passing programs with \<open>bindp\<close> and \<open>guarded\<close> (a scope with a lock), decimal printing,
    \<^verbatim>\<open>std::mutex\<close>, runs of step relations, and the locales all machines share.
  \<^item> \<open>PI_Mutex\<close>: \<^verbatim>\<open>detail::mutex\<close> of \<^verbatim>\<open>mutex.hpp\<close>; constructor, destructor, \<^verbatim>\<open>lock\<close>, \<^verbatim>\<open>try_lock\<close>,
    \<^verbatim>\<open>unlock\<close>, recovery from a dead owner. pthread is the record \<open>pthread_api\<close>; its documented
    behaviour is the locale \<open>pthread_mutex\<close>, and \<open>posix_api\<close> an instance.
  \<^item> \<open>Std_Mutex\<close>: \<^verbatim>\<open>std::mutex\<close> and \<^verbatim>\<open>std::recursive_mutex\<close>, which the box and the goal handle use where
    \<^verbatim>\<open>mutex.hpp\<close> does not exist.
  \<^item> \<open>Lock_Guard\<close>: \<^verbatim>\<open>lock_guard\<close> and \<^verbatim>\<open>unique_lock\<close> around a body.
  \<^item> \<open>Thread_Safe_Box\<close>: \<^verbatim>\<open>realtime_thread_safe_box.hpp\<close>; all accesses as programs, concurrent accesses
    as \<open>box_step\<close> (a write is two steps, so a read without the lock could be torn), assignments of
    two boxes as \<open>assign_step\<close>.
  \<^item> \<open>Lock_Free_Queue\<close>: \<^verbatim>\<open>lock_free_queue.hpp\<close>; the traits, every operation over a container of Boost
    given as the record \<open>lockfree_ops\<close> with the laws of the locale \<open>boost_container\<close>, and the
    interleaving of producers and consumers as \<open>queue_step\<close>.
  \<^item> \<open>Realtime_Buffer\<close>: \<^verbatim>\<open>realtime_buffer.hpp\<close>; the two objects live on an explicit heap, so that
    sharing, leaks and double deletions can be stated; \<open>rt_step\<close> and \<open>nrt_step\<close> are the concurrent
    readers and writers.
  \<^item> \<open>Realtime_Publisher\<close>: \<^verbatim>\<open>realtime_publisher.hpp\<close>; the publishing thread \<open>loop_step\<close> and the clients
    \<open>try_publish_step\<close>, \<open>can_publish_step\<close>, \<open>stop_step\<close>, \<open>dtor_step\<close>, with one step for each access to
    shared memory; \<open>Publisher_Failure\<close> adds the end of the process when \<^verbatim>\<open>publish\<close> throws.
  \<^item> \<open>Goal_Handle\<close>: \<^verbatim>\<open>realtime_server_goal_handle.hpp\<close>; requests, feedback and \<^verbatim>\<open>runNonRealtime\<close> over a
    goal handle of rclcpp, the record \<open>goal_api\<close> with the laws \<open>goal_laws\<close>.
  \<^item> \<open>RT_Helpers\<close>: \<^verbatim>\<open>realtime_helpers.cpp\<close> on Linux over the record \<open>os_api\<close> of the system calls it
    makes; \<open>RT_Platforms\<close>: every function of it on the three platforms, a \<open>case\<close> for each \<^verbatim>\<open>#ifdef\<close>.
  \<^item> \<^verbatim>\<open>async_function_handler.hpp\<close>: \<open>Async_Params\<close> has the parameters; \<open>Async_Handler\<close> the calls of the
    clients as programs and \<open>Async_Lifecycle\<close> sequences of them; \<open>Async_Worker\<close> and \<open>Async_Detached\<close>
    the two workers with all interleavings of their clients; \<open>Async_Timing\<close> the plan of the
    detached loop in double arithmetic and \<open>Async_Clock\<close> the loop against the steady clock;
    \<open>Async_Agreement\<close>, \<open>Async_Calls\<close>, \<open>Async_Start\<close>, \<open>Async_Session\<close> and \<open>Detached_Session\<close> what
    connects these models; the last has also the detached worker, before its loop and in a turn of
    it, as programs.
  \<^item> \<open>Serial_Calls\<close>: calls made one after the other on any object, against a machine with threads;
    \<open>Box_Calls\<close> and \<open>Buffer_Calls\<close>: those on a box and on a buffer.

  \<^bold>\<open>Two views of a class.\<close> A class with a mutex has its operations as programs, run alone, for what
  each branch returns, throws and changes; and as steps of a machine, for what holds under
  every interleaving. In a machine a thread has a program counter, a datatype with one constructor
  for each point between two accesses to shared memory; a field for each mutex holds its owner; a wait on a condition variable is the test of the predicate (of the
  publisher's, a step for each of the two members it reads), then, as another step, the release with
  the block, and the return to the mutex, by a notification or spuriously. Fields called history in the text record
  what happened and are never read by a step. For the box, the buffer and both
  workers the two views are proved to agree: any calls of the programs one after the other are a
  run of the machine (\<open>Box_Calls\<close>, \<open>Buffer_Calls\<close>, \<open>Async_Session\<close>, \<open>Detached_Session\<close>), which brings the
  invariants of the machine to the programs, and the histories of the box's machine are calls of
  the programs. A handler that the programs \<^verbatim>\<open>init\<close> and \<^verbatim>\<open>start_thread\<close> made is an initial state of its
  machine (\<open>Async_Start\<close>). A run of programs goes from one \<^verbatim>\<open>start_thread\<close> to a stop and the calls after
  it; \<^verbatim>\<open>init\<close> and \<^verbatim>\<open>start_thread\<close> of a stopped handler begin another. A detached handler can also be
  stopped before its worker has begun, when it is paused and was never triggered for one; calls of
  \<^verbatim>\<open>init\<close>, \<^verbatim>\<open>start_thread\<close> and \<^verbatim>\<open>join_async_callback_thread\<close> while it runs are refused, change nothing or
  do not come back. The publisher is a machine only: there is little in its
  calls but the exchange with its thread.
\<close>

text \<open>
  \<^bold>\<open>Interfaces.\<close> The mutex is used through \<open>lockable\<close>: a holder, \<open>lock\<close>, \<open>try_lock\<close> and \<open>unlock\<close> with
  their laws; \<open>checked_lockable\<close> adds that a foreign unlock is reported, \<open>nonrecursive_lockable\<close> and
  \<open>recursive_lockable\<close> what a second lock by the holder does. The error-checking and the recursive
  pthread mutex and the two of the standard library are interpretations of those they satisfy;
  \<open>lock_client\<close> adds a client that keeps its mutex in a field, and the box and the goal handle (\<open>goal_server\<close>) are proved over it and interpreted on
  \<open>detail_mutex\<close>. \<open>boost_container\<close>, \<open>pthread_mutex\<close> and \<open>goal_laws\<close> state what code outside the
  repository promises, and each has an executable interpretation. What they do not promise is not assumed: a
  container may refuse a capacity, an \<^verbatim>\<open>spsc_queue\<close> has one producer and one consumer, \<^verbatim>\<open>publish_feedback\<close>
  may throw on any goal, and to end a goal with a null result is undefined behaviour. \<open>safety\<close> (an invariant of a step
  relation), \<open>simulation\<close> (an abstraction to a specification, with invisible steps), \<open>ranked\<close> (a bound
  on a thread's own steps under interference) and \<open>monitor\<close> (clients and one keeper around a mutex)
  are interpreted on the machines of the box, the queue, the buffer, the publisher and both workers.
  \<open>serial_calls\<close> lifts the agreement of one call with steps of a machine to every sequence of calls;
  the box is an instance of it over any \<open>lockable\<close>, and the buffer and the two workers are others.

  \<^bold>\<open>What the theorems show.\<close>

  \<^item> Specifications: the publisher is a one-place mailbox, the asynchronous worker a one-place cell
    of triggers, the queue a bounded list, the buffer two values, the one in use and the one
    that waits, the goal handle a
    set of requests without a mutex; each by a simulation or for every sequence of calls.
  \<^item> Safety under every interleaving: mutual exclusion, no torn reads, no lost message or trigger,
    no goal ended twice, no leak or double deletion, a pause that is effective.
  \<^item> Progress: no lost wake-up, a worker that is blocked with work to do is owed a notification by
    a client that can move, calls of the real-time side finish in a bounded number of their own
    steps, threads told to stop return within a bounded number of theirs.
  \<^item> Errors: exceptions of callbacks, predicates and rclcpp leave the mutex free and the state as
    described; re-entrance, dead owners and failed initialisation; what \<^verbatim>\<open>validate\<close> refuses and
    \<^verbatim>\<open>init\<close> lets pass.
  \<^item> Schedule: the detached worker measures its periods right, keeps its phase over pauses and
    overruns, makes at most one call for each period scheduled, and by the steady clock never calls
    its callback more often than its rate.
  \<^item> Numbers: periods are quotients of 32-bit words, \<^verbatim>\<open>int\<close> parameters are narrowed from 64 bits, and
    the overrun count of the detached loop is computed in doubles, with the error of each rounding
    bounded; a count that does not fit an \<^verbatim>\<open>int\<close> is undefined behaviour and a branch of the model.

  \<^bold>\<open>Bounds.\<close> No definition takes fuel. Loops of the code that end are structural recursions; loops
  that may not end are step relations, and claims that they end are bounds on steps (six for
  \<^verbatim>\<open>try_publish\<close>, nine for a trigger, eleven, thirteen and twenty-four for the three threads once
  stopped), from a rank that every own step lowers and no step of others raises.

  \<^bold>\<open>Not modelled.\<close> Weak memory: accesses interleave, which is right for the atomics that decide
  control flow here because their other accesses are under the mutex, and data races are exhibited
  as such. The failure of the constructor of \<^verbatim>\<open>std::thread\<close> for want of resources, in \<^verbatim>\<open>start_thread\<close> and in
  the publisher's constructor. The overflow of times as 64-bit counts of nanoseconds, 292 years after
  the epoch of their clock. Logging, but for the messages that are returned and the lines a worker's start and
  \<^verbatim>\<open>validate\<close> write. User callbacks that call back into the object that runs them.
  \<^verbatim>\<open>native_handle\<close>, \<^verbatim>\<open>get_thread\<close> and \<^verbatim>\<open>get_async_mutex\<close>, which hand out a member itself, overload resolution by type traits in the box, its constructor
  from an initializer list, which is never enabled, and \<^verbatim>\<open>initRT\<close> and \<^verbatim>\<open>reset\<close> of the buffer
  concurrently with others, which the class leaves to its user to avoid.
\<close>

end
